(* ===== verification/Felis_Prelude.thy ===== *)
theory Felis_Prelude
  imports Main "HOL-Library.Word" "HOL-Library.Multiset" "HOL-Library.Monad_Syntax"
begin

text \<open>
  Shared vocabulary of the development: machine integer types, the result type
  of code that may call \<open>std::abort\<close>, and the generic list lemmas that the
  component theories rely on.
\<close>

unbundle bit_operations_syntax

type_synonym u8 = "8 word"
type_synonym u16 = "16 word"
type_synonym u32 = "32 word"
type_synonym u64 = "64 word"

text \<open>
  \<open>abort_if(cond, msg)\<close> and a failed read or write outside an array are values:
  \<open>Inl\<close> carries the fault, \<open>Inr\<close> the result.
\<close>

datatype fault = Abort string | OutOfBounds

type_synonym 'a res = "fault + 'a"

definition res_bind :: "'a res \<Rightarrow> ('a \<Rightarrow> 'b res) \<Rightarrow> 'b res" where
  "res_bind m f = (case m of Inl e \<Rightarrow> Inl e | Inr x \<Rightarrow> f x)"

lemma res_bind_simps [simp]:
  "res_bind (Inl e) f = Inl e"
  "res_bind (Inr x) f = f x"
  by (simp_all add: res_bind_def)

lemma res_bind_Inr_iff:
  "res_bind m f = Inr y \<longleftrightarrow> (\<exists>x. m = Inr x \<and> f x = Inr y)"
  by (cases m) auto

text \<open>\<open>mem::kNrCorePerNode\<close>.\<close>

definition kNrCorePerNode :: nat where "kNrCorePerNode = 8"

named_theorems felis_defs \<open>definitions unfolded by the component proofs\<close>

section \<open>Lists\<close>

text \<open>The part of a list between two indices, as a C++ iterator range.\<close>

definition slice :: "'a list \<Rightarrow> nat \<Rightarrow> nat \<Rightarrow> 'a list" where
  "slice xs a b = take (b - a) (drop a xs)"

lemma length_slice [simp]: "b \<le> length xs \<Longrightarrow> length (slice xs a b) = b - a"
  by (auto simp: slice_def)

lemma nth_slice [simp]: "a + i < b \<Longrightarrow> b \<le> length xs \<Longrightarrow> slice xs a b ! i = xs ! (a + i)"
  by (simp add: slice_def)

lemma slice_0 [simp]: "slice xs 0 n = take n xs"
  by (simp add: slice_def)

lemma slice_empty [simp]: "b \<le> a \<Longrightarrow> slice xs a b = []"
  by (simp add: slice_def)

lemma take_append_slice: "a \<le> b \<Longrightarrow> take a xs @ slice xs a b = take b xs"
  using take_add [of a "b - a" xs] by (simp add: slice_def)

lemma slice_append: "a \<le> b \<Longrightarrow> b \<le> c \<Longrightarrow> slice xs a b @ slice xs b c = slice xs a c"
  using take_add [of "b - a" "c - b" "drop a xs"] by (simp add: slice_def)

lemma slice_cong_drop: "drop a xs = drop a ys \<Longrightarrow> slice xs a b = slice ys a b"
  by (simp add: slice_def)

text \<open>Sortedness of a prefix, phrased on indices.\<close>

lemma sorted_take_nth:
  "sorted (take n xs) \<Longrightarrow> i \<le> j \<Longrightarrow> j < n \<Longrightarrow> n \<le> length xs \<Longrightarrow> xs ! i \<le> xs ! j"
  using sorted_nth_mono [of "take n xs" i j] by simp

lemma filter_prefix_count:
  assumes "r \<le> length xs" and "\<And>i. i < r \<Longrightarrow> P (xs ! i)"
    and "\<And>i. r \<le> i \<Longrightarrow> i < length xs \<Longrightarrow> \<not> P (xs ! i)"
  shows "length (filter P xs) = r"
proof -
  have "filter P (take r xs) = take r xs"
    by (rule filter_True) (use assms in \<open>auto simp: in_set_conv_nth\<close>)
  moreover have "filter P (drop r xs) = []"
    by (rule filter_False) (use assms in \<open>auto simp: in_set_conv_nth\<close>)
  ultimately have "filter P (take r xs @ drop r xs) = take r xs"
    by (simp only: filter_append append_Nil2)
  then show ?thesis using assms(1) by simp
qed

text \<open>A sorted list is determined by its multiset.\<close>

lemma sorted_mset_unique:
  "sorted xs \<Longrightarrow> mset xs = mset ys \<Longrightarrow> xs = sort ys"
  by (simp add: properties_for_sort)

lemma sort_mset_cong: "mset xs = mset ys \<Longrightarrow> sort xs = sort ys"
  by (rule sorted_mset_unique) simp_all

end
