(* ===== verification/Cpp_Library.thy ===== *)
theory Cpp_Library
  imports Felis_Prelude
begin

text \<open>
  What the source uses of the compiler's bit builtins and of the C++ standard
  library: \<open>__builtin_clz\<close>, \<open>__builtin_ctzll\<close>, \<open>__builtin_ffsll\<close>,
  \<open>__builtin_popcountll\<close>, \<open>memmove\<close>, \<open>std::lower_bound\<close> and
  \<open>std::upper_bound\<close>.  The binary searches are the textbook loops of the
  library implementations; their specification is the position of the first
  element that is not less than (respectively greater than) the value.
\<close>

section \<open>Bit builtins\<close>

fun bit_len :: "nat \<Rightarrow> nat" where
  "bit_len n = (if n = 0 then 0 else Suc (bit_len (n div 2)))"

declare bit_len.simps [simp del]

lemma bit_len_0 [simp]: "bit_len 0 = 0"
  by (simp add: bit_len.simps)

lemma bit_len_bounds: "0 < n \<Longrightarrow> 2 ^ (bit_len n - 1) \<le> n \<and> n < 2 ^ bit_len n"
proof (induction n rule: bit_len.induct)
  case (1 n)
  show ?case
  proof (cases "n div 2 = 0")
    case True
    with "1.prems" have "n = 1" by presburger
    then show ?thesis by (simp add: bit_len.simps)
  next
    case False
    then have "0 < n" and pos: "0 < n div 2" by auto
    with "1.IH" have lo: "2 ^ (bit_len (n div 2) - 1) \<le> n div 2"
      and hi: "n div 2 < 2 ^ bit_len (n div 2)" by auto
    have len: "0 < bit_len (n div 2)" using pos by (simp add: bit_len.simps)
    have eq: "bit_len n = Suc (bit_len (n div 2))" using \<open>0 < n\<close> by (simp add: bit_len.simps)
    have "(2::nat) ^ bit_len (n div 2) = 2 * 2 ^ (bit_len (n div 2) - 1)"
      using len by (cases "bit_len (n div 2)") auto
    moreover have "(2::nat) ^ bit_len n = 2 * 2 ^ bit_len (n div 2)" using eq by simp
    ultimately show ?thesis using lo hi eq by simp arith
  qed
qed

lemma bit_len_pos: "0 < n \<Longrightarrow> 0 < bit_len n"
  by (simp add: bit_len.simps)

lemma bit_len_le: "n < 2 ^ k \<Longrightarrow> bit_len n \<le> k"
proof (cases "n = 0")
  case False
  assume "n < 2 ^ k"
  moreover have "2 ^ (bit_len n - 1) \<le> n" using False bit_len_bounds by blast
  ultimately have "(2::nat) ^ (bit_len n - 1) < 2 ^ k" using le_less_trans by blast
  then have "bit_len n - 1 < k" by (rule power_less_imp_less_exp [rotated]) simp
  then show ?thesis by simp
qed simp

text \<open>\<open>__builtin_clz\<close> on a 32-bit operand (undefined for 0 in C).\<close>

definition clz32 :: "nat \<Rightarrow> nat" where
  "clz32 n = 32 - bit_len n"

definition clz64 :: "nat \<Rightarrow> nat" where
  "clz64 n = 64 - bit_len n"

definition ctz :: "'a::len word \<Rightarrow> nat" where
  "ctz w = length (takeWhile (\<lambda>i. \<not> bit w i) [0..<LENGTH('a)])"

definition ffs :: "'a::len word \<Rightarrow> nat" where
  "ffs w = (if w = 0 then 0 else Suc (ctz w))"

definition popcount :: "'a::len word \<Rightarrow> nat" where
  "popcount w = length (filter (bit w) [0..<LENGTH('a)])"

lemma length_takeWhile_upt:
  assumes "\<exists>i<n. \<not> P i"
  shows "length (takeWhile P [0..<n]) < n \<and> \<not> P (length (takeWhile P [0..<n]))
    \<and> (\<forall>i<length (takeWhile P [0..<n]). P i)"
proof -
  let ?k = "length (takeWhile P [0..<n])"
  have le: "?k \<le> n" by (metis diff_zero length_takeWhile_le length_upt)
  have all: "\<forall>i<?k. P i"
  proof (intro allI impI)
    fix i assume "i < ?k"
    then have "takeWhile P [0..<n] ! i = i" and "takeWhile P [0..<n] ! i \<in> set (takeWhile P [0..<n])"
      using le nth_mem by (fastforce simp: takeWhile_nth)+
    then show "P i" using set_takeWhileD by metis
  qed
  with assms have "?k < n" using le by (metis le_neq_implies_less order.strict_trans)
  moreover from this have "\<not> P ?k"
    using nth_length_takeWhile [of P "[0..<n]"] by simp
  ultimately show ?thesis using all by blast
qed

lemma word_nonzero_bit: "(w :: 'a::len word) \<noteq> 0 \<Longrightarrow> \<exists>i<LENGTH('a). bit w i"
  by (metis bit_0_eq bit_imp_le_length bit_eq_iff bot_apply bot_bool_def)

lemma ctz_bit: "w \<noteq> 0 \<Longrightarrow> ctz w < LENGTH('a) \<and> bit w (ctz w) \<and> (\<forall>i<ctz w. \<not> bit w i)"
  for w :: "'a::len word"
  using length_takeWhile_upt [of "LENGTH('a)" "\<lambda>i. \<not> bit w i"] word_nonzero_bit [of w]
  by (auto simp: ctz_def)

lemma ctz_unique:
  assumes "bit w i" and "\<And>j. j < i \<Longrightarrow> \<not> bit w j"
  shows "ctz w = i"
  using ctz_bit [of w] assms by (metis bit_0_eq bot_apply bot_bool_def linorder_neqE_nat)

lemma popcount_card: "popcount w = card {i. i < LENGTH('a) \<and> bit w i}"
  for w :: "'a::len word"
proof -
  have "popcount w = length (filter (bit w) [0..<LENGTH('a)])" by (simp add: popcount_def)
  also have "\<dots> = card (set (filter (bit w) [0..<LENGTH('a)]))"
    by (rule distinct_card [symmetric]) simp
  also have "set (filter (bit w) [0..<LENGTH('a)]) = {i. i < LENGTH('a) \<and> bit w i}" by auto
  finally show ?thesis .
qed

lemma bits_of_word: "{i. i < LENGTH('a) \<and> bit w i} = {i. bit w i}" for w :: "'a::len word"
  using bit_imp_le_length by auto

lemma finite_word_bits [simp]: "finite {i. bit w i}" for w :: "'a::len word"
  by (rule finite_subset [of _ "{..<LENGTH('a)}"]) (auto dest: bit_imp_le_length)

lemma popcount_eq: "popcount w = card {i. bit w i}" for w :: "'a::len word"
  by (simp add: popcount_card bits_of_word)

lemma popcount_set_bit:
  assumes "\<not> bit w i" and "i < LENGTH('a)"
  shows "popcount (set_bit i w :: 'a::len word) = Suc (popcount w)"
proof -
  have "{j. bit (set_bit i w) j} = insert i {j. bit w j}"
    using assms(2) by (auto simp: bit_set_bit_iff)
  then show ?thesis using assms(1) by (simp add: popcount_eq)
qed

lemma popcount_unset_bit:
  assumes "bit w i"
  shows "Suc (popcount (unset_bit i w :: 'a::len word)) = popcount w"
proof -
  have "{j. bit w j} = insert i {j. bit (unset_bit i w) j}"
    using assms by (auto simp: bit_unset_bit_iff)
  moreover have "\<not> bit (unset_bit i w) i" by (simp add: bit_unset_bit_iff)
  ultimately show ?thesis by (simp add: popcount_eq)
qed

lemma or_push_one: "w OR push_bit i 1 = set_bit i w" for w :: "'a::len word"
  by (simp only: set_bit_eq_or)

lemma and_not_push_one: "w AND NOT (push_bit i 1) = unset_bit i w" for w :: "'a::len word"
  by (simp only: unset_bit_eq_and_not)

lemma bit_or_push_one: "bit (w OR push_bit i 1) j \<longleftrightarrow> j = i \<and> i < LENGTH('a) \<or> bit w j" for w :: "'a::len word"
  unfolding or_push_one bit_set_bit_iff by auto

lemma bit_and_not_push_one: "bit (w AND NOT (push_bit i 1)) j \<longleftrightarrow> j \<noteq> i \<and> bit w j" for w :: "'a::len word"
  unfolding and_not_push_one bit_unset_bit_iff by auto

section \<open>Bits set by a signed shift\<close>

text \<open>
  \<open>bitmap &= ~(1 << idx)\<close>: the shift is on a signed 32-bit integer, which is then
  extended to 64 bits.
\<close>

definition clear_idx :: "nat \<Rightarrow> u64 \<Rightarrow> u64" where
  "clear_idx idx b = b AND scast (NOT (push_bit idx (1 :: u32)))"

lemma bit_clear_idx: "bit (clear_idx idx b) n \<longleftrightarrow> bit b n \<and> (idx < 32 \<longrightarrow> min 31 n \<noteq> idx)"
proof (cases "n < 64")
  case True
  then show ?thesis
    by (auto simp: clear_idx_def bit_and_iff bit_signed_iff bit_not_iff bit_push_bit_iff bit_1_iff min_def
        simp del: push_bit_of_1)
next
  case False
  then show ?thesis by (auto dest: bit_imp_le_length)
qed

text \<open>\<open>bitmap |= 1 << idx\<close>, with the same conversions.\<close>

definition or_idx :: "nat \<Rightarrow> u64 \<Rightarrow> u64" where
  "or_idx idx b = b OR scast (push_bit idx (1 :: u32))"

lemma bit_or_idx: "idx < 31 \<Longrightarrow> bit (or_idx idx b) n \<longleftrightarrow> bit b n \<or> n = idx"
proof (cases "n < 64")
  case True
  assume "idx < 31"
  with True show ?thesis
    by (auto simp: or_idx_def bit_or_iff bit_signed_iff bit_push_bit_iff bit_1_iff min_def simp del: push_bit_of_1)
next
  case False
  assume "idx < 31"
  with False show ?thesis by (auto dest: bit_imp_le_length)
qed

text \<open>On core 31 the sign bit spreads over the upper half of the bitmap.\<close>

lemma bit_or_idx_31: "31 \<le> n \<Longrightarrow> n < 64 \<Longrightarrow> bit (or_idx 31 b) n"
  by (simp add: or_idx_def bit_or_iff bit_signed_iff bit_push_bit_iff bit_1_iff min_def del: push_bit_of_1)

section \<open>Blocks of memory\<close>

text \<open>\<open>memmove(xs + d, xs + s, n)\<close>, inside the array.\<close>

definition memmove :: "'a list \<Rightarrow> nat \<Rightarrow> nat \<Rightarrow> nat \<Rightarrow> 'a list" where
  "memmove xs d s n = take d xs @ take n (drop s xs) @ drop (d + n) xs"

lemma length_memmove [simp]:
  "d + n \<le> length xs \<Longrightarrow> s + n \<le> length xs \<Longrightarrow> length (memmove xs d s n) = length xs"
  by (simp add: memmove_def)

lemma nth_memmove:
  "d + n \<le> length xs \<Longrightarrow> s + n \<le> length xs \<Longrightarrow> i < length xs \<Longrightarrow>
   memmove xs d s n ! i = (if d \<le> i \<and> i < d + n then xs ! (s + (i - d)) else xs ! i)"
  by (auto simp: memmove_def nth_append)

text \<open>\<open>std::fill(xs + a, xs + b, v)\<close>.\<close>

definition std_fill :: "'a list \<Rightarrow> nat \<Rightarrow> nat \<Rightarrow> 'a \<Rightarrow> 'a list" where
  "std_fill xs a b v = take a xs @ replicate (b - a) v @ drop b xs"

lemma length_std_fill [simp]: "a \<le> b \<Longrightarrow> b \<le> length xs \<Longrightarrow> length (std_fill xs a b v) = length xs"
  by (simp add: std_fill_def)

lemma nth_std_fill:
  "a \<le> b \<Longrightarrow> b \<le> length xs \<Longrightarrow> i < length xs \<Longrightarrow>
   std_fill xs a b v ! i = (if a \<le> i \<and> i < b then v else xs ! i)"
  by (auto simp: std_fill_def nth_append)

text \<open>\<open>std::copy(src + a, src + b, dst + d)\<close> between two arrays.\<close>

definition std_copy :: "'a list \<Rightarrow> nat \<Rightarrow> 'a list \<Rightarrow> nat \<Rightarrow> nat \<Rightarrow> 'a list" where
  "std_copy dst d src a b = take d dst @ slice src a b @ drop (d + (b - a)) dst"

lemma length_std_copy [simp]:
  "a \<le> b \<Longrightarrow> b \<le> length src \<Longrightarrow> d + (b - a) \<le> length dst \<Longrightarrow> length (std_copy dst d src a b) = length dst"
  by (simp add: std_copy_def)

lemma nth_std_copy:
  "a \<le> b \<Longrightarrow> b \<le> length src \<Longrightarrow> d + (b - a) \<le> length dst \<Longrightarrow> i < length dst \<Longrightarrow>
   std_copy dst d src a b ! i = (if d \<le> i \<and> i < d + (b - a) then src ! (a + (i - d)) else dst ! i)"
  by (auto simp: std_copy_def nth_append)

section \<open>Binary search\<close>

text \<open>The loop of \<open>std::lower_bound\<close> on \<open>[first, first + len)\<close>.\<close>

function lower_bound_loop :: "'a::linorder list \<Rightarrow> nat \<Rightarrow> nat \<Rightarrow> 'a \<Rightarrow> nat" where
  "lower_bound_loop xs first len v =
     (if len = 0 then first
      else let half = len div 2 in
        if xs ! (first + half) < v
        then lower_bound_loop xs (first + half + 1) (len - half - 1) v
        else lower_bound_loop xs first half v)"
  by pat_completeness auto
termination
  by (relation "measure (\<lambda>(xs, first, len, v). len)") auto

declare lower_bound_loop.simps [simp del]

definition std_lower_bound :: "'a::linorder list \<Rightarrow> nat \<Rightarrow> nat \<Rightarrow> 'a \<Rightarrow> nat" where
  "std_lower_bound xs a b v = lower_bound_loop xs a (b - a) v"

function upper_bound_loop :: "'a::linorder list \<Rightarrow> nat \<Rightarrow> nat \<Rightarrow> 'a \<Rightarrow> nat" where
  "upper_bound_loop xs first len v =
     (if len = 0 then first
      else let half = len div 2 in
        if v < xs ! (first + half)
        then upper_bound_loop xs first half v
        else upper_bound_loop xs (first + half + 1) (len - half - 1) v)"
  by pat_completeness auto
termination
  by (relation "measure (\<lambda>(xs, first, len, v). len)") auto

declare upper_bound_loop.simps [simp del]

definition std_upper_bound :: "'a::linorder list \<Rightarrow> nat \<Rightarrow> nat \<Rightarrow> 'a \<Rightarrow> nat" where
  "std_upper_bound xs a b v = upper_bound_loop xs a (b - a) v"

text \<open>What both searches are for: a range whose elements are ordered by index.\<close>

definition range_sorted :: "'a::linorder list \<Rightarrow> nat \<Rightarrow> nat \<Rightarrow> bool" where
  "range_sorted xs a b \<longleftrightarrow> (\<forall>i j. a \<le> i \<and> i \<le> j \<and> j < b \<longrightarrow> xs ! i \<le> xs ! j)"

lemma range_sorted_prefix: "sorted (take n xs) \<Longrightarrow> n \<le> length xs \<Longrightarrow> range_sorted xs 0 n"
  by (auto simp: range_sorted_def intro: sorted_take_nth)

lemma range_sorted_sub: "range_sorted xs a b \<Longrightarrow> a \<le> a' \<Longrightarrow> b' \<le> b \<Longrightarrow> range_sorted xs a' b'"
  by (auto simp: range_sorted_def)

lemma lower_bound_loop_spec:
  assumes "range_sorted xs a (a + n)"
  shows "a \<le> lower_bound_loop xs a n v \<and> lower_bound_loop xs a n v \<le> a + n
    \<and> (\<forall>i. a \<le> i \<and> i < lower_bound_loop xs a n v \<longrightarrow> xs ! i < v)
    \<and> (\<forall>i. lower_bound_loop xs a n v \<le> i \<and> i < a + n \<longrightarrow> v \<le> xs ! i)"
  using assms
proof (induction xs a n v rule: lower_bound_loop.induct)
  case (1 xs first len v)
  let ?h = "len div 2"
  show ?case
  proof (cases "len = 0")
    case True
    then show ?thesis by (auto simp: lower_bound_loop.simps)
  next
    case False
    then have h: "?h < len" by simp
    show ?thesis
    proof (cases "xs ! (first + ?h) < v")
      case True
      have "range_sorted xs (first + ?h + 1) (first + ?h + 1 + (len - ?h - 1))"
        using "1.prems" h by (auto intro: range_sorted_sub)
      note IH = "1.IH" (1) [OF False refl True this]
      have eq: "lower_bound_loop xs first len v = lower_bound_loop xs (first + ?h + 1) (len - ?h - 1) v"
        using False True by (simp add: lower_bound_loop.simps [of xs first len v] Let_def)
      have small: "xs ! i < v" if "first \<le> i" "i < first + ?h + 1" for i
      proof -
        have "xs ! i \<le> xs ! (first + ?h)"
          using "1.prems" that h unfolding range_sorted_def by auto
        then show ?thesis using True by simp
      qed
      have sum: "first + ?h + 1 + (len - ?h - 1) = first + len" using h by simp
      have "xs ! i < v" if "first \<le> i" "i < lower_bound_loop xs first len v" for i
        using IH eq small [of i] that by (cases "i < first + ?h + 1") auto
      then show ?thesis using IH eq sum by simp
    next
      case notlt: False
      have "range_sorted xs first (first + ?h)"
        using "1.prems" h by (auto intro: range_sorted_sub)
      note IH = "1.IH" (2) [OF False refl notlt this]
      have eq: "lower_bound_loop xs first len v = lower_bound_loop xs first ?h v"
        using False notlt by (simp add: lower_bound_loop.simps [of xs first len v] Let_def)
      have big: "v \<le> xs ! i" if "first + ?h \<le> i" "i < first + len" for i
      proof -
        have "xs ! (first + ?h) \<le> xs ! i"
          using "1.prems" that unfolding range_sorted_def by auto
        then show ?thesis using notlt by simp
      qed
      have "v \<le> xs ! i" if "lower_bound_loop xs first len v \<le> i" "i < first + len" for i
        using IH eq big [of i] that by (cases "i < first + ?h") auto
      then show ?thesis using IH eq h by auto
    qed
  qed
qed

lemma upper_bound_loop_spec:
  assumes "range_sorted xs a (a + n)"
  shows "a \<le> upper_bound_loop xs a n v \<and> upper_bound_loop xs a n v \<le> a + n
    \<and> (\<forall>i. a \<le> i \<and> i < upper_bound_loop xs a n v \<longrightarrow> xs ! i \<le> v)
    \<and> (\<forall>i. upper_bound_loop xs a n v \<le> i \<and> i < a + n \<longrightarrow> v < xs ! i)"
  using assms
proof (induction xs a n v rule: upper_bound_loop.induct)
  case (1 xs first len v)
  let ?h = "len div 2"
  show ?case
  proof (cases "len = 0")
    case True
    then show ?thesis by (auto simp: upper_bound_loop.simps)
  next
    case False
    then have h: "?h < len" by simp
    show ?thesis
    proof (cases "v < xs ! (first + ?h)")
      case True
      have "range_sorted xs first (first + ?h)"
        using "1.prems" h by (auto intro: range_sorted_sub)
      note IH = "1.IH" (1) [OF False refl True this]
      have eq: "upper_bound_loop xs first len v = upper_bound_loop xs first ?h v"
        using False True by (simp add: upper_bound_loop.simps [of xs first len v] Let_def)
      have big: "v < xs ! i" if "first + ?h \<le> i" "i < first + len" for i
      proof -
        have "xs ! (first + ?h) \<le> xs ! i"
          using "1.prems" that unfolding range_sorted_def by auto
        then show ?thesis using True by simp
      qed
      have "v < xs ! i" if "upper_bound_loop xs first len v \<le> i" "i < first + len" for i
        using IH eq big [of i] that by (cases "i < first + ?h") auto
      then show ?thesis using IH eq h by auto
    next
      case notlt: False
      have "range_sorted xs (first + ?h + 1) (first + ?h + 1 + (len - ?h - 1))"
        using "1.prems" h by (auto intro: range_sorted_sub)
      note IH = "1.IH" (2) [OF False refl notlt this]
      have eq: "upper_bound_loop xs first len v = upper_bound_loop xs (first + ?h + 1) (len - ?h - 1) v"
        using False notlt by (simp add: upper_bound_loop.simps [of xs first len v] Let_def)
      have small: "xs ! i \<le> v" if "first \<le> i" "i < first + ?h + 1" for i
      proof -
        have "xs ! i \<le> xs ! (first + ?h)"
          using "1.prems" that h unfolding range_sorted_def by auto
        then show ?thesis using notlt by simp
      qed
      have sum: "first + ?h + 1 + (len - ?h - 1) = first + len" using h by simp
      have "xs ! i \<le> v" if "first \<le> i" "i < upper_bound_loop xs first len v" for i
        using IH eq small [of i] that by (cases "i < first + ?h + 1") auto
      then show ?thesis using IH eq sum by simp
    qed
  qed
qed

lemma std_lower_bound_spec:
  assumes "range_sorted xs a b" and "a \<le> b"
  shows "a \<le> std_lower_bound xs a b v" and "std_lower_bound xs a b v \<le> b"
    and "a \<le> i \<Longrightarrow> i < std_lower_bound xs a b v \<Longrightarrow> xs ! i < v"
    and "std_lower_bound xs a b v \<le> i \<Longrightarrow> i < b \<Longrightarrow> v \<le> xs ! i"
  using lower_bound_loop_spec [of xs a "b - a" v] assms by (auto simp: std_lower_bound_def)

lemma std_upper_bound_spec:
  assumes "range_sorted xs a b" and "a \<le> b"
  shows "a \<le> std_upper_bound xs a b v" and "std_upper_bound xs a b v \<le> b"
    and "a \<le> i \<Longrightarrow> i < std_upper_bound xs a b v \<Longrightarrow> xs ! i \<le> v"
    and "std_upper_bound xs a b v \<le> i \<Longrightarrow> i < b \<Longrightarrow> v < xs ! i"
  using upper_bound_loop_spec [of xs a "b - a" v] assms by (auto simp: std_upper_bound_def)

lemma std_lower_bound_unique:
  assumes "range_sorted xs a b" and "a \<le> r" and "r \<le> b"
    and "\<And>i. a \<le> i \<Longrightarrow> i < r \<Longrightarrow> xs ! i < v" and "\<And>i. r \<le> i \<Longrightarrow> i < b \<Longrightarrow> v \<le> xs ! i"
  shows "std_lower_bound xs a b v = r"
proof (rule ccontr)
  have ab: "a \<le> b" using assms by simp
  let ?k = "std_lower_bound xs a b v"
  note spec = std_lower_bound_spec [OF assms(1) ab, where v = v]
  assume "?k \<noteq> r"
  then consider "?k < r" | "r < ?k" by arith
  then show False
  proof cases
    case 1
    with assms spec(1) spec(4) [of ?k] show False by (meson leD le_less_trans order.refl order.strict_trans2)
  next
    case 2
    with assms spec(2) spec(3) [of r] show False by (meson leD order.refl order.strict_trans2)
  qed
qed

text \<open>Conversion of an integer to \<open>unsigned int\<close>.\<close>

definition u32_of :: "int \<Rightarrow> nat" where
  "u32_of i = nat (i mod 2 ^ 32)"

lemma u32_of_less [simp]: "u32_of i < 4294967296"
  by (simp add: u32_of_def)

lemma u32_of_small [simp]: "0 \<le> i \<Longrightarrow> i < 2 ^ 32 \<Longrightarrow> u32_of i = nat i"
  by (simp add: u32_of_def)

end
