(* ===== verification/Lower_Bound.thy ===== *)
theory Lower_Bound
  imports Cpp_Library
begin

text \<open>
  The search and rounding helpers of \<^verbatim>\<open>src/util/lowerbound.h\<close> and
  \<^verbatim>\<open>src/util/arch.h\<close>: \<open>util::FastLowerBound\<close>, the branch-free binary search
  that the version array uses, and \<open>util::Align\<close>. Every array read of the search is
  checked, so a result \<open>Inr\<close> says that no read left the range.
\<close>

section \<open>Checked reads and writes\<close>

definition rd :: "'a list \<Rightarrow> nat \<Rightarrow> 'a res" where
  "rd xs i = (if i < length xs then Inr (xs ! i) else Inl OutOfBounds)"

definition wr :: "'a list \<Rightarrow> nat \<Rightarrow> 'a \<Rightarrow> 'a list res" where
  "wr xs i v = (if i < length xs then Inr (xs[i := v]) else Inl OutOfBounds)"

lemma rd_Inr [simp]: "i < length xs \<Longrightarrow> rd xs i = Inr (xs ! i)"
  by (simp add: rd_def)

lemma rd_eq_Inr_iff: "rd xs i = Inr v \<longleftrightarrow> i < length xs \<and> v = xs ! i"
  by (auto simp: rd_def)

lemma wr_Inr [simp]: "i < length xs \<Longrightarrow> wr xs i v = Inr (xs[i := v])"
  by (simp add: wr_def)

lemma wr_eq_Inr_iff: "wr xs i v = Inr ys \<longleftrightarrow> i < length xs \<and> ys = xs[i := v]"
  by (auto simp: wr_def)

section \<open>FastLowerBound\<close>

text \<open>
  The loop \<open>for (x = 11; x >= 0; x--)\<close>: the fourth argument is \<open>x + 1\<close>, \<open>s\<close> is the
  index of \<open>start\<close> in the array and \<open>m\<close> is \<open>maxstep\<close>.
\<close>

fun flb_loop :: "u64 list \<Rightarrow> nat \<Rightarrow> nat \<Rightarrow> u64 \<Rightarrow> nat \<Rightarrow> nat \<Rightarrow> nat res" where
  "flb_loop xs s m v 0 ret = Inr ret"
| "flb_loop xs s m v (Suc x) ret =
     (if 2 ^ x < m
      then res_bind (rd xs (s + ret + 2 ^ x)) (\<lambda>a.
             flb_loop xs s m v x (ret + (if a \<le> v then 2 ^ x else 0)))
      else flb_loop xs s m v x ret)"

definition FastLowerBound :: "u64 list \<Rightarrow> nat \<Rightarrow> nat \<Rightarrow> u64 \<Rightarrow> nat res" where
  "FastLowerBound xs s e v =
     (let len = (e - s) mod 2 ^ 32 in
      if len = 0 then Inr s else
      let maxstep = 2 ^ (31 - clz32 len) in
      res_bind (if maxstep < len
                then res_bind (rd xs (s + maxstep)) (\<lambda>a. Inr (if a \<le> v then len - maxstep else 0))
                else Inr 0) (\<lambda>ret0.
      res_bind (flb_loop xs s maxstep v 12 ret0) (\<lambda>ret.
      res_bind (rd xs (s + ret)) (\<lambda>a.
      Inr (if a \<le> v then s + ret + 1 else s + ret)))))"

text \<open>
  The loop invariant. \<open>p\<close> is the upper bound position in the range: entries before
  \<open>p\<close> are at most \<open>v\<close>, entries from \<open>p\<close> on are greater. While the steps below
  \<open>2 ^ k\<close> remain, \<open>p\<close> lies in the window \<open>[ret, ret + 2 ^ k]\<close>.
\<close>

lemma flb_loop_skip: "k \<le> x \<Longrightarrow> flb_loop xs s (2 ^ k) v x ret = flb_loop xs s (2 ^ k) v k ret"
proof (induction x)
  case (Suc x)
  show ?case
  proof (cases "k = Suc x")
    case False
    then have "k \<le> x" using Suc.prems by simp
    moreover have "\<not> (2::nat) ^ x < 2 ^ k" using \<open>k \<le> x\<close> by simp
    ultimately show ?thesis using Suc.IH by simp
  qed simp
qed simp

lemma flb_loop_inv:
  assumes pos: "\<And>i. i < len \<Longrightarrow> (xs ! (s + i) \<le> v) = (i < p)"
    and bnd: "s + len \<le> length xs"
  shows "k \<le> K \<Longrightarrow> ret + 2 ^ k \<le> len \<Longrightarrow> p \<le> ret + 2 ^ k \<Longrightarrow> ret = 0 \<or> ret < p \<Longrightarrow>
    \<exists>r. flb_loop xs s (2 ^ K) v k ret = Inr r \<and> r < len \<and> p \<le> r + 1 \<and> (r = 0 \<or> r < p)"
proof (induction k arbitrary: ret)
  case (Suc k)
  have lt: "(2::nat) ^ k < 2 ^ K" using Suc.prems(1) by simp
  have "(0::nat) < 2 ^ k" "(2::nat) ^ Suc k = 2 ^ k + 2 ^ k" by simp_all
  then have in_rng: "ret + 2 ^ k < len" using Suc.prems(2) by linarith
  have val: "(xs ! (s + (ret + 2 ^ k)) \<le> v) = (ret + 2 ^ k < p)" using pos [OF in_rng] .
  have idx: "s + ret + 2 ^ k < length xs" using in_rng bnd by simp
  define ret' where "ret' = ret + (if ret + 2 ^ k < p then 2 ^ k else 0)"
  have step: "flb_loop xs s (2 ^ K) v (Suc k) ret = flb_loop xs s (2 ^ K) v k ret'"
    using lt idx val by (simp add: ret'_def add.assoc)
  have "ret' + 2 ^ k \<le> len" "p \<le> ret' + 2 ^ k" "ret' = 0 \<or> ret' < p"
    using Suc.prems by (auto simp: ret'_def)
  then show ?case using Suc.IH [of ret'] Suc.prems(1) step by simp
qed (auto)

lemma FastLowerBound_pos:
  assumes pos: "\<And>i. i < e - s \<Longrightarrow> (xs ! (s + i) \<le> v) = (i < p)"
    and p: "p \<le> e - s" and se: "s < e" and bnd: "e \<le> length xs" and small: "e - s < 8192"
  shows "FastLowerBound xs s e v = Inr (s + p)"
proof -
  define len where "len = e - s"
  define K where "K = bit_len len - 1"
  have len0: "0 < len" and len32: "len mod 2 ^ 32 = len" using se small by (auto simp: len_def)
  have K: "2 ^ K \<le> len" "len < 2 ^ Suc K"
    using bit_len_bounds [OF len0] bit_len_pos [OF len0] by (simp_all add: K_def)
  have K12: "K \<le> 12" using bit_len_le [of len 13] small by (simp add: K_def len_def)
  have clz: "31 - clz32 len = K"
    using bit_len_le [of len 32] len32 bit_len_pos [OF len0] small by (simp add: clz32_def K_def len_def)
  have bnd': "s + len \<le> length xs" using bnd se by (simp add: len_def)
  have pos': "\<And>i. i < len \<Longrightarrow> (xs ! (s + i) \<le> v) = (i < p)" using pos by (simp add: len_def)
  define ret0 where "ret0 = (if 2 ^ K < len \<and> xs ! (s + 2 ^ K) \<le> v then len - 2 ^ K else 0)"
  have r0: "ret0 + 2 ^ K \<le> len" "p \<le> ret0 + 2 ^ K" "ret0 = 0 \<or> ret0 < p"
    using K p pos' [of "2 ^ K"] unfolding ret0_def len_def [symmetric]
    by (cases "2 ^ K < len"; cases "xs ! (s + 2 ^ K) \<le> v"; simp; linarith)+
  obtain r where r: "flb_loop xs s (2 ^ K) v K ret0 = Inr r" "r < len" "p \<le> r + 1" "r = 0 \<or> r < p"
    using flb_loop_inv [OF pos' bnd' order_refl r0] by blast
  have loop: "flb_loop xs s (2 ^ K) v 12 ret0 = Inr r" using flb_loop_skip [OF K12] r(1) by simp
  have init: "(if 2 ^ K < len
                then res_bind (rd xs (s + 2 ^ K)) (\<lambda>a. Inr (if a \<le> v then len - 2 ^ K else 0))
                else Inr 0) = Inr ret0"
    using bnd' by (simp add: ret0_def)
  have last: "rd xs (s + r) = Inr (xs ! (s + r))" using r(2) bnd' by simp
  have "FastLowerBound xs s e v = Inr (if r < p then s + r + 1 else s + r)"
    using len0 len32 clz init loop last pos' [OF r(2)]
    by (simp add: FastLowerBound_def Let_def flip: len_def)
  then show ?thesis using r(3,4) by auto
qed

lemma FastLowerBound_eq_upper_bound:
  assumes "range_sorted xs s e" "s \<le> e" "e \<le> length xs" "e - s < 8192"
  shows "FastLowerBound xs s e v = Inr (std_upper_bound xs s e v)"
proof (cases "s = e")
  case True
  then show ?thesis by (simp add: FastLowerBound_def std_upper_bound_def upper_bound_loop.simps)
next
  case False
  let ?u = "std_upper_bound xs s e v"
  note ub = std_upper_bound_spec [OF assms(1,2)]
  have "FastLowerBound xs s e v = Inr (s + (?u - s))"
  proof (rule FastLowerBound_pos)
    show "(xs ! (s + i) \<le> v) = (i < ?u - s)" if "i < e - s" for i
    proof (cases "s + i < ?u")
      case True
      then show ?thesis using ub(3) [of "s + i" v] by auto
    next
      case False
      then have "v < xs ! (s + i)" using ub(4) [of v "s + i"] that by simp
      then show ?thesis using False by auto
    qed
  qed (use assms False ub(1,2) [of v] in auto)
  then show ?thesis using ub(1) [of v] by simp
qed

section \<open>Align\<close>

text \<open>
  \<open>Align(x, a)\<close> on \<open>size_t\<close>: \<open>x - 1\<close> wraps at 64 bits when \<open>x\<close> is 0.
\<close>

definition Align :: "nat \<Rightarrow> nat \<Rightarrow> nat" where
  "Align x a = (a * (((x + 2 ^ 64 - 1) mod 2 ^ 64) div a + 1)) mod 2 ^ 64"

lemma Align_least:
  assumes "0 < x" "0 < a" "x + a < 2 ^ 64"
  shows "x \<le> Align x a" "a dvd Align x a" "Align x a < x + a"
proof -
  have eq: "(x + 2 ^ 64 - 1) mod 2 ^ 64 = x - 1"
  proof -
    have "x + 2 ^ 64 - 1 = (x - 1) + 2 ^ 64" using assms(1) by simp
    then show ?thesis using assms(3) by (simp only: mod_add_self2) simp
  qed
  define q where "q = (x - 1) div a"
  have "q * a \<le> x - 1" by (simp add: q_def)
  moreover have "x - 1 < q * a + a"
    using assms(2) mod_less_divisor [of a "x - 1"] div_mult_mod_eq [of "x - 1" a]
    unfolding q_def by linarith
  moreover have "a * (q + 1) = q * a + a" by (simp add: algebra_simps)
  ultimately have bnd: "x \<le> a * (q + 1)" "a * (q + 1) < x + a" using assms by linarith+
  then have *: "Align x a = a * (q + 1)"
    using assms(3) unfolding Align_def eq q_def [symmetric] by (intro mod_less) linarith
  show "x \<le> Align x a" "a dvd Align x a" "Align x a < x + a" using * bnd by auto
qed

end
