(* ===== verification/Vhandle_State.thy ===== *)
theory Vhandle_State
  imports Lower_Bound
begin

text \<open>
  The data of a row, \<^verbatim>\<open>felis::SortedArrayVHandle\<close> (\<^verbatim>\<open>src/vhandle.h\<close>), and the
  small allocator inside an inlined row. A row keeps \<open>capacity\<close> version numbers
  followed by \<open>capacity\<close> object pointers in one array; \<open>ver\<close> and \<open>obj\<close> are the two
  halves in use. Locks are not part of the record: the operations below run while
  the row's lock is held (the lock itself is the subject of theory \<open>Mcs_Lock\<close>).
\<close>

section \<open>Serial ids and unsigned arithmetic\<close>

text \<open>\<open>sid >> 32\<close>, the epoch of a serial id.\<close>

definition epoch_of :: "u64 \<Rightarrow> nat" where
  "epoch_of sid = unat (drop_bit 32 sid)"

lemma epoch_of_div: "epoch_of sid = unat sid div 2 ^ 32"
  unfolding epoch_of_def unat_drop_bit_eq by (rule drop_bit_eq_div)

lemma epoch_of_mono: "a \<le> b \<Longrightarrow> epoch_of a \<le> epoch_of b"
  by (simp add: epoch_of_div word_le_nat_alt div_le_mono)

lemma epoch_of_less: "epoch_of a < epoch_of b \<Longrightarrow> a < b"
  using epoch_of_mono [of b a] by (meson leD leI)

section \<open>The row\<close>

definition kPendingValue :: u64 where
  "kPendingValue = 0xFE1FE190FFFFFFFF"

record vhandle =
  vaddr :: u64
  alloc_by_regionid :: nat
  this_coreid :: nat
  cont_affinity :: int
  inline_used :: u8
  capacity :: nat
  vsize :: nat
  cur_start :: nat
  latest_version :: int
  nr_ondsplt :: int
  versions :: "u64 list"
  versions_inline :: bool
  buf_pos :: int
  gc_handle :: u64

text \<open>
  The constructor. \<open>aff\<close> is \<open>mem::ParallelPool::CurrentAffinity()\<close> (kept in a
  \<open>uint8_t\<close>) and \<open>mem\<close> the 8 words that follow the row in its 128-byte block.
  \<open>versions_inline\<close> says that \<open>versions\<close> still points there, 64 bytes into the row.
\<close>

definition SortedArrayVHandle :: "u64 \<Rightarrow> nat \<Rightarrow> u64 list \<Rightarrow> vhandle" where
  "SortedArrayVHandle this aff mem =
     \<lparr> vaddr = this, alloc_by_regionid = aff mod 256, this_coreid = aff mod 256,
       cont_affinity = -1, inline_used = 0xFF, capacity = 4, vsize = 0, cur_start = 0,
       latest_version = -1, nr_ondsplt = 0, versions = mem, versions_inline = True,
       buf_pos = -1, gc_handle = 0 \<rparr>"

definition is_inlined :: "vhandle \<Rightarrow> bool" where
  "is_inlined h \<longleftrightarrow> inline_used h \<noteq> 0xFF"

definition New :: "u64 \<Rightarrow> nat \<Rightarrow> u64 list \<Rightarrow> vhandle" where
  "New p aff mem = SortedArrayVHandle p aff mem"

definition NewInline :: "u64 \<Rightarrow> nat \<Rightarrow> u64 list \<Rightarrow> vhandle" where
  "NewInline p aff mem = (SortedArrayVHandle p aff mem)\<lparr>inline_used := 0\<rparr>"

definition first_version :: "vhandle \<Rightarrow> u64" where
  "first_version h = versions h ! 0"

definition last_version :: "vhandle \<Rightarrow> u64" where
  "last_version h = versions h ! (vsize h - 1)"

definition nr_updated :: "vhandle \<Rightarrow> nat" where
  "nr_updated h = u32_of (latest_version h + 1)"

text \<open>A scan by transaction \<open>sid\<close> skips a row whose first version is not before it.\<close>

definition ShouldScanSkip :: "vhandle \<Rightarrow> u64 \<Rightarrow> bool" where
  "ShouldScanSkip h sid \<longleftrightarrow> first_version h \<ge> sid"

text \<open>The halves of the array that are in use.\<close>

definition ver :: "vhandle \<Rightarrow> u64 list" where
  "ver h = take (vsize h) (versions h)"

definition obj :: "vhandle \<Rightarrow> u64 list" where
  "obj h = take (vsize h) (drop (capacity h) (versions h))"

text \<open>Shape of a row: the array has two halves and the used part fits.\<close>

definition vh_shape :: "vhandle \<Rightarrow> bool" where
  "vh_shape h \<longleftrightarrow> length (versions h) = 2 * capacity h \<and> vsize h \<le> capacity h
     \<and> 4 \<le> capacity h \<and> capacity h \<le> 2 ^ 30 \<and> cur_start h < 2 ^ 32"

lemma ver_obj_update [simp]:
  "ver (h\<lparr>gc_handle := x\<rparr>) = ver h" "obj (h\<lparr>gc_handle := x\<rparr>) = obj h"
  "vh_shape (h\<lparr>gc_handle := x\<rparr>) = vh_shape h"
  "ver (h\<lparr>cur_start := c\<rparr>) = ver h" "obj (h\<lparr>cur_start := c\<rparr>) = obj h"
  "ver (h\<lparr>nr_ondsplt := n\<rparr>) = ver h" "obj (h\<lparr>nr_ondsplt := n\<rparr>) = obj h"
  "vh_shape (h\<lparr>nr_ondsplt := n\<rparr>) = vh_shape h"
  "ver (h\<lparr>cont_affinity := a\<rparr>) = ver h" "obj (h\<lparr>cont_affinity := a\<rparr>) = obj h"
  "vh_shape (h\<lparr>cont_affinity := a\<rparr>) = vh_shape h"
  by (simp_all add: ver_def obj_def vh_shape_def)

lemma length_ver [simp]: "vh_shape h \<Longrightarrow> length (ver h) = vsize h"
  by (simp add: vh_shape_def ver_def)

lemma length_obj [simp]: "vh_shape h \<Longrightarrow> length (obj h) = vsize h"
  by (simp add: vh_shape_def obj_def)

lemma nth_ver [simp]: "i < vsize h \<Longrightarrow> ver h ! i = versions h ! i"
  by (simp add: ver_def)

lemma nth_obj [simp]: "vh_shape h \<Longrightarrow> i < vsize h \<Longrightarrow> obj h ! i = versions h ! (capacity h + i)"
  by (simp add: obj_def vh_shape_def)

lemma vh_shape_New: "length mem = 8 \<Longrightarrow> vh_shape (New p aff mem)"
  by (simp add: vh_shape_def New_def SortedArrayVHandle_def)

section \<open>Memory inside an inlined row\<close>

text \<open>
  An inlined row has 128 bytes behind its first 128. \<open>AllocFromInline\<close> hands them
  out in units of 32 bytes, one bit of \<open>inline_used\<close> per unit; the result is the byte
  offset of the memory in the row.
\<close>

fun inline_scan :: "u8 \<Rightarrow> u8 \<Rightarrow> nat \<Rightarrow> nat \<Rightarrow> (u8 \<times> nat) option" where
  "inline_scan used msk off 0 = None"
| "inline_scan used msk off (Suc n) =
     (if used AND push_bit off msk = 0
      then Some (used OR push_bit off msk, 128 + off * 32)
      else inline_scan used msk (Suc off) n)"

definition AllocFromInline :: "vhandle \<Rightarrow> nat \<Rightarrow> vhandle \<times> nat option" where
  "AllocFromInline h sz0 =
     (if inline_used h \<noteq> 0xFF then
        let sz = Align sz0 32 in
        if sz > 128 then (h, None)
        else
          let msk = (of_nat (2 ^ (sz div 32) - 1) :: u8) in
          case inline_scan (inline_used h) msk 0 (4 - sz div 32 + 1) of
            None \<Rightarrow> (h, None)
          | Some (used, off) \<Rightarrow> (h\<lparr>inline_used := used\<rparr>, Some off)
      else (h, None))"

text \<open>\<open>FreeToInline\<close> takes the byte offset back; its unit is 16 bytes.\<close>

definition FreeToInline :: "vhandle \<Rightarrow> nat \<Rightarrow> nat \<Rightarrow> vhandle" where
  "FreeToInline h p sz0 =
     (if inline_used h \<noteq> 0xFF then
        let sz = Align sz0 16 in
        if sz > 128 then h
        else
          let msk = (of_nat (2 ^ (sz div 16) - 1) :: u8);
              off = (p - 128) div 16
          in h\<lparr>inline_used := inline_used h AND NOT (push_bit off msk)\<rparr>
      else h)"

text \<open>A successful allocation takes free units only, and marks exactly them.\<close>

lemma inline_scan_Some:
  "inline_scan used msk off n = Some (used', p) \<Longrightarrow>
   \<exists>k. off \<le> k \<and> k < off + n \<and> used AND push_bit k msk = 0
       \<and> used' = used OR push_bit k msk \<and> p = 128 + k * 32"
proof (induction n arbitrary: off)
  case (Suc n)
  show ?case
  proof (cases "used AND push_bit off msk = 0")
    case True
    then show ?thesis using Suc.prems by (intro exI [of _ off]) auto
  next
    case False
    then have "inline_scan used msk (Suc off) n = Some (used', p)" using Suc.prems by simp
    from Suc.IH [OF this] show ?thesis by fastforce
  qed
qed simp

lemma bit_ones_mask: "bit (of_nat (2 ^ n - 1) :: 'a::len word) i \<longleftrightarrow> i < n \<and> i < LENGTH('a)"
proof -
  have "(of_nat (2 ^ n - 1) :: 'a word) = mask n"
    by (simp add: mask_eq_exp_minus_1 of_nat_diff)
  then show ?thesis by (auto simp: bit_mask_iff)
qed

lemma AllocFromInline_units:
  assumes "AllocFromInline h sz = (h', Some off)" "0 < sz" "sz \<le> 128"
  defines "n \<equiv> Align sz 32 div 32"
  shows "\<exists>k. off = 128 + 32 * k \<and> k + n \<le> 4 \<and> sz \<le> 32 * n
    \<and> (\<forall>i. k \<le> i \<and> i < k + n \<longrightarrow> \<not> bit (inline_used h) i)
    \<and> (\<forall>i<8. bit (inline_used h') i \<longleftrightarrow> bit (inline_used h) i \<or> k \<le> i \<and> i < k + n)"
proof -
  define msk where "msk = (of_nat (2 ^ n - 1) :: u8)"
  have al: "sz \<le> Align sz 32" "32 dvd Align sz 32" using Align_least [of sz 32] assms by auto
  then have n: "Align sz 32 = 32 * n" "sz \<le> 32 * n" by (auto simp: n_def)
  have le: "Align sz 32 \<le> 128" and n4: "n \<le> 4"
    using assms(1) n by (auto simp: AllocFromInline_def Let_def split: if_splits)
  from assms(1) le obtain used' where
    sc: "inline_scan (inline_used h) msk 0 (4 - n + 1) = Some (used', off)"
      "h' = h\<lparr>inline_used := used'\<rparr>"
    by (auto simp: AllocFromInline_def Let_def msk_def n_def split: if_splits option.splits)
  from inline_scan_Some [OF sc(1)] obtain k where k: "k < 4 - n + 1"
    "inline_used h AND push_bit k msk = 0" "used' = inline_used h OR push_bit k msk" "off = 128 + k * 32"
    by auto
  have bits: "bit (push_bit k msk) i \<longleftrightarrow> k \<le> i \<and> i < k + n" if "i < 8" for i
    using that unfolding bit_push_bit_iff msk_def bit_ones_mask by auto
  have "\<not> bit (inline_used h) i" if "k \<le> i" "i < k + n" for i
  proof -
    have "i < 8" using that k(1) n4 by simp
    then have "bit (push_bit k msk) i" using bits that by simp
    moreover have "\<not> bit (inline_used h AND push_bit k msk) i" using k(2) by simp
    ultimately show ?thesis by (simp add: bit_and_iff)
  qed
  then show ?thesis
    using k n n4 sc(2) bits by (intro exI [of _ k]) (auto simp: bit_or_iff)
qed

end
