(* ===== verification/Mv_Store.thy ===== *)
theory Mv_Store
  imports Vhandle_State
begin

text \<open>
  What a row promises to the transactions of one epoch, independently of how it is
  stored. The state is the value that earlier epochs left behind and a map from the
  serial ids of the epoch's versions to objects. Reading transaction \<open>sid\<close> gets the object
  of the greatest version before it. The locale \<open>mv_exec\<close> is the interface of the
  execution phase; its lemmas say that the outcome of a set of writes does not depend on
  the order in which the schedulers run them.
\<close>

record epoch_store =
  base :: "u64 option"
  cur :: "u64 \<Rightarrow> u64 option"

definition visible :: "epoch_store \<Rightarrow> u64 \<Rightarrow> u64 option" where
  "visible s sid = (if \<exists>v\<in>dom (cur s). v < sid then cur s (Max {v \<in> dom (cur s). v < sid}) else base s)"

definition put :: "epoch_store \<Rightarrow> u64 \<Rightarrow> u64 \<Rightarrow> epoch_store" where
  "put s sid d = s\<lparr>cur := (cur s)(sid \<mapsto> d)\<rparr>"

lemma dom_put: "dom (cur (put s sid d)) = insert sid (dom (cur s))"
  by (simp add: put_def)

lemma put_commute: "a \<noteq> b \<Longrightarrow> put (put s a x) b y = put (put s b y) a x"
  by (auto simp: put_def fun_upd_twist)

lemma visible_put_other:
  assumes "sid \<in> dom (cur s)" "\<not> sid < r \<or> (\<exists>v\<in>dom (cur s). sid < v \<and> v < r)"
  shows "visible (put s sid d) r = visible s r"
proof -
  have dom: "dom (cur (put s sid d)) = dom (cur s)" using assms(1) by (auto simp: dom_put)
  show ?thesis
  proof (cases "\<exists>v\<in>dom (cur s). v < r")
    case True
    let ?V = "{v \<in> dom (cur s). v < r}"
    have fin: "finite ?V" "?V \<noteq> {}" using True by auto
    have "Max ?V \<noteq> sid"
    proof
      assume m: "Max ?V = sid"
      then have "sid < r" using Max_in [OF fin] by auto
      with assms(2) obtain v where "v \<in> ?V" "sid < v" by auto
      then show False using Max_ge [OF fin(1), of v] m by simp
    qed
    then show ?thesis using True dom by (simp add: visible_def) (simp add: put_def)
  qed (simp add: visible_def dom, simp add: put_def)
qed

text \<open>A reader sees the object of the nearest version before it.\<close>

lemma visible_nearest:
  assumes "cur s v = Some d" "v < r" "\<And>w. w \<in> dom (cur s) \<Longrightarrow> w < r \<Longrightarrow> w \<le> v"
  shows "visible s r = Some d"
proof -
  have "Max {w \<in> dom (cur s). w < r} = v"
    by (rule Max_eqI) (use assms in auto)
  then show ?thesis using assms(1,2) by (auto simp: visible_def)
qed

fun put_all :: "epoch_store \<Rightarrow> (u64 \<times> u64) list \<Rightarrow> epoch_store" where
  "put_all s [] = s"
| "put_all s ((sid, d) # ws) = put_all (put s sid d) ws"

lemma put_all_put:
  "sid \<notin> fst ` set ws \<Longrightarrow> put_all (put s sid d) ws = put (put_all s ws) sid d"
proof (induction ws arbitrary: s)
  case (Cons w ws)
  obtain a x where w: "w = (a, x)" by (cases w)
  then have "a \<noteq> sid" using Cons.prems by auto
  then have "put_all (put (put s sid d) a x) ws = put_all (put (put s a x) sid d) ws"
    using put_commute [of sid a s d x] by simp
  then show ?case using Cons w by auto
qed simp

lemma base_put_all [simp]: "base (put_all s ws) = base s"
  by (induction s ws rule: put_all.induct) (auto simp: put_def)

lemma cur_put_all:
  "distinct (map fst ws) \<Longrightarrow>
   cur (put_all s ws) v = (case map_of ws v of None \<Rightarrow> cur s v | Some d \<Rightarrow> Some d)"
proof (induction s ws rule: put_all.induct)
  case (2 s sid d ws)
  have "map_of ws sid = None" using 2(2) by (simp add: map_of_eq_None_iff)
  then show ?case using 2 by (auto simp: put_def split: option.splits)
qed simp

lemma put_all_perm:
  assumes "distinct (map fst ws)" "mset ws = mset ws'"
  shows "put_all s ws = put_all s ws'"
proof -
  have d': "distinct (map fst ws')"
    using assms mset_eq_imp_distinct_iff [of "map fst ws" "map fst ws'"] by simp
  have "map_of ws = map_of ws'"
    using assms d' by (intro map_of_eqI) (auto dest: mset_eq_setD)
  then have "cur (put_all s ws) = cur (put_all s ws')"
    by (intro ext) (simp add: cur_put_all assms(1) d')
  then show ?thesis by simp
qed

section \<open>The interface of the execution phase\<close>

text \<open>Running a list of writes with the operation \<open>wrt\<close>, one after the other.\<close>

fun run_writes :: "('s \<Rightarrow> u64 \<Rightarrow> u64 \<Rightarrow> 's res) \<Rightarrow> 's \<Rightarrow> (u64 \<times> u64) list \<Rightarrow> 's res" where
  "run_writes wrt s [] = Inr s"
| "run_writes wrt s ((sid, d) # ws) = res_bind (wrt s sid d) (\<lambda>s'. run_writes wrt s' ws)"

locale mv_exec =
  fixes inv :: "'s \<Rightarrow> bool"
    and abs :: "'s \<Rightarrow> epoch_store"
    and good :: "'s \<Rightarrow> u64 \<Rightarrow> bool"
    and wrt :: "'s \<Rightarrow> u64 \<Rightarrow> u64 \<Rightarrow> 's res"
    and rds :: "'s \<Rightarrow> u64 \<Rightarrow> u64 option res"
    and reader :: "'s \<Rightarrow> u64 \<Rightarrow> bool"
  assumes wrt_ok: "inv s \<Longrightarrow> sid \<in> dom (cur (abs s)) \<Longrightarrow> good s d \<Longrightarrow>
      \<exists>s'. wrt s sid d = Inr s' \<and> inv s' \<and> abs s' = put (abs s) sid d
         \<and> (\<forall>x. good s x \<longrightarrow> good s' x) \<and> (\<forall>r. reader s r \<longrightarrow> reader s' r)"
    and rds_ok: "inv s \<Longrightarrow> reader s r \<Longrightarrow> rds s r = Inr (visible (abs s) r)"
begin

lemma writes_ok:
  "inv s \<Longrightarrow> \<forall>(sid, d) \<in> set ws. sid \<in> dom (cur (abs s)) \<and> good s d \<Longrightarrow>
   \<exists>s'. run_writes wrt s ws = Inr s' \<and> inv s' \<and> abs s' = put_all (abs s) ws \<and> (\<forall>r. reader s r \<longrightarrow> reader s' r)"
proof (induction ws arbitrary: s)
  case (Cons w ws)
  obtain sid d where w: "w = (sid, d)" by (cases w)
  then obtain s1 where s1: "wrt s sid d = Inr s1" "inv s1" "abs s1 = put (abs s) sid d"
    "\<And>x. good s x \<Longrightarrow> good s1 x" "\<And>r. reader s r \<Longrightarrow> reader s1 r"
    using wrt_ok [of s sid d] Cons.prems by auto
  have "\<forall>(sid, d) \<in> set ws. sid \<in> dom (cur (abs s1)) \<and> good s1 d"
    using Cons.prems(2) s1(3,4) by (auto simp: dom_put)
  from Cons.IH [OF s1(2) this] show ?case using s1 w by auto
qed simp

text \<open>The value a reader gets does not depend on the order of the writes.\<close>

lemma writes_order:
  assumes "inv s" "\<forall>(sid, d) \<in> set ws. sid \<in> dom (cur (abs s)) \<and> good s d" "distinct (map fst ws)"
    and "mset ws' = mset ws" "reader s r"
  shows "\<exists>s1 s2. run_writes wrt s ws = Inr s1 \<and> run_writes wrt s ws' = Inr s2 \<and> abs s1 = abs s2 \<and> rds s1 r = rds s2 r
    \<and> rds s1 r = Inr (visible (put_all (abs s) ws) r)"
proof -
  have set_eq: "set ws' = set ws" using mset_eq_setD [OF assms(4)] .
  obtain s1 where s1: "run_writes wrt s ws = Inr s1" "inv s1" "abs s1 = put_all (abs s) ws" "reader s1 r"
    using writes_ok [OF assms(1,2)] assms(5) by blast
  obtain s2 where s2: "run_writes wrt s ws' = Inr s2" "inv s2" "abs s2 = put_all (abs s) ws'" "reader s2 r"
    using writes_ok [OF assms(1), of ws'] assms(2,5) set_eq by blast
  have "put_all (abs s) ws = put_all (abs s) ws'" by (rule put_all_perm) (use assms in auto)
  then show ?thesis using s1 s2 rds_ok by (intro exI [of _ s1] exI [of _ s2]) simp
qed

end

end
