(* ===== verification/Linklist.thy ===== *)
theory Linklist
  imports Felis_Prelude
begin

text \<open>
  The intrusive circular list of \<^verbatim>\<open>src/util/linklist.h\<close>. The nodes live in a
  heap of \<open>prev\<close> and \<open>next\<close> pointers; every operation of
  \<open>util::GenericListNode\<close> is the sequence of assignments of the source. The
  predicate \<open>ring\<close> relates the heap at a list head to the list of the nodes that
  hang off it, and each operation is shown to refine the operation on that list:
  \<open>InsertAfter\<close> inserts, \<open>Remove\<close> deletes one occurrence wherever it is, \<open>empty\<close>
  tests for the empty list, and other rings stay as they are.
\<close>

record list_heap =
  prv :: "u64 \<Rightarrow> u64"
  nxt :: "u64 \<Rightarrow> u64"

definition InsertAfter :: "list_heap \<Rightarrow> u64 \<Rightarrow> u64 \<Rightarrow> list_heap" where
  "InsertAfter h this parent =
     (let h1 = h\<lparr>prv := (prv h)(this := parent)\<rparr>;
          h2 = h1\<lparr>nxt := (nxt h1)(this := nxt h1 parent)\<rparr>;
          h3 = h2\<lparr>prv := (prv h2)(nxt h2 parent := this)\<rparr>
      in h3\<lparr>nxt := (nxt h3)(parent := this)\<rparr>)"

definition Remove :: "list_heap \<Rightarrow> u64 \<Rightarrow> list_heap" where
  "Remove h this =
     (let h1 = h\<lparr>nxt := (nxt h)(prv h this := nxt h this)\<rparr>;
          h2 = h1\<lparr>prv := (prv h1)(nxt h1 this := prv h1 this)\<rparr>
      in h2\<lparr>prv := (prv h2)(this := 0), nxt := (nxt h2)(this := 0)\<rparr>)"

definition is_detached :: "list_heap \<Rightarrow> u64 \<Rightarrow> bool" where
  "is_detached h this \<longleftrightarrow> prv h this = nxt h this \<and> nxt h this = 0"

definition Initialize :: "list_heap \<Rightarrow> u64 \<Rightarrow> list_heap" where
  "Initialize h this = h\<lparr>prv := (prv h)(this := this), nxt := (nxt h)(this := this)\<rparr>"

definition list_empty :: "list_heap \<Rightarrow> u64 \<Rightarrow> bool" where
  "list_empty h this \<longleftrightarrow> nxt h this = this"

lemmas linklist_defs = InsertAfter_def Remove_def is_detached_def Initialize_def list_empty_def Let_def

section \<open>Segments and rings\<close>

text \<open>\<open>dseg h a xs b\<close>: following \<open>next\<close> from \<open>a\<close> visits \<open>xs\<close> and arrives at \<open>b\<close>, and
  every \<open>prev\<close> on the way points back.\<close>

fun dseg :: "list_heap \<Rightarrow> u64 \<Rightarrow> u64 list \<Rightarrow> u64 \<Rightarrow> bool" where
  "dseg h a [] b \<longleftrightarrow> nxt h a = b \<and> prv h b = a"
| "dseg h a (x # xs) b \<longleftrightarrow> nxt h a = x \<and> prv h x = a \<and> dseg h x xs b"

definition ring :: "list_heap \<Rightarrow> u64 \<Rightarrow> u64 list \<Rightarrow> bool" where
  "ring h a xs \<longleftrightarrow> distinct (a # xs) \<and> dseg h a xs a"

lemma dseg_append: "dseg h a (xs @ y # ys) b \<longleftrightarrow> dseg h a xs y \<and> dseg h y ys b"
  by (induction xs arbitrary: a) auto

lemma dseg_frame:
  "dseg h a xs b \<Longrightarrow> (\<And>y. y \<in> insert a (set xs) \<Longrightarrow> nxt h' y = nxt h y) \<Longrightarrow>
   (\<And>y. y \<in> insert b (set xs) \<Longrightarrow> prv h' y = prv h y) \<Longrightarrow> dseg h' a xs b"
  by (induction xs arbitrary: a) auto

lemma dseg_prv: "dseg h a (ys @ x # zs) b \<Longrightarrow> prv h x = last (a # ys)"
  by (induction ys arbitrary: a) auto

lemma dseg_nxt: "dseg h x zs b \<Longrightarrow> nxt h x = hd (zs @ [b])"
  by (cases zs) auto

lemma dseg_insert:
  assumes "dseg h p zs b" "x \<noteq> p" "x \<noteq> b" "x \<notin> set zs" "distinct (p # zs)" "b \<notin> set zs"
  shows "dseg (InsertAfter h x p) p (x # zs) b"
proof (cases zs)
  case Nil
  then show ?thesis using assms by (auto simp: linklist_defs)
next
  case (Cons y ys)
  have "dseg h y ys b" using assms(1) Cons by simp
  then have "dseg (InsertAfter h x p) y ys b"
    by (rule dseg_frame) (use assms Cons in \<open>auto simp: linklist_defs\<close>)
  then show ?thesis using assms Cons by (auto simp: linklist_defs)
qed

lemma InsertAfter_frame:
  "y \<noteq> x \<Longrightarrow> y \<noteq> p \<Longrightarrow> nxt (InsertAfter h x p) y = nxt h y"
  "y \<noteq> x \<Longrightarrow> y \<noteq> nxt h p \<Longrightarrow> x \<noteq> p \<Longrightarrow> prv (InsertAfter h x p) y = prv h y"
  by (auto simp: linklist_defs)

lemma Remove_frame:
  "y \<noteq> x \<Longrightarrow> y \<noteq> prv h x \<Longrightarrow> nxt (Remove h x) y = nxt h y"
  "y \<noteq> x \<Longrightarrow> y \<noteq> nxt h x \<Longrightarrow> prv h x \<noteq> x \<Longrightarrow> prv (Remove h x) y = prv h y"
  by (auto simp: linklist_defs)

lemma ring_Initialize: "ring (Initialize h a) a []"
  by (simp add: ring_def linklist_defs)

lemma ring_empty: "ring h a xs \<Longrightarrow> list_empty h a \<longleftrightarrow> xs = []"
  by (cases xs) (auto simp: ring_def linklist_defs)

lemma ring_InsertAfter:
  assumes "ring h a (ys @ zs)" "x \<notin> set (a # ys @ zs)" "p = last (a # ys)"
  shows "ring (InsertAfter h x p) a (ys @ x # zs)"
proof (cases ys rule: rev_cases)
  case Nil
  then show ?thesis using assms dseg_insert [of h a zs a x] by (auto simp: ring_def)
next
  case (snoc ys' q)
  then have q: "p = q" and ys: "ys = ys' @ [q]" using assms(3) by auto
  have seg: "dseg h a ys' p" "dseg h p zs a" and d: "distinct (a # ys' @ p # zs)"
    using assms(1) by (auto simp: ring_def dseg_append q ys)
  have n: "nxt h p \<in> insert a (set zs)" using dseg_nxt [OF seg(2)] by (cases zs) auto
  have "dseg (InsertAfter h x p) p (x # zs) a"
    by (rule dseg_insert [OF seg(2)]) (use assms d q ys in auto)
  moreover have "dseg (InsertAfter h x p) a ys' p"
    by (rule dseg_frame [OF seg(1)]; rule InsertAfter_frame)
       (use assms d q ys n in auto)
  ultimately show ?thesis using assms(2) d by (auto simp: ring_def dseg_append q ys)
qed

lemma dseg_remove:
  "dseg h a (ys @ x # zs) b \<Longrightarrow> distinct (a # ys @ x # zs) \<Longrightarrow> b \<notin> set (ys @ x # zs) \<Longrightarrow>
   dseg (Remove h x) a (ys @ zs) b"
proof (induction ys arbitrary: a)
  case Nil
  show ?case
  proof (cases zs)
    case Nil': Nil
    then show ?thesis using Nil by (auto simp: linklist_defs)
  next
    case (Cons z zs')
    have "dseg h z zs' b" using Nil Cons by simp
    then have "dseg (Remove h x) z zs' b"
      by (rule dseg_frame) (use Nil Cons in \<open>auto simp: linklist_defs\<close>)
    then show ?thesis using Nil Cons by (auto simp: linklist_defs)
  qed
next
  case (Cons y ys)
  have seg: "dseg h y (ys @ x # zs) b" using Cons.prems(1) by simp
  have p: "prv h x \<in> set (y # ys)" using dseg_prv [OF seg] last_in_set [of "y # ys"] by auto
  have n: "nxt h x \<in> insert b (set zs)"
    using seg dseg_nxt [of h x zs b] by (cases zs) (auto simp: dseg_append)
  have "dseg (Remove h x) y (ys @ zs) b"
    by (rule Cons.IH [OF seg]) (use Cons.prems in auto)
  moreover have "nxt (Remove h x) a = nxt h a"
    by (rule Remove_frame) (use Cons.prems p in auto)
  moreover have "prv (Remove h x) y = prv h y"
    by (rule Remove_frame) (use Cons.prems p n in auto)
  ultimately show ?case using Cons.prems(1) by simp
qed

lemma ring_Remove:
  "ring h a (ys @ x # zs) \<Longrightarrow> ring (Remove h x) a (ys @ zs)"
  using dseg_remove [of h a ys x zs a] by (auto simp: ring_def)

lemma Remove_detached: "is_detached (Remove h x) x"
  by (simp add: linklist_defs)

lemma ring_frame:
  assumes "ring h a xs" "\<And>y. y \<in> set (a # xs) \<Longrightarrow> nxt h' y = nxt h y \<and> prv h' y = prv h y"
  shows "ring h' a xs"
  using assms dseg_frame [of h a xs a h'] by (auto simp: ring_def)

lemma ring_prv_nxt_in:
  assumes "ring h a xs" "x \<in> set (a # xs)"
  shows "nxt h x \<in> set (a # xs)" "prv h x \<in> set (a # xs)"
proof -
  have "nxt h x \<in> set (a # xs) \<and> prv h x \<in> set (a # xs)"
  proof (cases "x = a")
    case True
    have "prv h a = last (a # xs)" "nxt h a = hd (xs @ [a])"
      using assms(1) dseg_prv [of h a xs a "[]" "nxt h a"] dseg_nxt [of h a xs a]
      by (auto simp: ring_def dseg_append) (induction xs rule: rev_induct; auto simp: dseg_append)
    then show ?thesis using True last_in_set [of "a # xs"] by (cases xs) auto
  next
    case False
    then obtain ys zs where xs: "xs = ys @ x # zs" using assms(2) split_list by fastforce
    have "prv h x = last (a # ys)" "nxt h x = hd (zs @ [a])"
      using assms(1) dseg_prv [of h a ys x zs a] dseg_nxt [of h x zs a]
      by (auto simp: ring_def dseg_append xs)
    then show ?thesis using xs last_in_set [of "a # ys"] by (cases zs) auto
  qed
  then show "nxt h x \<in> set (a # xs)" "prv h x \<in> set (a # xs)" by auto
qed

text \<open>Operations on one ring leave a disjoint ring alone.\<close>

lemma ring_InsertAfter_other:
  assumes "ring h b ws" "ring h a xs" "p \<in> set (a # xs)" "x \<notin> set (b # ws)" "x \<noteq> p"
    and "set (a # xs) \<inter> set (b # ws) = {}"
  shows "ring (InsertAfter h x p) b ws"
proof (rule ring_frame [OF assms(1)])
  fix y assume y: "y \<in> set (b # ws)"
  have "nxt h p \<in> set (a # xs)" using ring_prv_nxt_in assms by blast
  then have "y \<noteq> x" "y \<noteq> p" "y \<noteq> nxt h p" using assms y by blast+
  then show "nxt (InsertAfter h x p) y = nxt h y \<and> prv (InsertAfter h x p) y = prv h y"
    using assms(5) by (simp add: InsertAfter_frame)
qed

lemma ring_Remove_other:
  assumes "ring h b ws" "ring h a xs" "x \<in> set xs" "set (a # xs) \<inter> set (b # ws) = {}"
  shows "ring (Remove h x) b ws"
proof (rule ring_frame [OF assms(1)])
  fix y assume y: "y \<in> set (b # ws)"
  have "nxt h x \<in> set (a # xs)" "prv h x \<in> set (a # xs)"
    using ring_prv_nxt_in [OF assms(2)] assms(3) by auto
  moreover have "prv h x \<noteq> x"
  proof -
    obtain ys zs where "xs = ys @ x # zs" using assms(3) split_list by fastforce
    then show ?thesis
      using assms(2) dseg_prv [of h a ys x zs a] last_in_set [of "a # ys"] by (auto simp: ring_def)
  qed
  ultimately show "nxt (Remove h x) y = nxt h y \<and> prv (Remove h x) y = prv h y"
    using assms(3,4) y by (intro conjI Remove_frame) auto
qed

text \<open>The singly linked chain that remains when only \<open>next\<close> is followed up to a null pointer.\<close>

fun chain :: "list_heap \<Rightarrow> u64 \<Rightarrow> u64 list \<Rightarrow> bool" where
  "chain h a [] \<longleftrightarrow> a = 0"
| "chain h a (x # xs) \<longleftrightarrow> a = x \<and> x \<noteq> 0 \<and> chain h (nxt h x) xs"

end
