(* ===== verification/Garbage_Collector.thy ===== *)
theory Garbage_Collector
  imports Vhandle_State Linklist
begin

text \<open>
  The version garbage collector, \<^verbatim>\<open>src/gc.cc\<close>: the per-core slabs of garbage
  blocks in which rows with garbage are registered (\<open>GarbageBlockSlab::Add\<close>,
  \<open>Remove\<close>, \<open>GC::AddRow\<close>, \<open>RemoveRow\<close>), the collection of one row (\<open>Collect_row\<close>) and the
  two passes of an epoch boundary (\<open>PrepareGCForAllCores\<close>, \<open>RunGC\<close>).

  A queue of blocks is the list of its block addresses, from the head on; theory
  \<open>Linklist\<close> shows that the intrusive rings of the source behave like that. Blocks
  and rows live in stores indexed by address.
\<close>

record garbage_block =
  rows :: "u64 list"
  alloc_core :: nat
  q_idx :: nat
  bitmap :: u64

record garbage_slab =
  core_id :: nat
  free_q :: "u64 list"
  half_q :: "u64 list list"
  full_q :: "u64 list list"

record gc_stat =
  nr_rows :: nat
  nr_blocks :: nat
  nr_bytes :: nat
  straggler :: bool

record gc =
  g_slabs :: "garbage_slab list"
  gblks :: "u64 \<Rightarrow> garbage_block"
  collect_head :: "u64 list"
  gstats :: "gc_stat list"
  deleted :: "u64 list"
  region_frees :: "(nat \<times> nat) list"

text \<open>
  What an operation reads from its surroundings: the core it runs on
  (\<open>go::Scheduler::CurrentThreadPoolId() - 1\<close>), the allocation affinity, the options of
  the collector, the length of the string object at an address, and what a call of
  \<open>mem::GetDataRegion().Alloc\<close> for a number of words returns (the words of the new
  memory, or nothing).
\<close>

record env =
  env_core :: nat
  env_affinity :: nat
  g_gc_every_epoch :: nat
  g_lazy :: bool
  varstr_len :: "u64 \<Rightarrow> nat"
  alloc_words :: "nat \<Rightarrow> u64 list option"

definition kBlockSize :: nat where "kBlockSize = 512"
definition kMaxNrRows :: nat where "kMaxNrRows = kBlockSize div 8 - 4"
definition kNrQueue :: nat where "kNrQueue = 200"

section \<open>The slab of a core\<close>

text \<open>A new slab: all preallocated blocks are free, in address order.\<close>

definition GarbageBlockSlab :: "nat \<Rightarrow> u64 list \<Rightarrow> garbage_slab" where
  "GarbageBlockSlab core blks =
     \<lparr> core_id = core, free_q = blks, half_q = replicate kNrQueue [], full_q = replicate kNrQueue [] \<rparr>"

text \<open>Take a block out of whichever ring it is linked into.\<close>

definition unlink :: "u64 \<Rightarrow> garbage_slab \<Rightarrow> garbage_slab" where
  "unlink b sl = sl\<lparr> free_q := removeAll b (free_q sl),
                     half_q := map (removeAll b) (half_q sl),
                     full_q := map (removeAll b) (full_q sl) \<rparr>"

definition push_half :: "nat \<Rightarrow> u64 \<Rightarrow> garbage_slab \<Rightarrow> garbage_slab" where
  "push_half q b sl = sl\<lparr>half_q := (half_q sl)[q := b # half_q sl ! q]\<rparr>"

definition push_full :: "nat \<Rightarrow> u64 \<Rightarrow> garbage_slab \<Rightarrow> garbage_slab" where
  "push_full q b sl = sl\<lparr>full_q := (full_q sl)[q := b # full_q sl ! q]\<rparr>"

definition push_free :: "u64 \<Rightarrow> garbage_slab \<Rightarrow> garbage_slab" where
  "push_free b sl = sl\<lparr>free_q := b # free_q sl\<rparr>"

definition set_slab :: "nat \<Rightarrow> garbage_slab \<Rightarrow> gc \<Rightarrow> gc" where
  "set_slab c sl g = g\<lparr>g_slabs := (g_slabs g)[c := sl]\<rparr>"

definition set_blk :: "u64 \<Rightarrow> garbage_block \<Rightarrow> gc \<Rightarrow> gc" where
  "set_blk b k g = g\<lparr>gblks := (gblks g)(b := k)\<rparr>"

text \<open>The address of \<open>blk->rows[idx]\<close>: the list links take the first 16 bytes of a block.\<close>

definition row_slot :: "u64 \<Rightarrow> nat \<Rightarrow> u64" where
  "row_slot b idx = b + 16 + 8 * of_nat idx"

definition slab_Add :: "gc \<Rightarrow> nat \<Rightarrow> u64 \<Rightarrow> nat \<Rightarrow> (gc \<times> u64) res" where
  "slab_Add g c row q =
     res_bind (rd (g_slabs g) c) (\<lambda>sl.
     res_bind (rd (half_q sl) q) (\<lambda>half_queue.
     res_bind
       (if half_queue \<noteq> [] then
          let b = hd half_queue; blk = gblks g b; idx = int (ffs (NOT (bitmap blk))) - 1 in
          if idx < 0 \<or> idx \<ge> int kBlockSize then Inl (Abort ''inconsistent garbage block slab!'')
          else
            let blk' = blk\<lparr>bitmap := bitmap blk OR push_bit (nat idx) 1\<rparr>;
                sl' = (if popcount (bitmap blk') = kMaxNrRows - 1
                       then push_full q b (unlink b sl) else sl)
            in Inr (b, blk', nat idx, sl')
        else if free_q sl = [] then Inl (Abort ''no more blocks!'')
        else
          let b = hd (free_q sl); sl' = push_half q b (unlink b sl);
              blk' = (gblks g b)\<lparr>alloc_core := core_id sl, q_idx := q, bitmap := 1\<rparr>
          in Inr (b, blk', 0, sl'))
       (\<lambda>(b, blk, idx, sl').
     res_bind (wr (rows blk) idx row) (\<lambda>rows'.
     Inr (set_slab c sl' (set_blk b (blk\<lparr>rows := rows'\<rparr>) g), row_slot b idx)))))"

definition slab_Remove :: "gc \<Rightarrow> nat \<Rightarrow> u64 \<Rightarrow> nat \<Rightarrow> gc res" where
  "slab_Remove g c b idx =
     res_bind (rd (g_slabs g) c) (\<lambda>sl.
     let blk = gblks g b;
         sl' = (if popcount (bitmap blk) = kMaxNrRows then push_half (q_idx blk) b (unlink b sl)
                else if popcount (bitmap blk) = 1 then push_free b (unlink b sl)
                else sl)
     in res_bind (wr (rows blk) idx 0) (\<lambda>rows'.
        Inr (set_slab c sl'
              (set_blk b (blk\<lparr>rows := rows', bitmap := bitmap blk AND NOT (push_bit idx 1)\<rparr>) g))))"

definition AddRow :: "env \<Rightarrow> gc \<Rightarrow> u64 \<Rightarrow> nat \<Rightarrow> (gc \<times> u64) res" where
  "AddRow env g row epoch_nr =
     (if epoch_nr = 0 then Inl (Abort ''Should not even detect garbage during loader'')
      else slab_Add g (env_core env) row (epoch_nr mod g_gc_every_epoch env))"

text \<open>The block and slot that a registration handle denotes.\<close>

definition slot_block :: "u64 \<Rightarrow> u64" where
  "slot_block gc_hdl = of_nat kBlockSize * of_nat (unat gc_hdl div kBlockSize)"

definition slot_index :: "u64 \<Rightarrow> nat" where
  "slot_index gc_hdl = unat (gc_hdl - slot_block gc_hdl - 16) div 8"

definition RemoveRow :: "gc \<Rightarrow> u64 \<Rightarrow> gc res" where
  "RemoveRow g gc_hdl =
     (let b = slot_block gc_hdl in slab_Remove g (alloc_core (gblks g b)) b (slot_index gc_hdl))"

definition InitPool :: "env \<Rightarrow> (nat \<Rightarrow> u64 list) \<Rightarrow> nat \<Rightarrow> garbage_slab list res" where
  "InitPool env blks nr_threads =
     (if g_gc_every_epoch env \<ge> kNrQueue then Inl (Abort ''g_gc_every_epoch'')
      else Inr (map (\<lambda>i. GarbageBlockSlab i (blks i)) [0..<nr_threads]))"

section \<open>Collecting one row\<close>

definition IsDataGarbage :: "vhandle \<Rightarrow> u64 \<Rightarrow> bool res" where
  "IsDataGarbage row data =
     (if data = 0 then Inr False
      else if data > vaddr row \<and> data < vaddr row + 256
      then (if \<not> is_inlined row then Inl (Abort ''??? row'') else Inr False)
      else Inr True)"

definition upd_stat :: "nat \<Rightarrow> (gc_stat \<Rightarrow> gc_stat) \<Rightarrow> gc \<Rightarrow> gc" where
  "upd_stat c f g = g\<lparr>gstats := (gstats g)[c := f (gstats g ! c)]\<rparr>"

definition FreeIfGarbage :: "env \<Rightarrow> gc \<Rightarrow> vhandle \<Rightarrow> u64 \<Rightarrow> gc res" where
  "FreeIfGarbage env g row p =
     res_bind (IsDataGarbage row p) (\<lambda>garbage.
     Inr (if garbage
          then (upd_stat (env_core env)
                  (\<lambda>s. s\<lparr>nr_bytes := (nr_bytes s + varstr_len env p) mod 2 ^ 64\<rparr>) g)
                 \<lparr>deleted := p # deleted g\<rparr>
          else g))"

text \<open>The loop that frees \<open>objects[0]\<close> to \<open>objects[i - 1]\<close>.\<close>

fun free_objects :: "env \<Rightarrow> vhandle \<Rightarrow> u64 list \<Rightarrow> gc \<Rightarrow> gc res" where
  "free_objects env row [] g = Inr g"
| "free_objects env row (p # ps) g =
     res_bind (FreeIfGarbage env g row p) (free_objects env row ps)"

text \<open>The loop that counts the versions to drop; \<open>n\<close> is \<open>handle->size - 1\<close>.\<close>

function collect_count :: "u64 list \<Rightarrow> nat \<Rightarrow> nat \<Rightarrow> nat \<Rightarrow> nat \<Rightarrow> nat res" where
  "collect_count vs n limit e i =
     (if i < n \<and> i < limit
      then res_bind (rd vs (i + 1)) (\<lambda>v.
             if epoch_of v < e then collect_count vs n limit e (i + 1) else Inr i)
      else Inr i)"
  by pat_completeness auto
termination
  by (relation "measure (\<lambda>(vs, n, limit, e, i). n - i)") auto

declare collect_count.simps [simp del]

definition Collect_row :: "env \<Rightarrow> gc \<Rightarrow> vhandle \<Rightarrow> nat \<Rightarrow> nat \<Rightarrow> (gc \<times> vhandle \<times> nat) res" where
  "Collect_row env g h e limit =
     res_bind (collect_count (versions h) (u32_of (int (vsize h) - 1)) limit e 0) (\<lambda>i.
     if i = 0 then Inr (g, h, 0)
     else
       let cap = capacity h in
       res_bind (free_objects env h (slice (versions h) cap (cap + i)) g) (\<lambda>g'.
       let vs1 = memmove (versions h) cap (cap + i) (vsize h - i);
           vs2 = memmove vs1 0 i (vsize h - i)
       in Inr (g', h\<lparr>versions := vs2,
                     vsize := u32_of (int (vsize h) - int i),
                     cur_start := u32_of (int (cur_start h) - int i),
                     latest_version := latest_version h - int i\<rparr>, i)))"

section \<open>The epoch boundary\<close>

text \<open>
  \<open>PrepareGCForAllCores\<close> moves the queues of the epoch to collect in front of the
  collection chain, core by core. A core without registered rows ends the loop.
\<close>

fun prepare_cores :: "nat \<Rightarrow> nat list \<Rightarrow> gc \<Rightarrow> gc res" where
  "prepare_cores q [] g = Inr g"
| "prepare_cores q (c # cs) g =
     res_bind (rd (g_slabs g) c) (\<lambda>sl.
     res_bind (rd (full_q sl) q) (\<lambda>full_queue.
     res_bind (rd (half_q sl) q) (\<lambda>half_queue.
     if full_queue = [] \<and> half_queue = [] then Inr g
     else prepare_cores q cs
       ((set_slab c (sl\<lparr>full_q := (full_q sl)[q := []], half_q := (half_q sl)[q := []]\<rparr>) g)
         \<lparr>collect_head := full_queue @ half_queue @ collect_head g\<rparr>))))"

definition PrepareGCForAllCores :: "env \<Rightarrow> nat \<Rightarrow> nat \<Rightarrow> gc \<Rightarrow> gc res" where
  "PrepareGCForAllCores env nr_threads cur_epoch_nr g =
     (if g_lazy env then Inr g
      else prepare_cores ((cur_epoch_nr + 1) mod g_gc_every_epoch env) [0..<nr_threads] g)"

type_synonym row_store = "u64 \<Rightarrow> vhandle"

definition Process :: "env \<Rightarrow> gc \<Rightarrow> row_store \<Rightarrow> u64 \<Rightarrow> nat \<Rightarrow> nat \<Rightarrow> (gc \<times> row_store \<times> nat) res" where
  "Process env g st row cur_epoch_nr limit =
     res_bind (Collect_row env g (st row) cur_epoch_nr limit) (\<lambda>(g', h', n). Inr (g', st(row := h'), n))"

text \<open>
  The loop over the rows of one block. The last component of the result is true when
  the block went back into a queue because a row has too much garbage and no other
  block is left (the early return of the source). \<open>None\<close> stands for exhausted fuel.
\<close>

fun gc_block :: "env \<Rightarrow> nat \<Rightarrow> nat \<Rightarrow> u64 \<Rightarrow> nat \<Rightarrow> gc \<Rightarrow> row_store \<Rightarrow> (gc \<times> row_store \<times> bool) res option" where
  "gc_block env e q b 0 g st = None"
| "gc_block env e q b (Suc fuel) g st =
     (let blk = gblks g b in
      if bitmap blk = 0 then Some (Inr (g, st, False))
      else
        let i = ffs (bitmap blk) - 1 in
        case res_bind (rd (rows blk) i) (\<lambda>row. res_bind (Process env g st row e 16384) (\<lambda>r. Inr (row, r))) of
          Inl err \<Rightarrow> Some (Inl err)
        | Inr (row, g1, st1, n) \<Rightarrow>
            if n < 16384 then
              gc_block env e q b fuel
                (upd_stat (env_core env) (\<lambda>s. s\<lparr>nr_rows := nr_rows s + 1\<rparr>)
                  (set_blk b ((gblks g1 b)\<lparr>bitmap := bitmap (gblks g1 b) AND NOT (push_bit i 1)\<rparr>) g1))
                (st1(row := (st1 row)\<lparr>gc_handle := 0\<rparr>))
            else if collect_head g1 = [] then
              Some (res_bind (rd (g_slabs g1) (alloc_core blk)) (\<lambda>slab.
                let slab' = (if popcount (bitmap (gblks g1 b)) = kMaxNrRows
                             then push_full q b slab else push_half q b slab)
                in Inr (upd_stat (env_core env) (\<lambda>s. s\<lparr>nr_rows := nr_rows s + 1, straggler := True\<rparr>)
                          (set_slab (alloc_core blk) slab' g1), st1, True)))
            else gc_block env e q b fuel g1 st1)"

text \<open>The loop over the collection chain, as one core runs it.\<close>

fun run_blocks :: "env \<Rightarrow> nat \<Rightarrow> nat \<Rightarrow> nat \<Rightarrow> nat \<Rightarrow> gc \<Rightarrow> row_store \<Rightarrow> (gc \<times> row_store) res option" where
  "run_blocks env e q fuel 0 g st = None"
| "run_blocks env e q fuel (Suc n) g st =
     (case collect_head g of
        [] \<Rightarrow> Some (Inr (g, st))
      | b # rest \<Rightarrow>
          (case gc_block env e q b fuel (g\<lparr>collect_head := rest\<rparr>) st of
             None \<Rightarrow> None
           | Some (Inl err) \<Rightarrow> Some (Inl err)
           | Some (Inr (g1, st1, True)) \<Rightarrow> Some (Inr (g1, st1))
           | Some (Inr (g1, st1, False)) \<Rightarrow>
               (case rd (g_slabs g1) (alloc_core (gblks g1 b)) of
                  Inl err \<Rightarrow> Some (Inl err)
                | Inr sl \<Rightarrow>
                    run_blocks env e q fuel n
                      (upd_stat (env_core env) (\<lambda>s. s\<lparr>nr_blocks := nr_blocks s + 1\<rparr>)
                        (set_slab (alloc_core (gblks g1 b)) (push_free b sl) g1)) st1)))"

definition RunGC :: "env \<Rightarrow> nat \<Rightarrow> nat \<Rightarrow> gc \<Rightarrow> row_store \<Rightarrow> (gc \<times> row_store) res option" where
  "RunGC env fuel cur_epoch_nr g st =
     (if g_lazy env then Some (Inr (g, st))
      else run_blocks env cur_epoch_nr ((cur_epoch_nr + 1) mod g_gc_every_epoch env)
             fuel (Suc (length (collect_head g))) g st)"

definition ClearStats :: "nat \<Rightarrow> gc \<Rightarrow> gc" where
  "ClearStats nr_threads g =
     g\<lparr>gstats := replicate nr_threads \<lparr>nr_rows = 0, nr_blocks = 0, nr_bytes = 0, straggler = False\<rparr>
                  @ drop nr_threads (gstats g)\<rparr>"

section \<open>What collecting a row does\<close>

lemma collect_count_spec:
  assumes "n < length vs" "i \<le> n" "i \<le> limit"
  shows "\<exists>k. collect_count vs n limit e i = Inr k \<and> i \<le> k \<and> k \<le> n \<and> k \<le> limit
    \<and> (\<forall>j. i < j \<and> j \<le> k \<longrightarrow> epoch_of (vs ! j) < e)
    \<and> (k = n \<or> k = limit \<or> e \<le> epoch_of (vs ! (k + 1)))"
  using assms
proof (induction vs n limit e i rule: collect_count.induct)
  case (1 vs n limit e i)
  show ?case
  proof (cases "i < n \<and> i < limit")
    case False
    then have "collect_count vs n limit e i = Inr i" by (subst collect_count.simps) auto
    then show ?thesis using False "1.prems" by (intro exI [of _ i]) auto
  next
    case True
    then have r: "rd vs (i + 1) = Inr (vs ! (i + 1))" using "1.prems" by simp
    show ?thesis
    proof (cases "epoch_of (vs ! (i + 1)) < e")
      case False
      then have "collect_count vs n limit e i = Inr i" using True r by (simp add: collect_count.simps)
      then show ?thesis using False True by (intro exI [of _ i]) auto
    next
      case lt: True
      have eq: "collect_count vs n limit e i = collect_count vs n limit e (i + 1)"
        using True r lt by (subst collect_count.simps) simp
      from "1.IH" [OF True lt] "1.prems" True obtain k where
        k: "collect_count vs n limit e (i + 1) = Inr k" "i + 1 \<le> k" "k \<le> n" "k \<le> limit"
          "\<And>j. i + 1 < j \<Longrightarrow> j \<le> k \<Longrightarrow> epoch_of (vs ! j) < e"
          "k = n \<or> k = limit \<or> e \<le> epoch_of (vs ! (k + 1))" by auto
      have "epoch_of (vs ! j) < e" if "i < j" "j \<le> k" for j
        using that lt k(5) [of j] by (cases "j = i + 1") auto
      then show ?thesis using eq k by (intro exI [of _ k]) auto
    qed
  qed
qed

text \<open>Freeing objects touches the statistics and the record of deleted objects only.\<close>

definition gc_frame :: "gc \<Rightarrow> gc \<Rightarrow> bool" where
  "gc_frame g g' \<longleftrightarrow> g_slabs g' = g_slabs g \<and> gblks g' = gblks g \<and> collect_head g' = collect_head g
     \<and> region_frees g' = region_frees g \<and> length (gstats g') = length (gstats g)"

lemma gc_frame_refl [simp]: "gc_frame g g"
  by (simp add: gc_frame_def)

lemma gc_frame_trans: "gc_frame a b \<Longrightarrow> gc_frame b c \<Longrightarrow> gc_frame a c"
  by (simp add: gc_frame_def)

text \<open>An object pointer that is the row's own inline memory although the row has none.\<close>

definition stray_ptr :: "vhandle \<Rightarrow> u64 \<Rightarrow> bool" where
  "stray_ptr h p \<longleftrightarrow> \<not> is_inlined h \<and> p \<noteq> 0 \<and> vaddr h < p \<and> p < vaddr h + 256"

definition is_garbage :: "vhandle \<Rightarrow> u64 \<Rightarrow> bool" where
  "is_garbage h p \<longleftrightarrow> p \<noteq> 0 \<and> \<not> (vaddr h < p \<and> p < vaddr h + 256)"

lemma IsDataGarbage_eq:
  "IsDataGarbage h p = (if stray_ptr h p then Inl (Abort ''??? row'') else Inr (is_garbage h p))"
  by (auto simp: IsDataGarbage_def stray_ptr_def is_garbage_def)

lemma free_objects_spec:
  "free_objects env h ps g = Inr g' \<Longrightarrow>
   gc_frame g g' \<and> deleted g' = rev (filter (is_garbage h) ps) @ deleted g"
proof (induction ps arbitrary: g)
  case (Cons p ps)
  from Cons.prems obtain g1 where g1: "FreeIfGarbage env g h p = Inr g1" "free_objects env h ps g1 = Inr g'"
    by (auto simp: res_bind_Inr_iff)
  have "gc_frame g g1 \<and> deleted g1 = (if is_garbage h p then [p] else []) @ deleted g"
    using g1(1) by (auto simp: FreeIfGarbage_def IsDataGarbage_eq gc_frame_def upd_stat_def split: if_splits)
  with Cons.IH [OF g1(2)] show ?case by (auto intro: gc_frame_trans)
qed simp

lemma free_objects_total:
  "\<forall>p\<in>set ps. \<not> stray_ptr h p \<Longrightarrow> \<exists>g'. free_objects env h ps g = Inr g'"
  by (induction ps arbitrary: g) (auto simp: FreeIfGarbage_def IsDataGarbage_eq)

text \<open>The rows before and after dropping the first \<open>k\<close> versions.\<close>

definition dropped :: "nat \<Rightarrow> vhandle \<Rightarrow> vhandle \<Rightarrow> bool" where
  "dropped k h h' \<longleftrightarrow> vh_shape h' \<and> k \<le> vsize h \<and> vsize h' = vsize h - k
     \<and> ver h' = drop k (ver h) \<and> obj h' = drop k (obj h)
     \<and> latest_version h' = latest_version h - int k
     \<and> cur_start h' = u32_of (int (cur_start h) - int k)
     \<and> capacity h' = capacity h \<and> vaddr h' = vaddr h \<and> inline_used h' = inline_used h
     \<and> gc_handle h' = gc_handle h \<and> buf_pos h' = buf_pos h \<and> nr_ondsplt h' = nr_ondsplt h
     \<and> alloc_by_regionid h' = alloc_by_regionid h \<and> this_coreid h' = this_coreid h
     \<and> cont_affinity h' = cont_affinity h \<and> versions_inline h' = versions_inline h"

lemma memmove_halves:
  assumes "length vs = 2 * cap" "i \<le> n" "n \<le> cap"
  defines "vs' \<equiv> memmove (memmove vs cap (cap + i) (n - i)) 0 i (n - i)"
  shows "length vs' = 2 * cap" "take (n - i) vs' = drop i (take n vs)"
    "take (n - i) (drop cap vs') = drop i (take n (drop cap vs))"
proof -
  define v1 where "v1 = memmove vs cap (cap + i) (n - i)"
  have l1: "length v1 = 2 * cap" using assms by (simp add: v1_def)
  have vs': "vs' = memmove v1 0 i (n - i)" by (simp add: vs'_def v1_def)
  show l: "length vs' = 2 * cap" using l1 assms by (simp add: vs')
  show "take (n - i) vs' = drop i (take n vs)"
    by (rule nth_equalityI) (use assms l l1 in \<open>auto simp: vs' v1_def nth_memmove\<close>)
  show "take (n - i) (drop cap vs') = drop i (take n (drop cap vs))"
    by (rule nth_equalityI) (use assms l l1 in \<open>auto simp: vs' v1_def nth_memmove add.assoc add.commute add.left_commute\<close>)
qed

definition drop_row :: "nat \<Rightarrow> vhandle \<Rightarrow> vhandle" where
  "drop_row k h = h\<lparr>
     versions := memmove (memmove (versions h) (capacity h) (capacity h + k) (vsize h - k)) 0 k (vsize h - k),
     vsize := u32_of (int (vsize h) - int k),
     cur_start := u32_of (int (cur_start h) - int k),
     latest_version := latest_version h - int k\<rparr>"

lemma dropped_drop_row:
  assumes "vh_shape h" "k \<le> vsize h"
  shows "dropped k h (drop_row k h)"
proof -
  have sz: "u32_of (int (vsize h) - int k) = vsize h - k"
    using assms by (simp add: vh_shape_def nat_diff_distrib)
  note m = memmove_halves [of "versions h" "capacity h" k "vsize h"]
  have "vh_shape (drop_row k h)" "ver (drop_row k h) = drop k (ver h)" "obj (drop_row k h) = drop k (obj h)"
    using assms m by (auto simp: vh_shape_def drop_row_def ver_def obj_def sz)
  then show ?thesis using assms sz by (simp add: dropped_def drop_row_def)
qed

lemma dropped_0: "vh_shape h \<Longrightarrow> dropped 0 h h"
  by (simp add: dropped_def vh_shape_def)

lemma Collect_row_cases:
  assumes "vh_shape h" "0 < vsize h"
  obtains k where "k < vsize h" "k \<le> limit" "\<And>j. j < k \<Longrightarrow> epoch_of (ver h ! (j + 1)) < e"
    "k = vsize h - 1 \<or> k = limit \<or> e \<le> epoch_of (ver h ! (k + 1))"
    "Collect_row env g h e limit =
       (if k = 0 then Inr (g, h, 0)
        else res_bind (free_objects env h (take k (obj h)) g) (\<lambda>g'. Inr (g', drop_row k h, k)))"
proof -
  have n: "u32_of (int (vsize h) - 1) = vsize h - 1"
    using assms by (simp add: vh_shape_def u32_of_def nat_diff_distrib)
  have "vsize h - 1 < length (versions h)" using assms by (auto simp: vh_shape_def)
  from collect_count_spec [OF this, of 0 limit e] obtain k where
    k: "collect_count (versions h) (vsize h - 1) limit e 0 = Inr k" "k \<le> vsize h - 1" "k \<le> limit"
      "\<forall>j. 0 < j \<and> j \<le> k \<longrightarrow> epoch_of (versions h ! j) < e"
      "k = vsize h - 1 \<or> k = limit \<or> e \<le> epoch_of (versions h ! (k + 1))" by blast
  have sl: "slice (versions h) (capacity h) (capacity h + k) = take k (obj h)"
    using k(2) by (simp add: slice_def obj_def min_def)
  show ?thesis
  proof (rule that [of k])
    show "Collect_row env g h e limit =
       (if k = 0 then Inr (g, h, 0)
        else res_bind (free_objects env h (take k (obj h)) g) (\<lambda>g'. Inr (g', drop_row k h, k)))"
      by (simp add: Collect_row_def n k(1) [simplified] sl Let_def drop_row_def)
    show "k = vsize h - 1 \<or> k = limit \<or> e \<le> epoch_of (ver h ! (k + 1))"
      using k(2,5) assms(2) by (cases "k = vsize h - 1") auto
  qed (use k assms(2) in auto)
qed

lemma Collect_row_spec:
  assumes "vh_shape h" "0 < vsize h" "Collect_row env g h e limit = Inr (g', h', k)"
  shows "dropped k h h' \<and> k < vsize h \<and> k \<le> limit \<and> gc_frame g g'
    \<and> (\<forall>j<k. epoch_of (ver h ! (j + 1)) < e)
    \<and> (k = vsize h - 1 \<or> k = limit \<or> e \<le> epoch_of (ver h ! (k + 1)))
    \<and> deleted g' = rev (filter (is_garbage h) (take k (obj h))) @ deleted g"
proof (rule Collect_row_cases [OF assms(1,2), of limit e env g])
  fix c
  assume c: "c < vsize h" "c \<le> limit" "\<And>j. j < c \<Longrightarrow> epoch_of (ver h ! (j + 1)) < e"
    "c = vsize h - 1 \<or> c = limit \<or> e \<le> epoch_of (ver h ! (c + 1))"
    "Collect_row env g h e limit =
       (if c = 0 then Inr (g, h, 0)
        else res_bind (free_objects env h (take c (obj h)) g) (\<lambda>g'. Inr (g', drop_row c h, c)))"
  show ?thesis
  proof (cases "c = 0")
    case True
    then show ?thesis using c assms dropped_0 by simp
  next
    case False
    then have "free_objects env h (take c (obj h)) g = Inr g'" "h' = drop_row c h" "k = c"
      using c(5) assms(3) by (auto simp: res_bind_Inr_iff dest: sym)
    then show ?thesis using c dropped_drop_row assms(1) free_objects_spec by simp
  qed
qed

lemma Collect_row_total:
  assumes "vh_shape h" "0 < vsize h" "\<forall>p\<in>set (obj h). \<not> stray_ptr h p"
  shows "\<exists>g' h' k. Collect_row env g h e limit = Inr (g', h', k)"
proof (rule Collect_row_cases [OF assms(1,2), of limit e env g])
  fix c
  assume c: "Collect_row env g h e limit =
       (if c = 0 then Inr (g, h, 0)
        else res_bind (free_objects env h (take c (obj h)) g) (\<lambda>g'. Inr (g', drop_row c h, c)))"
  have "\<exists>g'. free_objects env h (take c (obj h)) g = Inr g'"
    using assms(3) by (intro free_objects_total) (auto dest: in_set_takeD)
  then show ?thesis using c by auto
qed

end
