(* ===== verification/Garbage_Slab.thy ===== *)
theory Garbage_Slab
  imports Garbage_Collector
begin

text \<open>
  The registry contract of the garbage block slabs of \<^verbatim>\<open>src/gc.cc\<close>. A slab
  implements a set of registrations (handle, row): \<open>Add\<close> inserts a registration under
  a handle that is not in use, \<open>Remove\<close> deletes the registration of a handle, and both
  keep the slab invariant, under which neither of them aborts or leaves the row array
  of a block. The invariant bounds the blocks of a half queue by 58 rows; a block that
  \<open>RunGC\<close> puts back with 59 rows breaks it, and the last section shows what follows.
\<close>

section \<open>Handles\<close>

definition block_aligned :: "u64 \<Rightarrow> bool" where
  "block_aligned b \<longleftrightarrow> 512 dvd unat b"

lemma unat_row_slot:
  assumes "block_aligned b" "i < 60"
  shows "unat (row_slot b i) = unat b + 16 + 8 * i"
proof -
  obtain m where m: "unat b = 512 * m" using assms(1) by (auto simp: block_aligned_def)
  have "512 * m < 2 ^ 64" using m unsigned_less [where ?'a = nat, of b] by simp
  then have lt: "unat b + 16 + 8 * i < 2 ^ 64" using m assms(2) by simp
  have "row_slot b i = of_nat (unat b + 16 + 8 * i)" by (simp add: row_slot_def)
  then show ?thesis using lt by (simp only: unat_of_nat) simp
qed

lemma slot_block_row_slot:
  assumes "block_aligned b" "i < 60"
  shows "slot_block (row_slot b i) = b"
proof -
  obtain m where m: "unat b = 512 * m" using assms(1) by (auto simp: block_aligned_def)
  have "unat (row_slot b i) div 512 = m" using unat_row_slot [OF assms] m assms(2) by simp
  then have "slot_block (row_slot b i) = of_nat (unat b)"
    using m by (simp add: slot_block_def kBlockSize_def)
  then show ?thesis by simp
qed

lemma slot_index_row_slot:
  assumes "block_aligned b" "i < 60"
  shows "slot_index (row_slot b i) = i"
proof -
  have "row_slot b i - b - 16 = of_nat (8 * i)" by (simp add: row_slot_def)
  moreover have "unat (of_nat (8 * i) :: u64) = 8 * i"
    using assms(2) by (simp only: unat_of_nat) simp
  ultimately show ?thesis by (simp add: slot_index_def slot_block_row_slot [OF assms])
qed

section \<open>Queues\<close>

definition all_blocks :: "garbage_slab \<Rightarrow> u64 list" where
  "all_blocks sl = free_q sl @ concat (half_q sl) @ concat (full_q sl)"

lemma mset_concat_push:
  "q < length qs \<Longrightarrow> mset (concat (qs[q := b # qs ! q])) = add_mset b (mset (concat qs))"
proof (induction qs arbitrary: q)
  case (Cons x qs)
  then show ?case by (cases q) auto
qed simp

lemma mset_concat_removeAll:
  "mset (concat (map (removeAll b) qs)) = filter_mset ((\<noteq>) b) (mset (concat qs))"
  by (induction qs) (auto simp: removeAll_filter_not_eq)

lemma mset_all_unlink:
  "mset (all_blocks (unlink b sl)) = mset (removeAll b (all_blocks sl))"
  by (simp add: all_blocks_def unlink_def mset_concat_removeAll) (simp add: removeAll_filter_not_eq)

lemma mset_all_push:
  "q < length (half_q sl) \<Longrightarrow> mset (all_blocks (push_half q b sl)) = add_mset b (mset (all_blocks sl))"
  "q < length (full_q sl) \<Longrightarrow> mset (all_blocks (push_full q b sl)) = add_mset b (mset (all_blocks sl))"
  "mset (all_blocks (push_free b sl)) = add_mset b (mset (all_blocks sl))"
  by (simp_all add: all_blocks_def push_half_def push_full_def push_free_def mset_concat_push)

lemma length_unlink [simp]:
  "length (half_q (unlink b sl)) = length (half_q sl)" "length (full_q (unlink b sl)) = length (full_q sl)"
  by (simp_all add: unlink_def)

lemma move_distinct:
  assumes "distinct (all_blocks sl)" "mset (all_blocks sl') = add_mset b (mset (all_blocks (unlink b sl)))"
  shows "distinct (all_blocks sl')" "set (all_blocks sl') = insert b (set (all_blocks sl))"
proof -
  have m: "mset (all_blocks sl') = mset (b # removeAll b (all_blocks sl))"
    using assms(2) by (simp add: mset_all_unlink)
  show "distinct (all_blocks sl')" using mset_eq_imp_distinct_iff [OF m] assms(1) by (simp add: distinct_removeAll)
  show "set (all_blocks sl') = insert b (set (all_blocks sl))" using mset_eq_setD [OF m] by auto
qed

section \<open>Invariant and abstraction\<close>

definition blk_ok :: "gc \<Rightarrow> nat \<Rightarrow> nat \<Rightarrow> nat \<Rightarrow> u64 \<Rightarrow> bool" where
  "blk_ok g c q m b \<longleftrightarrow> alloc_core (gblks g b) = c \<and> q_idx (gblks g b) = q
     \<and> bitmap (gblks g b) \<noteq> 0 \<and> popcount (bitmap (gblks g b)) \<le> m
     \<and> (\<forall>i. bit (bitmap (gblks g b)) i \<longrightarrow> i < 59)"

lemma blk_ok_mono: "blk_ok g c q 58 b \<Longrightarrow> blk_ok g c q 59 b"
  by (simp add: blk_ok_def)

definition slab_inv :: "gc \<Rightarrow> nat \<Rightarrow> bool" where
  "slab_inv g c \<longleftrightarrow> c < length (g_slabs g) \<and>
     (let sl = g_slabs g ! c in
      core_id sl = c \<and> length (half_q sl) = 200 \<and> length (full_q sl) = 200
      \<and> distinct (all_blocks sl)
      \<and> (\<forall>b\<in>set (all_blocks sl). block_aligned b \<and> length (rows (gblks g b)) = 60)
      \<and> (\<forall>q<200. (\<forall>b\<in>set (half_q sl ! q). blk_ok g c q 58 b) \<and> (\<forall>b\<in>set (full_q sl ! q). blk_ok g c q 59 b)))"

definition queued :: "garbage_slab \<Rightarrow> u64 set" where
  "queued sl = set (concat (half_q sl)) \<union> set (concat (full_q sl))"

definition blk_regs :: "gc \<Rightarrow> u64 \<Rightarrow> (u64 \<times> u64) set" where
  "blk_regs g b = {(row_slot b i, rows (gblks g b) ! i) | i. bit (bitmap (gblks g b)) i}"

definition regs :: "gc \<Rightarrow> nat \<Rightarrow> (u64 \<times> u64) set" where
  "regs g c = (\<Union>b\<in>queued (g_slabs g ! c). blk_regs g b)"

lemma queued_iff:
  "length (half_q sl) = 200 \<Longrightarrow> length (full_q sl) = 200 \<Longrightarrow>
   b \<in> queued sl \<longleftrightarrow> (\<exists>q<200. b \<in> set (half_q sl ! q) \<or> b \<in> set (full_q sl ! q))"
  unfolding queued_def by (auto simp: in_set_conv_nth) (metis nth_mem in_set_conv_nth)+

lemma queued_move:
  "q < length (half_q sl) \<Longrightarrow> queued (push_half q b (unlink b sl)) = insert b (queued sl)"
  "q < length (full_q sl) \<Longrightarrow> queued (push_full q b (unlink b sl)) = insert b (queued sl)"
  "queued (push_free b (unlink b sl)) = queued sl - {b}"
proof -
  have u: "queued (unlink b sl) = queued sl - {b}" by (auto simp: queued_def unlink_def)
  show "queued (push_half q b (unlink b sl)) = insert b (queued sl)" if "q < length (half_q sl)"
    using u that mset_eq_setD [of "concat ((half_q (unlink b sl))[q := b # half_q (unlink b sl) ! q])" "b # concat (half_q (unlink b sl))"]
    by (auto simp: queued_def push_half_def mset_concat_push)
  show "queued (push_full q b (unlink b sl)) = insert b (queued sl)" if "q < length (full_q sl)"
    using u that mset_eq_setD [of "concat ((full_q (unlink b sl))[q := b # full_q (unlink b sl) ! q])" "b # concat (full_q (unlink b sl))"]
    by (auto simp: queued_def push_full_def mset_concat_push)
  show "queued (push_free b (unlink b sl)) = queued sl - {b}"
    using u by (simp add: queued_def push_free_def)
qed

text \<open>The queue a block is in after it moved.\<close>

lemma in_nth_move:
  assumes "r < length qs" "x \<in> set ((map (removeAll b) qs)[q := b # map (removeAll b) qs ! q] ! r)"
  shows "x = b \<and> r = q \<or> x \<noteq> b \<and> x \<in> set (qs ! r)"
  using assms by (cases "r = q") auto

lemma half_q_move:
  "r < length (half_q sl) \<Longrightarrow> x \<in> set (half_q (push_half q b (unlink b sl)) ! r) \<Longrightarrow>
   x = b \<and> r = q \<or> x \<noteq> b \<and> x \<in> set (half_q sl ! r)"
  "r < length (half_q sl) \<Longrightarrow> x \<in> set (half_q (push_full q b (unlink b sl)) ! r) \<Longrightarrow>
   x \<noteq> b \<and> x \<in> set (half_q sl ! r)"
  "r < length (half_q sl) \<Longrightarrow> x \<in> set (half_q (push_free b (unlink b sl)) ! r) \<Longrightarrow>
   x \<noteq> b \<and> x \<in> set (half_q sl ! r)"
  using in_nth_move [of r "half_q sl" x b q]
  by (simp_all add: push_half_def push_full_def push_free_def unlink_def)

lemma full_q_move:
  "r < length (full_q sl) \<Longrightarrow> x \<in> set (full_q (push_full q b (unlink b sl)) ! r) \<Longrightarrow>
   x = b \<and> r = q \<or> x \<noteq> b \<and> x \<in> set (full_q sl ! r)"
  "r < length (full_q sl) \<Longrightarrow> x \<in> set (full_q (push_half q b (unlink b sl)) ! r) \<Longrightarrow>
   x \<noteq> b \<and> x \<in> set (full_q sl ! r)"
  "r < length (full_q sl) \<Longrightarrow> x \<in> set (full_q (push_free b (unlink b sl)) ! r) \<Longrightarrow>
   x \<noteq> b \<and> x \<in> set (full_q sl ! r)"
  using in_nth_move [of r "full_q sl" x b q]
  by (simp_all add: push_half_def push_full_def push_free_def unlink_def)

section \<open>Registration\<close>

lemma free_slot:
  fixes bm :: u64
  assumes "popcount bm \<le> 58"
  shows "ffs (NOT bm) \<noteq> 0" "ffs (NOT bm) - 1 < 59" "\<not> bit bm (ffs (NOT bm) - 1)"
proof -
  have "\<exists>i<59. \<not> bit bm i"
  proof (rule ccontr)
    assume "\<not> ?thesis"
    then have "{..<59} \<subseteq> {i. bit bm i}" by auto
    from card_mono [OF finite_word_bits this] have "59 \<le> popcount bm" by (simp add: popcount_eq)
    then show False using assms by simp
  qed
  then obtain i where i: "i < 59" "\<not> bit bm i" by blast
  then have "bit (NOT bm) i" by (simp add: bit_not_iff)
  then have nz: "NOT bm \<noteq> 0" by auto
  from ctz_bit [OF this] have c: "bit (NOT bm) (ctz (NOT bm))" "\<And>j. j < ctz (NOT bm) \<Longrightarrow> \<not> bit (NOT bm) j"
    by auto
  have "ctz (NOT bm) \<le> i" using c(2) [of i] \<open>bit (NOT bm) i\<close> by (meson leI)
  then show "ffs (NOT bm) \<noteq> 0" "ffs (NOT bm) - 1 < 59" "\<not> bit bm (ffs (NOT bm) - 1)"
    using nz i(1) c(1) by (auto simp: ffs_def bit_not_iff)
qed

text \<open>Replacing one block of a slab and moving it between queues.\<close>

lemma slab_inv_update:
  assumes inv: "slab_inv g c" and b: "b \<in> set (all_blocks (g_slabs g ! c))"
    and k: "length (rows k) = 60"
    and sl': "core_id sl' = c" "length (half_q sl') = 200" "length (full_q sl') = 200"
      "distinct (all_blocks sl')" "set (all_blocks sl') = set (all_blocks (g_slabs g ! c))"
    and g': "g' = set_slab c sl' (set_blk b k g)"
    and half: "\<And>q x. q < 200 \<Longrightarrow> x \<in> set (half_q sl' ! q) \<Longrightarrow>
      x \<noteq> b \<and> x \<in> set (half_q (g_slabs g ! c) ! q) \<or> x = b \<and> blk_ok g' c q 58 b"
    and full: "\<And>q x. q < 200 \<Longrightarrow> x \<in> set (full_q sl' ! q) \<Longrightarrow>
      x \<noteq> b \<and> x \<in> set (full_q (g_slabs g ! c) ! q) \<or> x = b \<and> blk_ok g' c q 59 b"
  shows "slab_inv g' c"
proof -
  have c: "c < length (g_slabs g)" using inv by (simp add: slab_inv_def)
  have sl: "g_slabs g' ! c = sl'" "c < length (g_slabs g')" using c by (auto simp: g' set_slab_def set_blk_def)
  have same: "blk_ok g' c q m x = blk_ok g c q m x" if "x \<noteq> b" for q m x
    using that by (simp add: blk_ok_def g' set_slab_def set_blk_def)
  have "block_aligned x \<and> length (rows (gblks g' x)) = 60" if "x \<in> set (all_blocks sl')" for x
    using that inv k sl'(5) by (auto simp: slab_inv_def Let_def g' set_slab_def set_blk_def)
  moreover have "blk_ok g' c q 58 x" if "q < 200" "x \<in> set (half_q sl' ! q)" for q x
    using half [OF that] inv that(1) same by (auto simp: slab_inv_def Let_def)
  moreover have "blk_ok g' c q 59 x" if "q < 200" "x \<in> set (full_q sl' ! q)" for q x
    using full [OF that] inv that(1) same by (auto simp: slab_inv_def Let_def)
  ultimately show ?thesis using sl sl' by (simp add: slab_inv_def Let_def)
qed

lemma blk_regs_other: "x \<noteq> b \<Longrightarrow> blk_regs (set_slab c sl (set_blk b k g)) x = blk_regs g x"
  by (simp add: blk_regs_def set_slab_def set_blk_def)

lemma regs_update:
  assumes "c < length (g_slabs g)" "queued sl' = insert b (queued (g_slabs g ! c)) \<or> b \<notin> queued sl' \<and> queued sl' = queued (g_slabs g ! c) - {b}"
  shows "regs (set_slab c sl' (set_blk b k g)) c =
    (if b \<in> queued sl' then blk_regs (set_blk b k g) b else {}) \<union> (\<Union>x\<in>queued (g_slabs g ! c) - {b}. blk_regs g x)"
proof -
  let ?g' = "set_slab c sl' (set_blk b k g)"
  have "g_slabs ?g' ! c = sl'" using assms(1) by (simp add: set_slab_def set_blk_def)
  moreover have "blk_regs ?g' b = blk_regs (set_blk b k g) b"
    by (simp add: blk_regs_def set_slab_def)
  ultimately have r: "regs ?g' c = (\<Union>x\<in>queued sl'. blk_regs ?g' x)"
    "blk_regs ?g' b = blk_regs (set_blk b k g) b" by (simp_all add: regs_def)
  have o: "(\<Union>x\<in>Q - {b}. blk_regs ?g' x) = (\<Union>x\<in>Q - {b}. blk_regs g x)" for Q
    by (rule SUP_cong) (auto simp: blk_regs_other)
  from assms(2) have "queued sl' = insert b (queued (g_slabs g ! c) - {b}) \<or>
    b \<notin> queued sl' \<and> queued sl' = queued (g_slabs g ! c) - {b}" by auto
  then show ?thesis
  proof
    assume q: "queued sl' = insert b (queued (g_slabs g ! c) - {b})"
    then have "b \<in> queued sl'" by simp
    moreover have "regs ?g' c = blk_regs ?g' b \<union> (\<Union>x\<in>queued (g_slabs g ! c) - {b}. blk_regs ?g' x)"
      unfolding r(1) q by (simp only: UN_insert)
    ultimately show ?thesis using r(2) o by simp
  qed (use r o in simp)
qed

text \<open>Setting a free bit adds one registration of the block, clearing a bit removes it.\<close>

lemma blk_regs_image:
  "blk_regs g b = (\<lambda>i. (row_slot b i, rows (gblks g b) ! i)) ` {i. bit (bitmap (gblks g b)) i}"
  by (auto simp: blk_regs_def)

lemma blk_regs_set:
  assumes bits: "\<And>j. bit (bitmap k') j \<longleftrightarrow> j = i \<or> bit (bitmap (gblks g b)) j"
    and "\<not> bit (bitmap (gblks g b)) i" "i < length (rows (gblks g b))" "rows k' = (rows (gblks g b))[i := row]"
  shows "blk_regs (set_blk b k' g) b = insert (row_slot b i, row) (blk_regs g b)"
proof -
  let ?B = "{j. bit (bitmap (gblks g b)) j}"
  have "{j. bit (bitmap k') j} = insert i ?B" using bits by auto
  moreover have "rows k' ! j = rows (gblks g b) ! j" if "bit (bitmap (gblks g b)) j" for j
    using assms(2,4) that by (cases "j = i") auto
  then have "(\<lambda>j. (row_slot b j, rows k' ! j)) ` ?B = (\<lambda>j. (row_slot b j, rows (gblks g b) ! j)) ` ?B"
    by (intro image_cong) auto
  ultimately show ?thesis using assms(3,4) by (simp add: blk_regs_image set_blk_def)
qed

lemma blk_regs_unset:
  assumes bits: "\<And>j. bit (bitmap k') j \<longleftrightarrow> j \<noteq> i \<and> bit (bitmap (gblks g b)) j"
    and "bit (bitmap (gblks g b)) i" "block_aligned b" "\<And>j. bit (bitmap (gblks g b)) j \<Longrightarrow> j < 60"
    and "rows k' = (rows (gblks g b))[i := 0]"
  shows "blk_regs (set_blk b k' g) b = blk_regs g b - {(row_slot b i, rows (gblks g b) ! i)}"
proof -
  let ?B = "{j. bit (bitmap (gblks g b)) j}" and ?f = "\<lambda>j. (row_slot b j, rows (gblks g b) ! j)"
  have inj: "inj_on ?f ?B"
    by (rule inj_onI) (use slot_index_row_slot [OF assms(3)] assms(4) in \<open>metis mem_Collect_eq prod.inject\<close>)
  have "{j. bit (bitmap k') j} = ?B - {i}" using bits by auto
  moreover have "(\<lambda>j. (row_slot b j, rows k' ! j)) ` (?B - {i}) = ?f ` (?B - {i})"
    using assms(5) by (intro image_cong) auto
  moreover have "?f ` (?B - {i}) = ?f ` ?B - {?f i}"
    using inj_on_image_set_diff [OF inj, of ?B "{i}"] assms(2) by auto
  ultimately show ?thesis by (simp add: blk_regs_image set_blk_def)
qed

lemma slab_queued:
  assumes "slab_inv g c" "b \<in> queued (g_slabs g ! c)"
  shows "block_aligned b" "bit (bitmap (gblks g b)) i \<Longrightarrow> i < 59" "\<exists>q<200. blk_ok g c q 59 b"
proof -
  show "block_aligned b" using assms by (auto simp: slab_inv_def Let_def all_blocks_def queued_def)
  from assms obtain q where "q < 200" "b \<in> set (half_q (g_slabs g ! c) ! q) \<or> b \<in> set (full_q (g_slabs g ! c) ! q)"
    using queued_iff [of "g_slabs g ! c"] by (auto simp: slab_inv_def Let_def)
  then have "q < 200" "blk_ok g c q 59 b"
    using assms(1) blk_ok_mono [of g c q b] by (auto simp: slab_inv_def Let_def)
  then show "bit (bitmap (gblks g b)) i \<Longrightarrow> i < 59" "\<exists>q<200. blk_ok g c q 59 b"
    by (auto simp: blk_ok_def)
qed

lemma slot_of_regs:
  assumes "slab_inv g c" "(hdl, row) \<in> regs g c"
  obtains b i q where "hdl = row_slot b i" "row = rows (gblks g b) ! i" "bit (bitmap (gblks g b)) i"
    "b \<in> queued (g_slabs g ! c)" "q < 200" "blk_ok g c q 59 b" "block_aligned b" "i < 59"
proof -
  from assms(2) obtain b i where b: "b \<in> queued (g_slabs g ! c)" "hdl = row_slot b i"
    "row = rows (gblks g b) ! i" "bit (bitmap (gblks g b)) i"
    by (auto simp: regs_def blk_regs_def)
  from slab_queued(3) [OF assms(1) b(1)] obtain q where q: "q < 200" "blk_ok g c q 59 b" by blast
  show ?thesis
    using that [OF b(2,3,4,1) q] slab_queued(1,2) [OF assms(1) b(1)] b(4) by blast
qed

lemma slab_inv_blocks:
  assumes "slab_inv g c" "q < 200"
  shows "b \<in> set (half_q (g_slabs g ! c) ! q) \<Longrightarrow> b \<in> set (all_blocks (g_slabs g ! c)) \<and> b \<in> queued (g_slabs g ! c)"
    "b \<in> set (full_q (g_slabs g ! c) ! q) \<Longrightarrow> b \<in> set (all_blocks (g_slabs g ! c)) \<and> b \<in> queued (g_slabs g ! c)"
  using assms nth_mem by (fastforce simp: slab_inv_def Let_def all_blocks_def queued_def)+

lemma slab_inv_q:
  assumes "slab_inv g c" "q < 200"
  shows "b \<in> set (half_q (g_slabs g ! c) ! q) \<Longrightarrow> blk_ok g c q 58 b"
    "b \<in> set (full_q (g_slabs g ! c) ! q) \<Longrightarrow> blk_ok g c q 59 b"
  using assms by (auto simp: slab_inv_def Let_def)

text \<open>\<open>Add\<close> into the first block of the half queue.\<close>

lemma slab_Add_half:
  assumes inv: "slab_inv g c" and q: "q < 200" and hq: "half_q (g_slabs g ! c) ! q = b # bs"
  shows "\<exists>g' i. slab_Add g c row q = Inr (g', row_slot b i) \<and> slab_inv g' c
    \<and> \<not> bit (bitmap (gblks g b)) i \<and> i < 59 \<and> regs g' c = insert (row_slot b i, row) (regs g c)"
proof -
  let ?sl = "g_slabs g ! c" and ?k = "gblks g b"
  define i where "i = ffs (NOT (bitmap ?k)) - 1"
  define k' where "k' = ?k\<lparr>bitmap := bitmap ?k OR push_bit i 1, rows := (rows ?k)[i := row]\<rparr>"
  define sl' where "sl' = (if popcount (bitmap k') = 59 then push_full q b (unlink b ?sl) else ?sl)"
  define g' where "g' = set_slab c sl' (set_blk b k' g)"
  have ok: "blk_ok g c q 58 b" using inv q hq by (auto simp: slab_inv_def Let_def)
  have b: "b \<in> set (all_blocks ?sl)" "b \<in> queued ?sl" using slab_inv_blocks(1) [OF inv q, of b] hq by auto
  have k: "length (rows ?k) = 60" using inv b by (auto simp: slab_inv_def Let_def)
  note sl = inv [unfolded slab_inv_def Let_def]
  have i: "ffs (NOT (bitmap ?k)) \<noteq> 0" "i < 59" "\<not> bit (bitmap ?k) i"
    using free_slot [of "bitmap ?k"] ok by (auto simp: i_def blk_ok_def)
  have bits: "bit (bitmap k') j \<longleftrightarrow> j = i \<or> bit (bitmap ?k) j" for j
    using i(2) unfolding k'_def by (auto simp del: push_bit_of_1 simp: bit_or_push_one)
  have pc: "popcount (bitmap k') = Suc (popcount (bitmap ?k))"
    using popcount_set_bit [OF i(3)] i(2) by (simp add: k'_def or_push_one del: push_bit_of_1)
  have fi: "ffs (NOT (bitmap ?k)) = Suc i" using i(1) by (simp add: i_def)
  have eq: "slab_Add g c row q = Inr (g', row_slot b i)"
    using sl q hq i(2) k
    by (simp add: slab_Add_def g'_def sl'_def k'_def fi kBlockSize_def kMaxNrRows_def Let_def del: push_bit_of_1)
  have ok': "blk_ok g' c q 59 b" "popcount (bitmap k') \<noteq> 59 \<Longrightarrow> blk_ok g' c q 58 b"
  proof -
    have "gblks g' b = k'" "alloc_core k' = alloc_core ?k" "q_idx k' = q_idx ?k" "bitmap k' \<noteq> 0"
      using bits [of i] by (auto simp: g'_def set_slab_def set_blk_def k'_def)
    then show "blk_ok g' c q 59 b" "popcount (bitmap k') \<noteq> 59 \<Longrightarrow> blk_ok g' c q 58 b"
      using ok pc bits i(2) by (auto simp: blk_ok_def)
  qed
  have sl': "core_id sl' = c" "length (half_q sl') = 200" "length (full_q sl') = 200"
    "distinct (all_blocks sl')" "set (all_blocks sl') = set (all_blocks ?sl)"
    "queued sl' = insert b (queued ?sl)"
    using sl move_distinct [of ?sl "push_full q b (unlink b ?sl)" b] b q
      mset_all_push(2) [of q "unlink b ?sl" b] queued_move(2) [of q ?sl b]
    by (auto simp: sl'_def) (auto simp: push_full_def unlink_def)
  have lens: "length (half_q ?sl) = 200" "length (full_q ?sl) = 200" using sl by auto
  have "slab_inv g' c"
  proof (rule slab_inv_update [OF inv b(1) _ sl'(1-5) g'_def])
    fix r :: nat and x assume r: "r < 200"
    show "x \<noteq> b \<and> x \<in> set (half_q ?sl ! r) \<or> x = b \<and> blk_ok g' c r 58 b" if "x \<in> set (half_q sl' ! r)"
    proof (cases "popcount (bitmap k') = 59")
      case True
      then show ?thesis using half_q_move(2) [of r ?sl x q b] that r lens by (simp add: sl'_def)
    next
      case False
      then have "x \<in> set (half_q ?sl ! r)" using that by (simp add: sl'_def)
      moreover have "x = b \<Longrightarrow> r = q" using slab_inv_q(1) [OF inv r] calculation ok by (auto simp: blk_ok_def)
      ultimately show ?thesis using ok'(2) [OF False] by blast
    qed
    show "x \<noteq> b \<and> x \<in> set (full_q ?sl ! r) \<or> x = b \<and> blk_ok g' c r 59 b" if "x \<in> set (full_q sl' ! r)"
    proof (cases "popcount (bitmap k') = 59")
      case True
      then show ?thesis using full_q_move(1) [of r ?sl x q b] that r lens ok'(1) by (auto simp: sl'_def)
    next
      case False
      then have "x \<in> set (full_q ?sl ! r)" using that by (simp add: sl'_def)
      moreover have "x = b \<Longrightarrow> r = q" using slab_inv_q(2) [OF inv r] calculation ok by (auto simp: blk_ok_def)
      ultimately show ?thesis using ok'(1) by blast
    qed
  qed (simp add: k'_def k)
  moreover have "regs g' c = blk_regs (set_blk b k' g) b \<union> (\<Union>x\<in>queued ?sl - {b}. blk_regs g x)"
    unfolding g'_def using regs_update [of c g sl' b k'] conjunct1 [OF sl] sl'(6) by simp
  moreover have "blk_regs (set_blk b k' g) b = insert (row_slot b i, row) (blk_regs g b)"
    by (rule blk_regs_set [OF bits i(3)]) (use i(2) k in \<open>auto simp: k'_def\<close>)
  moreover have "regs g c = blk_regs g b \<union> (\<Union>x\<in>queued ?sl - {b}. blk_regs g x)"
    using b(2) by (auto simp: regs_def)
  ultimately show ?thesis using eq i by (intro exI [of _ g'] exI [of _ i]) simp
qed

text \<open>\<open>Add\<close> into a fresh block when the half queue is empty.\<close>

lemma slab_Add_free:
  assumes inv: "slab_inv g c" and q: "q < 200" and hq: "half_q (g_slabs g ! c) ! q = []"
    and fr: "free_q (g_slabs g ! c) = b # bs"
  shows "\<exists>g'. slab_Add g c row q = Inr (g', row_slot b 0) \<and> slab_inv g' c
    \<and> b \<notin> queued (g_slabs g ! c) \<and> regs g' c = insert (row_slot b 0, row) (regs g c)"
proof -
  let ?sl = "g_slabs g ! c" and ?k = "gblks g b"
  define k' where "k' = ?k\<lparr>alloc_core := c, q_idx := q, bitmap := 1, rows := (rows ?k)[0 := row]\<rparr>"
  define sl' where "sl' = push_half q b (unlink b ?sl)"
  define g' where "g' = set_slab c sl' (set_blk b k' g)"
  note sl = inv [unfolded slab_inv_def Let_def]
  have b: "b \<in> set (all_blocks ?sl)" using fr by (simp add: all_blocks_def)
  have nq: "b \<notin> queued ?sl" using sl fr by (auto simp: all_blocks_def queued_def)
  have k: "length (rows ?k) = 60" using sl b by auto
  have bits: "bit (bitmap k') j \<longleftrightarrow> j = 0" for j
    unfolding k'_def by (auto simp: bit_1_iff)
  have pc: "popcount (bitmap k') = 1" by (simp add: popcount_eq bits)
  have eq: "slab_Add g c row q = Inr (g', row_slot b 0)"
    using sl q hq fr k by (simp add: slab_Add_def g'_def sl'_def k'_def Let_def)
  have ok': "blk_ok g' c q 58 b"
    using bits pc by (auto simp: blk_ok_def g'_def set_slab_def set_blk_def k'_def)
  have sl': "core_id sl' = c" "length (half_q sl') = 200" "length (full_q sl') = 200"
    "distinct (all_blocks sl')" "set (all_blocks sl') = set (all_blocks ?sl)"
    "queued sl' = insert b (queued ?sl)"
    using sl move_distinct [of ?sl sl' b] b q
      mset_all_push(1) [of q "unlink b ?sl" b] queued_move(1) [of q ?sl b]
    by (auto simp: sl'_def) (auto simp: push_half_def unlink_def)
  have "slab_inv g' c"
    by (rule slab_inv_update [OF inv b _ sl'(1-5) g'_def])
       (use k ok' sl full_q_move(2) [of _ ?sl _ q b] half_q_move(1) [of _ ?sl _ q b]
          in \<open>auto simp: k'_def sl'_def\<close>)
  moreover have "blk_regs (set_blk b k' g) b = {(row_slot b 0, row)}"
    using bits k by (auto simp: blk_regs_def set_blk_def k'_def)
  then have "regs g' c = insert (row_slot b 0, row) (regs g c)"
    using regs_update [of c g sl' b k'] sl sl'(6) nq unfolding g'_def by (auto simp: regs_def)
  ultimately show ?thesis using eq nq by blast
qed

lemma fresh_slot:
  assumes "slab_inv g c" "b \<in> set (all_blocks (g_slabs g ! c))" "i < 59"
    "b \<notin> queued (g_slabs g ! c) \<or> \<not> bit (bitmap (gblks g b)) i"
  shows "row_slot b i \<notin> fst ` regs g c"
proof
  assume "row_slot b i \<in> fst ` regs g c"
  then obtain row where "(row_slot b i, row) \<in> regs g c" by force
  from slot_of_regs [OF assms(1) this] obtain b' j where
    j: "row_slot b i = row_slot b' j" "bit (bitmap (gblks g b')) j" "b' \<in> queued (g_slabs g ! c)"
      "block_aligned b'" "j < 59" by blast
  have "block_aligned b" using assms(1,2) by (auto simp: slab_inv_def Let_def)
  note al = this j(4)
  have lt: "i < 60" "j < 60" using assms(3) j(5) by simp_all
  have "b = b'"
    using slot_block_row_slot [OF al(1) lt(1)] slot_block_row_slot [OF al(2) lt(2)] j(1) by simp
  moreover have "i = j"
    using slot_index_row_slot [OF al(1) lt(1)] slot_index_row_slot [OF al(2) lt(2)] j(1) by simp
  ultimately show False using assms(4) j(2,3) by simp
qed

theorem slab_Add_registers:
  assumes "slab_inv g c" "q < 200" "half_q (g_slabs g ! c) ! q \<noteq> [] \<or> free_q (g_slabs g ! c) \<noteq> []"
  shows "\<exists>g' hdl. slab_Add g c row q = Inr (g', hdl) \<and> slab_inv g' c
    \<and> hdl \<notin> fst ` regs g c \<and> regs g' c = insert (hdl, row) (regs g c)"
proof (cases "half_q (g_slabs g ! c) ! q")
  case (Cons b bs)
  then have "b \<in> set (all_blocks (g_slabs g ! c))"
    using slab_inv_blocks(1) [OF assms(1,2), of b] by simp
  moreover obtain g' i where "slab_Add g c row q = Inr (g', row_slot b i)" "slab_inv g' c"
    "\<not> bit (bitmap (gblks g b)) i" "i < 59" "regs g' c = insert (row_slot b i, row) (regs g c)"
    using slab_Add_half [OF assms(1,2) Cons, of row] by auto
  ultimately show ?thesis using fresh_slot [OF assms(1), of b i] by (intro exI conjI) simp_all
next
  case Nil
  then obtain b bs where fr: "free_q (g_slabs g ! c) = b # bs" using assms(3) by (cases "free_q (g_slabs g ! c)") auto
  then have "b \<in> set (all_blocks (g_slabs g ! c))" by (simp add: all_blocks_def)
  moreover obtain g' where "slab_Add g c row q = Inr (g', row_slot b 0)" "slab_inv g' c"
    "b \<notin> queued (g_slabs g ! c)" "regs g' c = insert (row_slot b 0, row) (regs g c)"
    using slab_Add_free [OF assms(1,2) Nil fr, of row] by auto
  ultimately show ?thesis using fresh_slot [OF assms(1), of b 0] by (intro exI conjI) simp_all
qed

theorem RemoveRow_unregisters:
  assumes "slab_inv g c" "(hdl, row) \<in> regs g c"
  shows "\<exists>g'. RemoveRow g hdl = Inr g' \<and> slab_inv g' c \<and> regs g' c = regs g c - {(hdl, row)}"
proof -
  let ?sl = "g_slabs g ! c"
  from slot_of_regs [OF assms] obtain b i q where
    b: "hdl = row_slot b i" "row = rows (gblks g b) ! i" "bit (bitmap (gblks g b)) i"
      "b \<in> queued ?sl" "q < 200" "blk_ok g c q 59 b" "block_aligned b" "i < 59" by blast
  have i60: "i < 60" using b(8) by simp
  let ?k = "gblks g b"
  note sl = assms(1) [unfolded slab_inv_def Let_def]
  define k' where "k' = ?k\<lparr>rows := (rows ?k)[i := 0], bitmap := bitmap ?k AND NOT (push_bit i 1)\<rparr>"
  define sl' where "sl' = (if popcount (bitmap ?k) = 1 then push_free b (unlink b ?sl) else ?sl)"
  define g' where "g' = set_slab c sl' (set_blk b k' g)"
  have all: "b \<in> set (all_blocks ?sl)" using b(4) by (auto simp: all_blocks_def queued_def)
  have k: "length (rows ?k) = 60" using sl all by auto
  have bits: "bit (bitmap k') j \<longleftrightarrow> j \<noteq> i \<and> bit (bitmap ?k) j" for j
    unfolding k'_def by (simp add: bit_and_not_push_one del: push_bit_of_1)
  have pc: "Suc (popcount (bitmap k')) = popcount (bitmap ?k)"
    using popcount_unset_bit [OF b(3)] by (simp add: k'_def and_not_push_one del: push_bit_of_1)
  have "RemoveRow g hdl = slab_Remove g c b i"
    using b(1,6) slot_block_row_slot [OF b(7) i60] slot_index_row_slot [OF b(7) i60]
    by (simp add: RemoveRow_def Let_def blk_ok_def)
  also have "\<dots> = Inr g'"
  proof -
    have "popcount (bitmap ?k) \<noteq> 60" using b(6) by (auto simp: blk_ok_def)
    then show ?thesis using conjunct1 [OF sl] i60 k
      by (simp add: slab_Remove_def g'_def sl'_def k'_def kMaxNrRows_def kBlockSize_def Let_def del: push_bit_of_1)
  qed
  finally have eq: "RemoveRow g hdl = Inr g'" .
  have sl': "core_id sl' = c" "length (half_q sl') = 200" "length (full_q sl') = 200"
    "distinct (all_blocks sl')" "set (all_blocks sl') = set (all_blocks ?sl)"
    using sl move_distinct [of ?sl "push_free b (unlink b ?sl)" b] all mset_all_push(3) [of b "unlink b ?sl"]
    by (auto simp: sl'_def) (auto simp: push_free_def unlink_def)
  have qd: "popcount (bitmap ?k) = 1 \<Longrightarrow> b \<notin> queued sl' \<and> queued sl' = queued ?sl - {b}"
    "popcount (bitmap ?k) \<noteq> 1 \<Longrightarrow> queued sl' = insert b (queued ?sl)"
    using queued_move(3) [of b ?sl] b(4) by (auto simp: sl'_def)
  have gb: "gblks g' b = k'" "alloc_core k' = alloc_core ?k" "q_idx k' = q_idx ?k"
    by (auto simp: g'_def set_slab_def set_blk_def k'_def)
  have ok': "blk_ok g' c r m b" if "blk_ok g c r m b" "popcount (bitmap ?k) \<noteq> 1" for r m
  proof -
    have "popcount (bitmap k') \<noteq> 0" using that(2) pc by simp
    then have "bitmap k' \<noteq> 0" by (auto simp: popcount_eq)
    then show ?thesis using that pc bits gb by (auto simp: blk_ok_def)
  qed
  have lens: "length (half_q ?sl) = 200" "length (full_q ?sl) = 200" using sl by auto
  have "slab_inv g' c"
  proof (rule slab_inv_update [OF assms(1) all _ sl' g'_def])
    fix r :: nat and x assume r: "r < 200"
    show "x \<noteq> b \<and> x \<in> set (half_q ?sl ! r) \<or> x = b \<and> blk_ok g' c r 58 b" if "x \<in> set (half_q sl' ! r)"
    proof (cases "popcount (bitmap ?k) = 1")
      case True
      then show ?thesis using half_q_move(3) [of r ?sl x b] that r lens by (simp add: sl'_def)
    next
      case False
      moreover have "blk_ok g c r 58 x" if "x \<in> set (half_q ?sl ! r)" using sl r that by blast
      ultimately show ?thesis using that ok' [of r 58] by (auto simp: sl'_def)
    qed
    show "x \<noteq> b \<and> x \<in> set (full_q ?sl ! r) \<or> x = b \<and> blk_ok g' c r 59 b" if "x \<in> set (full_q sl' ! r)"
    proof (cases "popcount (bitmap ?k) = 1")
      case True
      then show ?thesis using full_q_move(3) [of r ?sl x b] that r lens by (simp add: sl'_def)
    next
      case False
      moreover have "blk_ok g c r 59 x" if "x \<in> set (full_q ?sl ! r)" using sl r that by blast
      ultimately show ?thesis using that ok' [of r 59] by (auto simp: sl'_def)
    qed
  qed (simp add: k'_def k)
  moreover have "blk_regs (set_blk b k' g) b = blk_regs g b - {(hdl, row)}"
    unfolding b(1,2)
  proof (rule blk_regs_unset [OF bits b(3,7)])
    show "j < 60" if "bit (bitmap ?k) j" for j using slab_queued(2) [OF assms(1) b(4) that] by simp
  qed (simp add: k'_def)
  moreover have "(hdl, row) \<notin> blk_regs g x" if x: "x \<in> queued ?sl" "x \<noteq> b" for x
  proof
    assume "(hdl, row) \<in> blk_regs g x"
    then obtain j where j: "row_slot b i = row_slot x j" "bit (bitmap (gblks g x)) j"
      using b(1) by (auto simp: blk_regs_def)
    have "j < 59" "block_aligned x" using slab_queued [OF assms(1) x(1)] j(2) by auto
    then show False
      using j(1) x(2) b(7,8) slot_block_row_slot [of b i] slot_block_row_slot [of x j] by simp
  qed
  then have "(\<Union>x\<in>queued ?sl - {b}. blk_regs g x) - {(hdl, row)} = (\<Union>x\<in>queued ?sl - {b}. blk_regs g x)"
    by blast
  moreover have "regs g c = blk_regs g b \<union> (\<Union>x\<in>queued ?sl - {b}. blk_regs g x)"
    using b(4) by (auto simp: regs_def)
  moreover have "popcount (bitmap ?k) = 1 \<Longrightarrow> blk_regs (set_blk b k' g) b = {}"
    using pc by (auto simp: popcount_eq blk_regs_def set_blk_def)
  moreover have "regs g' c = (if b \<in> queued sl' then blk_regs (set_blk b k' g) b else {})
      \<union> (\<Union>x\<in>queued ?sl - {b}. blk_regs g x)"
    unfolding g'_def using conjunct1 [OF sl] qd
    by (intro regs_update) (cases "popcount (bitmap ?k) = 1"; simp)+
  moreover have "b \<in> queued sl' \<or> popcount (bitmap ?k) = 1" using qd(2) by auto
  ultimately show ?thesis using eq qd(1) by (auto split: if_splits)
qed

section \<open>A block that comes back with 59 rows\<close>

text \<open>
  \<open>Add\<close> moves a block to the full queue at 59 rows, while \<open>RunGC\<close> puts a block that it could not finish back
  into the half queue unless it has 60. A block that comes back with 59 rows gets a 60th
  one and stays in the half queue, and the next \<open>Add\<close> writes behind the row array.
\<close>

lemma slab_Add_after_straggler:
  assumes "c < length (g_slabs g)" "q < length (half_q (g_slabs g ! c))" "half_q (g_slabs g ! c) ! q = b # bs"
    and "bitmap (gblks g b) = 0x07FFFFFFFFFFFFFF" "length (rows (gblks g b)) = 60"
  shows "\<exists>g' h. slab_Add g c row q = Inr (g', h) \<and> half_q (g_slabs g' ! c) ! q = b # bs \<and> bitmap (gblks g' b) = 0x0FFFFFFFFFFFFFFF
    \<and> slab_Add g' c row' q = Inl OutOfBounds"
proof -
  have f: "ffs (- 576460752303423488 :: u64) = 60" "ffs (- 1152921504606846976 :: u64) = 61" by code_simp+
  have p: "popcount (0x0FFFFFFFFFFFFFFF :: u64) = 60" by code_simp
  have o: "(0x07FFFFFFFFFFFFFF OR push_bit 59 1 :: u64) = 0x0FFFFFFFFFFFFFFF" by code_simp
  define g' where "g' = set_slab c (g_slabs g ! c) (set_blk b ((gblks g b)\<lparr>bitmap := 0x0FFFFFFFFFFFFFFF, rows := (rows (gblks g b))[59 := row]\<rparr>) g)"
  have "slab_Add g c row q = Inr (g', row_slot b 59)"
    using assms by (simp add: slab_Add_def f p o wr_def kBlockSize_def kMaxNrRows_def Let_def g'_def)
  moreover have "slab_Add g' c row' q = Inl OutOfBounds"
    using assms by (simp add: slab_Add_def f wr_def kBlockSize_def kMaxNrRows_def Let_def g'_def set_slab_def set_blk_def)
  ultimately show ?thesis using assms by (intro exI [of _ g']) (simp add: g'_def set_slab_def set_blk_def)
qed

end
