(* ===== verification/Vhandle.thy ===== *)
theory Vhandle
  imports Garbage_Slab
begin

text \<open>
  The operations of a row, \<^verbatim>\<open>felis::SortedArrayVHandle\<close> in \<^verbatim>\<open>src/vhandle.cc\<close>:
  growing the version array, inserting a version, finding the version that a
  transaction reads, reading and writing. The theorems about them are in the theories
  \<open>Vhandle_Append\<close> and \<open>Vhandle_Store\<close>.
\<close>

section \<open>Growing the array\<close>

definition EnlargePair64Array :: "env \<Rightarrow> gc \<Rightarrow> vhandle \<Rightarrow> nat \<Rightarrow> (gc \<times> u64 list) option" where
  "EnlargePair64Array env g h new_cap =
     (case alloc_words env (2 * new_cap) of
        None \<Rightarrow> None
      | Some new_p \<Rightarrow>
          let old_cap = capacity h;
              p1 = std_copy new_p 0 (versions h) 0 old_cap;
              p2 = std_copy p1 new_cap (versions h) old_cap (2 * old_cap);
              g' = (if versions_inline h then g
                    else g\<lparr>region_frees := (alloc_by_regionid h, 2 * (old_cap * 8)) # region_frees g\<rparr>)
          in Some (g', p2))"

text \<open>
  \<open>IncreaseSize(delta, epoch_nr)\<close> makes room for \<open>delta\<close> versions and marks their
  objects pending. A full row of 512K versions or more is collected first; on the first
  append after a write the start of the current versions moves, the row is collected
  and its registration with the collector is renewed.
\<close>

definition collect_when :: "bool \<Rightarrow> env \<Rightarrow> nat \<Rightarrow> nat \<Rightarrow> gc \<times> vhandle \<Rightarrow> (gc \<times> vhandle) res" where
  "collect_when c env e limit = (\<lambda>(g, h).
     if c then res_bind (Collect_row env g h e limit) (\<lambda>(g', h', n). Inr (g', h')) else Inr (g, h))"

definition grow :: "env \<Rightarrow> nat \<Rightarrow> gc \<times> vhandle \<Rightarrow> (gc \<times> vhandle) res" where
  "grow env delta = (\<lambda>(g, h0).
     let h = h0\<lparr>vsize := u32_of (int (vsize h0) + int delta)\<rparr> in
     res_bind
       (if vsize h > capacity h then
          let new_cap = max 8 (2 ^ (32 - clz32 (vsize h))) in
          (case EnlargePair64Array env g h new_cap of
             None \<Rightarrow> Inl (Abort ''Memory allocation failure'')
           | Some (g', new_versions) \<Rightarrow>
               Inr (g', h\<lparr>versions := new_versions, capacity := new_cap,
                          alloc_by_regionid := env_affinity env mod 256, versions_inline := False\<rparr>))
        else Inr (g, h))
       (\<lambda>(g', h'). Inr (g', h'\<lparr>versions :=
          std_fill (versions h') (capacity h' + vsize h' - delta) (capacity h' + vsize h') kPendingValue\<rparr>)))"

definition renew_gc :: "env \<Rightarrow> nat \<Rightarrow> u64 \<Rightarrow> int \<Rightarrow> gc \<times> vhandle \<Rightarrow> (gc \<times> vhandle) res" where
  "renew_gc env e handle latest = (\<lambda>(g, h).
     let h1 = h\<lparr>cur_start := u32_of (latest + 1)\<rparr>; garbage_left = (latest \<ge> 16384) in
     res_bind
       (if handle \<noteq> 0 then
          res_bind (collect_when (latest > 0) env e (min 16384 (nat latest)) (g, h1)) (\<lambda>(g2, h2).
          res_bind (RemoveRow g2 handle) (\<lambda>g3. Inr (g3, h2\<lparr>gc_handle := 0\<rparr>)))
        else Inr (g, h1))
       (\<lambda>(g4, h4).
          let latest' = latest_version h4 in
          res_bind
            (if \<not> garbage_left \<and> latest' \<ge> 0
             then res_bind (rd (versions h4) (capacity h4 + nat latest')) (IsDataGarbage h4)
             else Inr garbage_left)
            (\<lambda>left.
               if left
               then res_bind (AddRow env g4 (vaddr h4) e) (\<lambda>(g5, hdl). Inr (g5, h4\<lparr>gc_handle := hdl\<rparr>))
               else Inr (g4, h4))))"

definition IncreaseSize :: "env \<Rightarrow> nat \<Rightarrow> nat \<Rightarrow> gc \<times> vhandle \<Rightarrow> (gc \<times> vhandle) res" where
  "IncreaseSize env delta e = (\<lambda>(g, h).
     res_bind (collect_when (u32_of (int (vsize h) + int delta) > capacity h \<and> capacity h \<ge> 524288)
                 env e 16384 (g, h)) (\<lambda>(g1, h1).
     let latest = latest_version h1 in
     res_bind (grow env delta (g1, h1)) (\<lambda>(g2, h2).
     if cur_start h2 \<noteq> u32_of (latest + 1)
     then renew_gc env e (gc_handle h) latest (g2, h2)
     else Inr (g2, h2))))"

section \<open>Inserting versions\<close>

definition BookNewVersionNoLock :: "vhandle \<Rightarrow> u64 \<Rightarrow> nat \<Rightarrow> vhandle res" where
  "BookNewVersionNoLock h sid pos =
     res_bind (wr (versions h) pos sid) (\<lambda>vs. Inr (h\<lparr>versions := vs\<rparr>))"

text \<open>
  \<open>AbsorbNewVersionNoLock(end, extra_shift)\<close> moves the version at \<open>end\<close> to its place in
  the sorted versions before it; the versions it passes move up by \<open>1 + extra_shift\<close>.
  The overlapping \<open>std::move\<close> of the source is the \<open>memmove\<close> that the library performs.
\<close>

definition AbsorbNewVersionNoLock :: "vhandle \<Rightarrow> nat \<Rightarrow> nat \<Rightarrow> (vhandle \<times> nat) res" where
  "AbsorbNewVersionNoLock h e extra_shift =
     (let vs = versions h in
      if e = 0 then
        res_bind (rd vs 0) (\<lambda>v0. res_bind (wr vs extra_shift v0) (\<lambda>vs'. Inr (h\<lparr>versions := vs'\<rparr>, 0)))
      else
        res_bind (rd vs e) (\<lambda>last.
        let mark = (e - 1) div 1024 * 1024 in
        res_bind (FastLowerBound vs mark e last) (\<lambda>i0.
        let i = (if i0 = mark then std_lower_bound vs 0 mark last else i0);
            vs1 = memmove vs (i + 1 + extra_shift) i (e - i)
        in res_bind (wr vs1 (i + extra_shift) last) (\<lambda>vs2. Inr (h\<lparr>versions := vs2\<rparr>, i)))))"

definition AppendNewVersionNoLock :: "env \<Rightarrow> u64 \<Rightarrow> nat \<Rightarrow> int \<Rightarrow> gc \<times> vhandle \<Rightarrow> (gc \<times> vhandle) res" where
  "AppendNewVersionNoLock env sid e ondemand_split_weight = (\<lambda>(g, h0).
     let h = (if ondemand_split_weight \<noteq> 0
              then h0\<lparr>nr_ondsplt := nr_ondsplt h0 + ondemand_split_weight\<rparr> else h0) in
     res_bind (IncreaseSize env 1 e (g, h)) (\<lambda>(g1, h1).
     res_bind (BookNewVersionNoLock h1 sid (vsize h1 - 1)) (\<lambda>h2.
     res_bind (AbsorbNewVersionNoLock h2 (vsize h2 - 1) 0) (\<lambda>(h3, i). Inr (g1, h3)))))"

section \<open>Reading and writing\<close>

text \<open>
  \<open>WithVersion(sid)\<close>: the index of the version that transaction \<open>sid\<close> reads, \<open>None\<close> when
  there is none. When the row has one written version only and \<open>sid\<close> is not after it, the
  source reads \<open>versions[-1]\<close>.
\<close>

definition search_version :: "u64 list \<Rightarrow> nat \<Rightarrow> nat \<Rightarrow> u64 \<Rightarrow> nat option" where
  "search_version vs a b sid =
     (let p = std_lower_bound vs a b sid in if p = 0 then None else Some (p - 1))"

definition WithVersion :: "vhandle \<Rightarrow> u64 \<Rightarrow> nat option res" where
  "WithVersion h sid =
     (let vs = versions h; latest = latest_version h in
      if latest \<ge> 0 \<and> sid > vs ! nat latest then
        let start = nat latest + 1 in
        if start \<ge> vsize h \<or> sid \<le> vs ! start then Inr (Some (start - 1))
        else Inr (search_version vs start (vsize h) sid)
      else if latest \<ge> 0 then
        let e = nat latest in
        if e = 0 then Inl OutOfBounds
        else if vs ! (e - 1) < sid then Inr (Some (e - 1))
        else Inr (search_version vs (cur_start h) e sid)
      else Inr (search_version vs (cur_start h) (vsize h) sid))"

text \<open>\<open>SpinnerSlot::IsPendingVal\<close>: the low half of a pending value holds the waiting cores.\<close>

definition IsPendingVal :: "u64 \<Rightarrow> bool" where
  "IsPendingVal val \<longleftrightarrow> drop_bit 32 val = drop_bit 32 kPendingValue"

text \<open>The reader gets nothing, has to wait for the data at an index, or gets the object.\<close>

datatype read_result = ReadNull | ReadWait nat | ReadObj u64

definition ReadWithVersion :: "vhandle \<Rightarrow> u64 \<Rightarrow> read_result res" where
  "ReadWithVersion h sid =
     res_bind (WithVersion h sid) (\<lambda>p. case p of
         None \<Rightarrow> Inr ReadNull
       | Some pos \<Rightarrow>
           res_bind (rd (versions h) (capacity h + pos)) (\<lambda>v.
           Inr (if IsPendingVal v then ReadWait pos else ReadObj v)))"

definition ReadExactVersion :: "vhandle \<Rightarrow> nat \<Rightarrow> u64 res" where
  "ReadExactVersion h version_idx = rd (versions h) (capacity h + version_idx)"

text \<open>
  \<open>WriteWithVersion\<close>. The compare-and-swap loop on \<open>latest_version\<close>, run alone, raises it
  to the index written.
\<close>

definition WriteWithVersion :: "env \<Rightarrow> u64 \<Rightarrow> u64 \<Rightarrow> nat \<Rightarrow> gc \<times> vhandle \<Rightarrow> (gc \<times> vhandle) res" where
  "WriteWithVersion env sid data e = (\<lambda>(g, h).
     let vs = versions h; pos = latest_version h in
     res_bind (rd vs (nat (pos + 1))) (\<lambda>v.
     res_bind
       (if v \<noteq> sid then
          let it = std_lower_bound vs (cur_start h) (vsize h) sid in
          if it = vsize h \<or> vs ! it \<noteq> sid then Inl (Abort ''Diverging outcomes'') else Inr it
        else Inr (nat (pos + 1)))
       (\<lambda>it.
     res_bind (wr vs (capacity h + it) data) (\<lambda>vs'.
     let h1 = h\<lparr>versions := vs', latest_version := (if int it > pos then int it else pos)\<rparr> in
     if int it = int (vsize h) - 1 then Inr (g, h1\<lparr>nr_ondsplt := 0, cont_affinity := -1\<rparr>)
     else
       res_bind (IsDataGarbage h1 data) (\<lambda>garbage.
       if garbage \<and> gc_handle h1 = 0
       then res_bind (AddRow env g (vaddr h1) e) (\<lambda>(g', hdl). Inr (g', h1\<lparr>gc_handle := hdl\<rparr>))
       else Inr (g, h1))))))"

definition WriteExactVersion :: "vhandle \<Rightarrow> nat \<Rightarrow> u64 \<Rightarrow> vhandle res" where
  "WriteExactVersion h version_idx data =
     (if version_idx \<ge> vsize h then Inl (Abort ''WriteExactVersion overflowed'')
      else res_bind (wr (versions h) (capacity h + version_idx) data) (\<lambda>vs.
        Inr (h\<lparr>versions := vs,
              latest_version := (if u32_of (latest_version h) < version_idx then int version_idx
                                 else latest_version h)\<rparr>)))"

end
