(* ===== verification/Vhandle_LinkList.thy ===== *)
theory Vhandle_LinkList
  imports Mv_Store Vhandle
begin

text \<open>
  The two alternative row formats of \<^verbatim>\<open>src/vhandle.cc\<close>: \<open>LinkListVHandle\<close>, a list of
  versions with the newest first, and \<open>CalvinVHandle\<close>, which orders reads and writes of a
  single object. The linked list is a second implementation of the multi-version
  interface of theory \<open>Mv_Store\<close>. The functor \<open>gc_rule\<close> that both call when a version is
  appended is not part of the repository; it is an argument here.
\<close>

section \<open>LinkListVHandle\<close>

text \<open>The list behind \<open>head\<close>, as (version, object) pairs, and the size counter.\<close>

record ll_handle =
  ll_lock :: bool
  ll_entries :: "(u64 \<times> u64) list"
  ll_size :: nat

definition LinkListVHandle :: ll_handle where
  "LinkListVHandle = \<lparr> ll_lock = False, ll_entries = [], ll_size = 0 \<rparr>"

text \<open>The search for the insertion point; the flag says whether an entry was created.\<close>

fun ll_insert :: "u64 \<Rightarrow> (u64 \<times> u64) list \<Rightarrow> (u64 \<times> u64) list \<times> bool" where
  "ll_insert sid [] = ([(sid, kPendingValue)], True)"
| "ll_insert sid ((v, d) # es) =
     (if v < sid then ((sid, kPendingValue) # (v, d) # es, True)
      else if v = sid then ((v, d) # es, False)
      else let (es', new) = ll_insert sid es in ((v, d) # es', new))"

definition ll_AppendNewVersion ::
  "(ll_handle \<Rightarrow> u64 \<Rightarrow> nat \<Rightarrow> ll_handle) \<Rightarrow> ll_handle \<Rightarrow> u64 \<Rightarrow> nat \<Rightarrow> bool \<times> ll_handle" where
  "ll_AppendNewVersion gc_rule h sid epoch_nr =
     (if ll_lock h then (False, h)
      else
        let h1 = gc_rule (h\<lparr>ll_lock := True\<rparr>) sid epoch_nr;
            (es, new) = ll_insert sid (ll_entries h1);
            h2 = (if new then h1\<lparr>ll_entries := es, ll_size := ll_size h1 + 1\<rparr> else h1)
        in (True, h2\<lparr>ll_lock := False\<rparr>))"

definition ll_ReadWithVersion :: "ll_handle \<Rightarrow> u64 \<Rightarrow> u64 option" where
  "ll_ReadWithVersion h sid =
     (case dropWhile (\<lambda>(v, d). v \<ge> sid) (ll_entries h) of [] \<Rightarrow> None | (v, d) # _ \<Rightarrow> Some d)"

fun ll_offer :: "u64 \<Rightarrow> u64 \<Rightarrow> (u64 \<times> u64) list \<Rightarrow> (u64 \<times> u64) list option" where
  "ll_offer sid data [] = None"
| "ll_offer sid data ((v, d) # es) =
     (if v \<noteq> sid then map_option ((#) (v, d)) (ll_offer sid data es) else Some ((v, data) # es))"

definition ll_WriteWithVersion :: "ll_handle \<Rightarrow> u64 \<Rightarrow> u64 \<Rightarrow> bool \<Rightarrow> bool \<times> ll_handle" where
  "ll_WriteWithVersion h sid data dry_run =
     (case ll_offer sid data (ll_entries h) of
        None \<Rightarrow> (False, h)
      | Some es \<Rightarrow> if dry_run then (True, h) else (True, h\<lparr>ll_entries := es\<rparr>))"

text \<open>\<open>GarbageCollect\<close> cuts the list behind the versions of the current epoch; the
  deleted objects are the second result.\<close>

definition ll_GarbageCollect :: "u64 \<Rightarrow> ll_handle \<Rightarrow> ll_handle \<times> u64 list" where
  "ll_GarbageCollect min_of_epoch h =
     (let es = ll_entries h in
      if length es \<le> 1 then (h, [])
      else
        let keep = takeWhile (\<lambda>(v, d). v \<ge> min_of_epoch) es;
            old = dropWhile (\<lambda>(v, d). v \<ge> min_of_epoch) es
        in (h\<lparr>ll_entries := keep, ll_size := ll_size h - length old\<rparr>, map snd old))"

subsection \<open>Invariant and abstraction\<close>

definition ll_inv :: "nat \<Rightarrow> ll_handle \<Rightarrow> bool" where
  "ll_inv e h \<longleftrightarrow> sorted_wrt (>) (map fst (ll_entries h)) \<and> ll_size h = length (ll_entries h)
     \<and> (\<forall>v\<in>fst ` set (ll_entries h). epoch_of v \<le> e)"

definition ll_abs :: "nat \<Rightarrow> ll_handle \<Rightarrow> epoch_store" where
  "ll_abs e h =
     \<lparr> base = map_option snd (find (\<lambda>(v, d). epoch_of v < e) (ll_entries h)),
       cur = (\<lambda>v. if e \<le> epoch_of v then map_of (ll_entries h) v else None) \<rparr>"

lemma sorted_desc_distinct: "sorted_wrt (>) (xs :: u64 list) \<Longrightarrow> distinct xs"
  by (induction xs) auto

lemma ll_insert_entries:
  "sorted_wrt (>) (map fst es) \<Longrightarrow>
   sorted_wrt (>) (map fst (fst (ll_insert sid es)))
   \<and> fst ` set (fst (ll_insert sid es)) = insert sid (fst ` set es)
   \<and> length (fst (ll_insert sid es)) = length es + (if snd (ll_insert sid es) then 1 else 0)
   \<and> (snd (ll_insert sid es) \<longleftrightarrow> sid \<notin> fst ` set es) \<and> (\<not> snd (ll_insert sid es) \<longrightarrow> fst (ll_insert sid es) = es)"
proof (induction sid es rule: ll_insert.induct)
  case (2 sid v d es)
  show ?case
  proof (cases "sid < v")
    case True
    then show ?thesis using 2 by (auto simp: split_beta Let_def not_less)
  next
    case False
    then show ?thesis using 2(2) by (auto simp: split_beta Let_def order.order_iff_strict)
  qed
qed simp

lemma map_of_ll_insert:
  "sorted_wrt (>) (map fst es) \<Longrightarrow> sid \<notin> fst ` set es \<Longrightarrow>
   map_of (fst (ll_insert sid es)) v = ((map_of es)(sid \<mapsto> kPendingValue)) v"
  by (induction sid es rule: ll_insert.induct) (auto simp: split_beta Let_def)

lemma find_ll_insert:
  "sid \<notin> fst ` set es \<Longrightarrow> e \<le> epoch_of sid \<Longrightarrow> sorted_wrt (>) (map fst es) \<Longrightarrow>
   find (\<lambda>(v, d). epoch_of v < e) (fst (ll_insert sid es)) = find (\<lambda>(v, d). epoch_of v < e) es"
  by (induction sid es rule: ll_insert.induct) (auto simp: split_beta Let_def)

lemma ll_offer_Some:
  "sid \<in> fst ` set es \<Longrightarrow> distinct (map fst es) \<Longrightarrow>
   \<exists>es'. ll_offer sid x es = Some es' \<and> map fst es' = map fst es \<and> (\<forall>v. map_of es' v = ((map_of es)(sid \<mapsto> x)) v)
     \<and> (e \<le> epoch_of sid \<longrightarrow> find (\<lambda>(v, d). epoch_of v < e) es' = find (\<lambda>(v, d). epoch_of v < e) es)"
proof (induction sid x es rule: ll_offer.induct)
  case (2 sid x v d es)
  then show ?case by (cases "v = sid") auto
qed simp

subsection \<open>Refinement\<close>

lemma ll_append_refines:
  assumes "ll_inv e h" "\<not> ll_lock h" "epoch_of sid = e" "sid \<notin> fst ` set (ll_entries h)"
    and gc: "gc_rule (h\<lparr>ll_lock := True\<rparr>) sid e = h\<lparr>ll_lock := True\<rparr>"
  shows "\<exists>h'. ll_AppendNewVersion gc_rule h sid e = (True, h') \<and> ll_inv e h'
    \<and> ll_abs e h' = put (ll_abs e h) sid kPendingValue"
proof -
  let ?es = "ll_entries h"
  have srt: "sorted_wrt (>) (map fst ?es)" using assms(1) by (simp add: ll_inv_def)
  note ins = ll_insert_entries [OF srt, of sid]
  obtain es where es: "ll_insert sid ?es = (es, True)"
    using ins assms(4) by (cases "ll_insert sid ?es") auto
  let ?h' = "h\<lparr>ll_lock := False, ll_entries := es, ll_size := ll_size h + 1\<rparr>"
  have "ll_AppendNewVersion gc_rule h sid e = (True, ?h')"
    using assms(2) gc es by (simp add: ll_AppendNewVersion_def Let_def)
  moreover have "ll_inv e ?h'" using ins es assms by (auto simp: ll_inv_def)
  moreover have "ll_abs e ?h' = put (ll_abs e h) sid kPendingValue"
  proof -
    have "map_of es v = ((map_of ?es)(sid \<mapsto> kPendingValue)) v" for v
      using map_of_ll_insert [OF srt assms(4), of v] es by simp
    moreover have "find (\<lambda>(v, d). epoch_of v < e) es = find (\<lambda>(v, d). epoch_of v < e) ?es"
      using find_ll_insert [OF assms(4) _ srt, of e] es assms(3) by simp
    ultimately show ?thesis using assms(3) by (auto simp: ll_abs_def put_def fun_eq_iff)
  qed
  ultimately show ?thesis by blast
qed

lemma ll_write_refines:
  assumes "ll_inv e h" "sid \<in> dom (cur (ll_abs e h))"
  shows "\<exists>h'. ll_WriteWithVersion h sid x False = (True, h') \<and> ll_inv e h' \<and> ll_abs e h' = put (ll_abs e h) sid x"
proof -
  let ?es = "ll_entries h"
  have d: "distinct (map fst ?es)" using assms(1) sorted_desc_distinct by (simp add: ll_inv_def)
  have e: "e \<le> epoch_of sid" "sid \<in> fst ` set ?es"
    using assms(2) dom_map_of_conv_image_fst [of ?es] by (auto simp: ll_abs_def split: if_splits)
  from ll_offer_Some [OF e(2) d, of x e] e(1) obtain es' where
    es: "ll_offer sid x ?es = Some es'" "map fst es' = map fst ?es"
      "\<And>v. map_of es' v = ((map_of ?es)(sid \<mapsto> x)) v"
      "find (\<lambda>(v, d). epoch_of v < e) es' = find (\<lambda>(v, d). epoch_of v < e) ?es" by blast
  have "length es' = length ?es" "fst ` set es' = fst ` set ?es"
    using arg_cong [OF es(2), of length] arg_cong [OF es(2), of set] by simp_all
  then have "ll_inv e (h\<lparr>ll_entries := es'\<rparr>)" using assms(1) es(2) by (simp add: ll_inv_def)
  moreover have "ll_abs e (h\<lparr>ll_entries := es'\<rparr>) = put (ll_abs e h) sid x"
    using es(3,4) e(1) by (auto simp: ll_abs_def put_def fun_eq_iff)
  ultimately show ?thesis using es(1) by (auto simp: ll_WriteWithVersion_def)
qed

lemma dropWhile_split:
  assumes "dropWhile P xs = y # ys"
  obtains zs where "xs = zs @ y # ys" "\<forall>z\<in>set zs. P z" "\<not> P y"
  using assms takeWhile_dropWhile_id [of P xs] hd_dropWhile [of P xs] set_takeWhileD
  by (metis list.discI list.sel(1))

lemma ll_read_visible:
  assumes inv: "ll_inv e h" and ep: "e \<le> epoch_of r"
  shows "ll_ReadWithVersion h r = visible (ll_abs e h) r"
proof -
  let ?es = "ll_entries h" and ?P = "\<lambda>(v :: u64, d :: u64). v \<ge> r"
  have srt: "sorted_wrt (>) (map fst ?es)" using inv by (simp add: ll_inv_def)
  have d: "distinct (map fst ?es)" using srt by (rule sorted_desc_distinct)
  have dom: "v \<in> dom (cur (ll_abs e h)) \<Longrightarrow> v \<in> fst ` set ?es \<and> e \<le> epoch_of v" for v
    using dom_map_of_conv_image_fst [of ?es] by (auto simp: ll_abs_def split: if_splits)
  have above: "e \<le> epoch_of v" if "r \<le> v" for v using epoch_of_mono [OF that] ep by simp
  show ?thesis
  proof (cases "dropWhile ?P ?es")
    case Nil
    then have all: "\<forall>x\<in>set ?es. ?P x" by (simp add: dropWhile_eq_Nil_conv)
    then have "\<not> v < r" if "v \<in> dom (cur (ll_abs e h))" for v using dom [OF that] by (auto simp: not_less)
    moreover have "find (\<lambda>(v, d). epoch_of v < e) ?es = None"
      using all above by (fastforce simp: find_None_iff not_less)
    moreover have "ll_ReadWithVersion h r = None" unfolding ll_ReadWithVersion_def Nil by simp
    ultimately show ?thesis by (auto simp: visible_def ll_abs_def)
  next
    case (Cons y ys)
    obtain v x where y: "y = (v, x)" by (cases y)
    from Cons obtain zs where es: "?es = zs @ (v, x) # ys" "\<forall>z\<in>set zs. ?P z" "v < r"
      unfolding y by (rule dropWhile_split) auto
    have later: "w < v" if "w \<in> fst ` set ys" for w using srt that unfolding es(1) by (auto simp: sorted_wrt_append)
    have nearest: "w \<le> v" if "w \<in> fst ` set ?es" "w < r" for w
    proof -
      from that(1) consider "w \<in> fst ` set zs" | "w = v" | "w \<in> fst ` set ys" unfolding es(1) by auto
      then show ?thesis
      proof cases
        case 1
        then show ?thesis using es(2) that(2) by auto
      next
        case 3
        then show ?thesis using later by (simp add: less_imp_le)
      qed simp
    qed
    show ?thesis
    proof (cases "e \<le> epoch_of v")
      case True
      have "(v, x) \<in> set ?es" unfolding es(1) by simp
      then have "map_of ?es v = Some x" using d by (simp add: map_of_eq_Some_iff)
      then have "cur (ll_abs e h) v = Some x" using True by (simp add: ll_abs_def)
      then have "visible (ll_abs e h) r = Some x"
        by (rule visible_nearest [OF _ es(3)]) (use dom nearest in blast)
      then show ?thesis using Cons y by (simp add: ll_ReadWithVersion_def)
    next
      case False
      have "\<not> w < r" if "w \<in> dom (cur (ll_abs e h))" for w
        using dom [OF that] nearest [of w] epoch_of_mono [of w v] False by auto
      moreover have "find (\<lambda>(v, d). epoch_of v < e) ?es = Some (v, x)"
      proof -
        have "find (\<lambda>(v, d). epoch_of v < e) zs = None"
          using es(2) above by (fastforce simp: find_None_iff not_less)
        then have "find (\<lambda>(v, d). epoch_of v < e) (zs @ (v, x) # ys) = Some (v, x)"
          using False by (induction zs) (auto split: if_splits)
        then show ?thesis unfolding es(1) .
      qed
      ultimately show ?thesis using Cons y by (auto simp: ll_ReadWithVersion_def visible_def ll_abs_def)
    qed
  qed
qed

definition ll_write_res :: "ll_handle \<Rightarrow> u64 \<Rightarrow> u64 \<Rightarrow> ll_handle res" where
  "ll_write_res h sid x =
     (case ll_WriteWithVersion h sid x False of (True, h') \<Rightarrow> Inr h' | (False, h') \<Rightarrow> Inl (Abort ''Diverging outcomes''))"

interpretation ll: mv_exec "ll_inv e" "ll_abs e" "\<lambda>s d. True" ll_write_res
  "\<lambda>h r. Inr (ll_ReadWithVersion h r)" "\<lambda>h r. e \<le> epoch_of r" for e
proof (unfold_locales, goal_cases)
  case (1 s sid d)
  then show ?case using ll_write_refines [of e s sid d] by (auto simp: ll_write_res_def)
next
  case (2 s r)
  then show ?case using ll_read_visible [of e s r] by simp
qed

text \<open>
  Garbage collection keeps what a reader sees as long as a version of the current epoch
  is before the reader.
\<close>

lemma ll_GarbageCollect_read:
  assumes "w \<in> fst ` set (ll_entries h)" "m \<le> w" "w < r" "ll_inv e h"
  shows "ll_ReadWithVersion (fst (ll_GarbageCollect m h)) r = ll_ReadWithVersion h r"
proof (cases "length (ll_entries h) \<le> 1")
  case False
  let ?es = "ll_entries h" and ?P = "\<lambda>(v :: u64, d :: u64). v \<ge> r" and ?K = "\<lambda>(v :: u64, d :: u64). v \<ge> m"
  have srt: "sorted_wrt (>) (map fst ?es)" using assms(4) by (simp add: ll_inv_def)
  from assms(1) obtain d where wd: "(w, d) \<in> set ?es" by auto
  have "(w, d) \<in> set (takeWhile ?K ?es)"
  proof (rule ccontr)
    assume n: "(w, d) \<notin> set (takeWhile ?K ?es)"
    then have in_old: "(w, d) \<in> set (dropWhile ?K ?es)"
      using wd takeWhile_dropWhile_id [of ?K ?es] by (metis UnE set_append)
    then obtain y ys where y: "dropWhile ?K ?es = y # ys" by (cases "dropWhile ?K ?es") auto
    then obtain zs where zs: "?es = zs @ y # ys" "\<not> ?K y" by (rule dropWhile_split)
    have "(w, d) = y \<or> (w, d) \<in> set ys" using in_old unfolding y by auto
    moreover have "\<forall>z\<in>set ys. fst z < fst y" using srt unfolding zs(1) by (simp add: sorted_wrt_append)
    ultimately have "w \<le> fst y" by (auto simp: less_imp_le)
    then show False using zs(2) assms(2) by (auto simp: split_beta)
  qed
  then have "dropWhile ?P (takeWhile ?K ?es @ dropWhile ?K ?es) = dropWhile ?P (takeWhile ?K ?es) @ dropWhile ?K ?es"
    by (rule dropWhile_append1) (use assms(3) in simp)
  moreover have "dropWhile ?P (takeWhile ?K ?es) \<noteq> []"
    using \<open>(w, d) \<in> set (takeWhile ?K ?es)\<close> assms(3)
    by (auto simp: dropWhile_eq_Nil_conv not_le intro!: bexI [of _ "(w, d)"])
  ultimately have "hd (dropWhile ?P ?es) = hd (dropWhile ?P (takeWhile ?K ?es))" "dropWhile ?P ?es \<noteq> []"
    "dropWhile ?P (takeWhile ?K ?es) \<noteq> []"
    by (simp_all only: takeWhile_dropWhile_id hd_append2 append_is_Nil_conv not_False_eq_True simp_thms)
  then have "(case dropWhile ?P ?es of [] \<Rightarrow> None | (v, d) # _ \<Rightarrow> Some d)
      = (case dropWhile ?P (takeWhile ?K ?es) of [] \<Rightarrow> None | (v, d) # _ \<Rightarrow> Some d)"
    by (cases "dropWhile ?P ?es"; cases "dropWhile ?P (takeWhile ?K ?es)") (auto simp del: dropWhile_eq_Nil_conv)
  then show ?thesis using False by (simp add: ll_ReadWithVersion_def ll_GarbageCollect_def Let_def)
qed (simp add: ll_GarbageCollect_def Let_def)

section \<open>CalvinVHandle\<close>

text \<open>
  One object and the ordered list of accesses to it: \<open>accesses\<close> holds \<open>sid * 2\<close> for a
  read and \<open>sid * 2 + 1\<close> for a write in the first \<open>cv_size\<close> of its \<open>cv_capacity\<close> words,
  and \<open>pos\<close> is the access whose turn it is.
\<close>

record calvin_handle =
  cv_lock :: bool
  cv_alloc_core :: nat
  cv_capacity :: nat
  cv_size :: nat
  cv_pos :: nat
  accesses :: "u64 list"
  cv_obj :: u64

text \<open>\<open>EnsureSpace\<close>; \<open>fresh\<close> is the memory that the region of the current core returns.\<close>

definition EnsureSpace :: "nat \<Rightarrow> u64 list \<Rightarrow> calvin_handle \<Rightarrow> calvin_handle" where
  "EnsureSpace core fresh h =
     (if cv_size h = cv_capacity h
      then h\<lparr>cv_capacity := cv_capacity h * 2,
             accesses := std_copy fresh 0 (accesses h) 0 (cv_capacity h), cv_alloc_core := core\<rparr>
      else h)"

text \<open>The scan \<open>while (i > 0 && accesses[i - 1] > last) i--\<close>.\<close>

fun calvin_slot :: "u64 list \<Rightarrow> u64 \<Rightarrow> nat \<Rightarrow> nat" where
  "calvin_slot xs lst 0 = 0"
| "calvin_slot xs lst (Suc i) = (if xs ! i > lst then calvin_slot xs lst i else Suc i)"

definition AppendNewAccess ::
  "(calvin_handle \<Rightarrow> u64 \<Rightarrow> nat \<Rightarrow> calvin_handle) \<Rightarrow> nat \<Rightarrow> u64 list \<Rightarrow> calvin_handle \<Rightarrow> u64 \<Rightarrow> nat \<Rightarrow> bool
   \<Rightarrow> bool \<times> calvin_handle" where
  "AppendNewAccess gc_rule core fresh h sid epoch_nr is_read =
     (if cv_lock h then (False, h)
      else
        let h1 = gc_rule (h\<lparr>cv_lock := True\<rparr>) sid epoch_nr;
            h2 = EnsureSpace core fresh (h1\<lparr>cv_size := cv_size h1 + 1\<rparr>);
            turn = (if is_read then push_bit 1 sid else push_bit 1 sid OR 1);
            n = cv_size h2;
            xs = (accesses h2)[n - 1 := turn];
            i = calvin_slot xs turn (n - 1);
            ys = (memmove xs (i + 1) i (n - i - 1))[i := turn]
        in (True, h2\<lparr>accesses := ys, cv_lock := False\<rparr>))"

text \<open>\<open>WaitForTurn\<close> returns when the access at \<open>pos\<close> is one of \<open>sid\<close>; \<open>None\<close>: still waiting.\<close>

definition WaitForTurn :: "calvin_handle \<Rightarrow> u64 \<Rightarrow> u64 option" where
  "WaitForTurn h sid = (let turn = accesses h ! cv_pos h in if drop_bit 1 turn = sid then Some turn else None)"

definition PeekForTurn :: "calvin_handle \<Rightarrow> u64 \<Rightarrow> bool" where
  "PeekForTurn h sid =
     (let it = std_lower_bound (accesses h) 0 (cv_size h) (push_bit 1 sid) in
      if it = cv_size h then False else drop_bit 1 (accesses h ! it) = sid)"

definition calvin_WriteWithVersion :: "calvin_handle \<Rightarrow> u64 \<Rightarrow> u64 \<Rightarrow> bool \<Rightarrow> calvin_handle option" where
  "calvin_WriteWithVersion h sid data dry_run =
     map_option (\<lambda>turn. if dry_run then h else h\<lparr>cv_obj := data, cv_pos := cv_pos h + 1\<rparr>) (WaitForTurn h sid)"

text \<open>\<open>ReadWithVersion\<close>: null when \<open>sid\<close> has no access, otherwise the object once it is its turn.\<close>

definition calvin_ReadWithVersion :: "calvin_handle \<Rightarrow> u64 \<Rightarrow> (u64 \<times> calvin_handle) option" where
  "calvin_ReadWithVersion h sid =
     (if \<not> PeekForTurn h sid then Some (0, h)
      else map_option (\<lambda>turn. (cv_obj h, if turn AND 1 = 0 then h\<lparr>cv_pos := cv_pos h + 1\<rparr> else h)) (WaitForTurn h sid))"

definition calvin_GarbageCollect :: "calvin_handle \<Rightarrow> calvin_handle" where
  "calvin_GarbageCollect h = h\<lparr>cv_size := 0, cv_pos := 0\<rparr>"

subsection \<open>The accesses are sorted\<close>

definition calvin_inv :: "calvin_handle \<Rightarrow> bool" where
  "calvin_inv h \<longleftrightarrow> length (accesses h) = cv_capacity h \<and> cv_size h < cv_capacity h \<and> sorted (take (cv_size h) (accesses h))"

lemma calvin_slot_spec:
  "calvin_slot xs t n \<le> n \<and> (\<forall>j. calvin_slot xs t n \<le> j \<and> j < n \<longrightarrow> t < xs ! j)
   \<and> (calvin_slot xs t n \<noteq> 0 \<longrightarrow> xs ! (calvin_slot xs t n - 1) \<le> t)"
proof (induction xs t n rule: calvin_slot.induct)
  case (2 xs t i)
  then show ?case by (auto simp: less_Suc_eq not_less)
qed simp

lemma calvin_insert:
  fixes t :: u64
  assumes "sorted (take n xs)" "n < length xs"
  defines "i \<equiv> calvin_slot (xs[n := t]) t n"
  defines "ys \<equiv> (memmove (xs[n := t]) (i + 1) i (n - i))[i := t]"
  shows "length ys = length xs" "take (Suc n) ys = insort t (take n xs)"
proof -
  have i: "i \<le> n" "\<And>j. i \<le> j \<Longrightarrow> j < n \<Longrightarrow> t < xs ! j" "i \<noteq> 0 \<Longrightarrow> xs ! (i - 1) \<le> t"
    using calvin_slot_spec [of "xs[n := t]" t n] assms(2) by (auto simp: i_def)
  have l: "length (memmove (xs[n := t]) (i + 1) i (n - i)) = length xs" using i(1) assms(2) by simp
  then show "length ys = length xs" by (simp add: ys_def)
  have nth: "ys ! j = (if j = i then t else if i < j \<and> j \<le> n then xs ! (j - 1) else xs ! j)" if "j \<le> n" for j
    using that i(1) assms(2) l by (auto simp: ys_def nth_list_update nth_memmove)
  have ys: "take (Suc n) ys = take i xs @ t # slice xs i n"
    by (rule nth_equalityI) (use i(1) assms(2) nth l in \<open>auto simp: ys_def nth_append nth_Cons'\<close>)
  have parts: "take i xs @ slice xs i n = take n xs" using take_append_slice [OF i(1)] .
  have "v \<le> t" if "v \<in> set (take i xs)" for v
  proof -
    from that obtain j where j: "j < i" "xs ! j = v" using assms(2) i(1) by (auto simp: in_set_conv_nth)
    then have "xs ! j \<le> xs ! (i - 1)" using i(1) assms(1,2) by (intro sorted_take_nth [of n]) auto
    then show ?thesis using i(3) j by auto
  qed
  moreover have "t \<le> v" if "v \<in> set (slice xs i n)" for v
    using that i(1,2) assms(2) by (auto simp: in_set_conv_nth less_imp_le)
  ultimately have "sorted (take (Suc n) ys)" unfolding ys
    using assms(1) by (auto simp: sorted_append simp flip: parts)
  moreover have "mset (take (Suc n) ys) = mset (insort t (take n xs))" unfolding ys by (simp flip: parts)
  ultimately show "take (Suc n) ys = insort t (take n xs)"
    using assms(1) by (metis properties_for_sort sort_key_id_if_sorted sorted_insort)
qed

lemma AppendNewAccess_sorted:
  assumes inv: "calvin_inv h" and lock: "\<not> cv_lock h" and fresh: "length fresh = 2 * cv_capacity h"
    and gc: "gc_rule (h\<lparr>cv_lock := True\<rparr>) sid e = h\<lparr>cv_lock := True\<rparr>"
  shows "\<exists>h'. AppendNewAccess gc_rule core fresh h sid e is_read = (True, h') \<and> calvin_inv h'
    \<and> take (cv_size h') (accesses h') =
        insort (if is_read then push_bit 1 sid else push_bit 1 sid OR 1) (take (cv_size h) (accesses h))"
proof -
  define t where "t = (if is_read then push_bit 1 sid else push_bit 1 sid OR 1)"
  define h2 where "h2 = EnsureSpace core fresh (h\<lparr>cv_lock := True, cv_size := cv_size h + 1\<rparr>)"
  define n where "n = cv_size h"
  have i: "length (accesses h) = cv_capacity h" "n < cv_capacity h" "sorted (take n (accesses h))"
    using inv by (auto simp: calvin_inv_def n_def)
  have h2: "cv_size h2 = Suc n" "length (accesses h2) = cv_capacity h2" "Suc n < cv_capacity h2"
    "take n (accesses h2) = take n (accesses h)"
    using i fresh by (auto simp: h2_def EnsureSpace_def n_def std_copy_def min_def)
  have "sorted (take n (accesses h2))" "n < length (accesses h2)" using h2 i by auto
  note ins = calvin_insert [OF this, of t]
  let ?i = "calvin_slot ((accesses h2)[n := t]) t n"
  let ?ys = "(memmove ((accesses h2)[n := t]) (?i + 1) ?i (n - ?i))[?i := t]"
  have "AppendNewAccess gc_rule core fresh h sid e is_read = (True, h2\<lparr>accesses := ?ys, cv_lock := False\<rparr>)"
  proof -
    have e2: "EnsureSpace core fresh ((h\<lparr>cv_lock := True\<rparr>)\<lparr>cv_size := cv_size (h\<lparr>cv_lock := True\<rparr>) + 1\<rparr>) = h2"
      by (simp add: h2_def)
    show ?thesis using lock h2(1) unfolding AppendNewAccess_def gc Let_def t_def [symmetric] e2 by simp
  qed
  moreover have "calvin_inv (h2\<lparr>accesses := ?ys, cv_lock := False\<rparr>)"
    using ins h2 i by (simp add: calvin_inv_def sorted_insort)
  ultimately show ?thesis using ins(2) h2 by (auto simp: n_def t_def)
qed

lemma drop_bit_1_iff:
  fixes a sid :: u64
  shows "drop_bit 1 a = sid \<longleftrightarrow> 2 * unat sid \<le> unat a \<and> unat a \<le> 2 * unat sid + 1"
proof -
  have "drop_bit 1 a = sid \<longleftrightarrow> unat a div 2 = unat sid"
    unfolding word_unat_eq_iff unat_drop_bit_eq by (simp add: drop_bit_eq_div)
  then show ?thesis by auto
qed

lemma PeekForTurn_iff:
  assumes inv: "calvin_inv h" and sid: "unat sid < 2 ^ 63"
  shows "PeekForTurn h sid \<longleftrightarrow> (\<exists>a\<in>set (take (cv_size h) (accesses h)). drop_bit 1 a = sid)"
proof -
  let ?n = "cv_size h" and ?xs = "accesses h" and ?v = "push_bit 1 sid"
  let ?it = "std_lower_bound ?xs 0 ?n ?v"
  have rs: "range_sorted ?xs 0 ?n" using inv by (intro range_sorted_prefix) (auto simp: calvin_inv_def)
  note lb = std_lower_bound_spec [OF rs le0]
  have v: "unat ?v = 2 * unat sid" using sid by (simp add: push_bit_eq_mult unat_word_ariths)
  have len: "?n \<le> length ?xs" using inv by (simp add: calvin_inv_def)
  show ?thesis
  proof
    assume "PeekForTurn h sid"
    then have "?it \<noteq> ?n" "drop_bit 1 (?xs ! ?it) = sid" by (auto simp: PeekForTurn_def Let_def split: if_splits)
    moreover have "?it < ?n" using lb(2) [of ?v] \<open>?it \<noteq> ?n\<close> by simp
    ultimately show "\<exists>a\<in>set (take ?n ?xs). drop_bit 1 a = sid"
      using len nth_mem [of ?it "take ?n ?xs"] by (intro bexI [of _ "?xs ! ?it"]) auto
  next
    assume "\<exists>a\<in>set (take ?n ?xs). drop_bit 1 a = sid"
    then obtain j where j: "j < ?n" "drop_bit 1 (?xs ! j) = sid" using len by (auto simp: in_set_conv_nth)
    have "?v \<le> ?xs ! j" using j(2) v unfolding drop_bit_1_iff by (simp add: word_le_nat_alt)
    then have le: "?it \<le> j" using lb(3) [of j ?v] by (meson leD leI le0)
    then have it: "?it < ?n" using j(1) by simp
    have "?v \<le> ?xs ! ?it" using lb(4) [of ?v ?it] it by simp
    moreover have "?xs ! ?it \<le> ?xs ! j" using rs le j(1) by (simp add: range_sorted_def)
    ultimately have "drop_bit 1 (?xs ! ?it) = sid"
      using j(2) v unfolding drop_bit_1_iff by (simp add: word_le_nat_alt)
    then show "PeekForTurn h sid" using it by (simp add: PeekForTurn_def Let_def)
  qed
qed

end
