(* ===== verification/Vhandle_Append.thy ===== *)
theory Vhandle_Append
  imports Vhandle
begin

text \<open>
  Inserting versions into a row keeps the version numbers sorted: what
  \<open>AbsorbNewVersionNoLock\<close>, \<open>IncreaseSize\<close> and \<open>AppendNewVersionNoLock\<close> of
  \<^verbatim>\<open>src/vhandle.cc\<close> do to the two halves of the version array.
\<close>

section \<open>Absorbing one version\<close>

lemma absorb_position:
  assumes "sorted (take e vs)" "e < length vs" "0 < e" and mark_def: "mark = (e - 1) div 1024 * 1024"
  shows "\<exists>i0 i. FastLowerBound vs mark e lst = Inr i0
    \<and> i = (if i0 = mark then std_lower_bound vs 0 mark lst else i0)
    \<and> i \<le> e \<and> (\<forall>j<i. vs ! j \<le> lst) \<and> (\<forall>j. i \<le> j \<and> j < e \<longrightarrow> lst \<le> vs ! j)"
proof -
  have mark: "mark < e" "e - mark \<le> 1024"
    using assms(3) mod_less_divisor [of 1024 "e - 1"] div_mult_mod_eq [of "e - 1" 1024]
    unfolding mark_def by linarith+
  have rs: "range_sorted vs 0 e" using assms by (intro range_sorted_prefix) auto
  have rs1: "range_sorted vs mark e" and rs0: "range_sorted vs 0 mark"
    using range_sorted_sub [OF rs] mark by auto
  let ?u = "std_upper_bound vs mark e lst" and ?l = "std_lower_bound vs 0 mark lst"
  have f: "FastLowerBound vs mark e lst = Inr ?u"
    using FastLowerBound_eq_upper_bound [OF rs1] mark assms(2) by simp
  note ub = std_upper_bound_spec [OF rs1 less_imp_le [OF mark(1)]]
  note lb = std_lower_bound_spec [OF rs0 le0]
  define i where "i = (if ?u = mark then ?l else ?u)"
  have "i \<le> e" using ub(2) [of lst] lb(2) [of lst] mark by (simp add: i_def)
  moreover have "vs ! j \<le> lst" if "j < i" for j
  proof (cases "?u = mark")
    case True
    then show ?thesis using that lb(3) [of j lst] by (simp add: i_def)
  next
    case False
    then have m: "vs ! mark \<le> lst" "mark < ?u" using ub(1) [of lst] ub(3) [of mark lst] by auto
    show ?thesis
    proof (cases "j < mark")
      case True
      then have "vs ! j \<le> vs ! mark" using rs mark by (simp add: range_sorted_def)
      then show ?thesis using m by simp
    next
      case nj: False
      then show ?thesis using that False ub(3) [of j lst] by (simp add: i_def)
    qed
  qed
  moreover have "lst \<le> vs ! j" if "i \<le> j" "j < e" for j
  proof (cases "?u = mark")
    case True
    then have "\<And>j. mark \<le> j \<Longrightarrow> j < e \<Longrightarrow> lst < vs ! j" using ub(4) [of lst] by simp
    then show ?thesis using that lb(4) [of lst j] True by (cases "j < mark") (auto simp: i_def less_imp_le)
  next
    case False
    then have "lst < vs ! j" using that ub(4) [of lst j] by (simp add: i_def)
    then show ?thesis by simp
  qed
  ultimately show ?thesis using f by (intro exI [of _ ?u] exI [of _ i]) (simp add: i_def)
qed

lemma absorb_move:
  fixes v :: 'a
  assumes "i \<le> e" "e + 1 + x \<le> length vs"
  defines "vs' \<equiv> (memmove vs (i + 1 + x) i (e - i))[i + x := v]"
  shows "length vs' = length vs" "take i vs' = take i vs"
    "slice vs' (i + x) (e + 1 + x) = v # slice vs i e"
    "drop (e + 1 + x) vs' = drop (e + 1 + x) vs"
proof -
  have l: "length (memmove vs (i + 1 + x) i (e - i)) = length vs" using assms by simp
  then show len: "length vs' = length vs" by (simp add: vs'_def)
  have nth: "vs' ! j = (if j = i + x then v else if i + 1 + x \<le> j \<and> j < e + 1 + x then vs ! (j - 1 - x) else vs ! j)"
    if "j < length vs" for j
    using that assms(1,2) l by (auto simp: vs'_def nth_list_update nth_memmove intro: arg_cong [of _ _ "nth vs"])
  show "take i vs' = take i vs"
    by (rule nth_equalityI) (use assms(1,2) len nth in auto)
  show "slice vs' (i + x) (e + 1 + x) = v # slice vs i e"
    by (rule nth_equalityI) (use assms(1,2) len nth in \<open>auto simp: nth_Cons' intro: arg_cong [of _ _ "nth vs"]\<close>)
  show "drop (e + 1 + x) vs' = drop (e + 1 + x) vs"
    by (rule nth_equalityI) (use assms(1,2) len nth in auto)
qed

text \<open>
  The effect of absorbing the version at \<open>e\<close> with shift \<open>x\<close>: position \<open>i\<close> splits the
  sorted prefix, the part behind it moves up and the version is put in front of it.
\<close>

lemma AbsorbNewVersionNoLock_spec:
  assumes "sorted (take e (versions h))" "e + 1 + x \<le> length (versions h)"
  obtains vs' i where "AbsorbNewVersionNoLock h e x = Inr (h\<lparr>versions := vs'\<rparr>, i)"
    "i \<le> e" "length vs' = length (versions h)" "take i vs' = take i (versions h)"
    "slice vs' (i + x) (e + 1 + x) = versions h ! e # slice (versions h) i e"
    "drop (e + 1 + x) vs' = drop (e + 1 + x) (versions h)"
    "\<forall>v\<in>set (take i (versions h)). v \<le> versions h ! e"
    "\<forall>v\<in>set (slice (versions h) i e). versions h ! e \<le> v"
proof (cases "e = 0")
  case True
  let ?vs' = "(versions h)[x := versions h ! 0]"
  have eq: "AbsorbNewVersionNoLock h e x = Inr (h\<lparr>versions := ?vs'\<rparr>, 0)"
  proof -
    have "rd (versions h) 0 = Inr (versions h ! 0)" using assms(2) by (intro rd_Inr) linarith
    then show ?thesis using True assms(2) by (simp add: AbsorbNewVersionNoLock_def Let_def)
  qed
  have "slice ?vs' (0 + x) (e + 1 + x) = versions h ! e # slice (versions h) 0 e"
    by (rule nth_equalityI) (use True assms(2) in auto)
  note sl = this
  show ?thesis
    by (rule that [OF eq]) (use sl True assms(2) in auto)
next
  case False
  let ?vs = "versions h"
  have "e < length ?vs" "0 < e" using assms(2) False by auto
  define mk where "mk = (e - 1) div 1024 * 1024"
  from absorb_position [OF assms(1) \<open>e < length ?vs\<close> \<open>0 < e\<close> mk_def, of "?vs ! e"] obtain i0 i where
    i: "FastLowerBound ?vs mk e (?vs ! e) = Inr i0" "i = (if i0 = mk then std_lower_bound ?vs 0 mk (?vs ! e) else i0)"
      "i \<le> e" "\<forall>j<i. ?vs ! j \<le> ?vs ! e" "\<forall>j. i \<le> j \<and> j < e \<longrightarrow> ?vs ! e \<le> ?vs ! j"
    by blast
  note m = absorb_move [OF i(3) assms(2), of "?vs ! e"]
  have ix: "i + x < length (memmove ?vs (i + 1 + x) i (e - i))" using i(3) assms(2) by simp
  have eq: "AbsorbNewVersionNoLock h e x =
    Inr (h\<lparr>versions := (memmove ?vs (i + 1 + x) i (e - i))[i + x := ?vs ! e]\<rparr>, i)"
    unfolding AbsorbNewVersionNoLock_def Let_def mk_def [symmetric] rd_Inr [OF \<open>e < length ?vs\<close>]
      res_bind_simps i(1) i(2) [symmetric] wr_Inr [OF ix] using False by simp
  show ?thesis
  proof (rule that [OF eq i(3) m])
    show "\<forall>v\<in>set (take i ?vs). v \<le> ?vs ! e"
      using i(3,4) assms(2) by (auto simp: in_set_conv_nth)
    show "\<forall>v\<in>set (slice ?vs i e). ?vs ! e \<le> v"
      using i(3,5) assms(2) by (auto simp: in_set_conv_nth)
  qed
qed

section \<open>Growing\<close>

text \<open>
  What the rows rely on from the allocator: a successful call for \<open>n\<close> words returns
  memory of \<open>n\<close> words.
\<close>

definition alloc_ok :: "env \<Rightarrow> bool" where
  "alloc_ok env \<longleftrightarrow> (\<forall>n p. alloc_words env n = Some p \<longrightarrow> length p = n)"

text \<open>
  \<open>h'\<close> is \<open>h\<close> without its first \<open>k\<close> versions and with room for \<open>delta\<close> more, whose
  objects are pending.
\<close>

definition grown :: "nat \<Rightarrow> nat \<Rightarrow> vhandle \<Rightarrow> vhandle \<Rightarrow> bool" where
  "grown delta k h h' \<longleftrightarrow> vh_shape h' \<and> k \<le> vsize h \<and> vsize h' = vsize h - k + delta
     \<and> take (vsize h - k) (versions h') = drop k (ver h)
     \<and> obj h' = drop k (obj h) @ replicate delta kPendingValue
     \<and> latest_version h' = latest_version h - int k
     \<and> vaddr h' = vaddr h \<and> inline_used h' = inline_used h \<and> nr_ondsplt h' = nr_ondsplt h
     \<and> buf_pos h' = buf_pos h \<and> cont_affinity h' = cont_affinity h"

definition slabs_same :: "gc \<Rightarrow> gc \<Rightarrow> bool" where
  "slabs_same g g' \<longleftrightarrow> g_slabs g' = g_slabs g \<and> gblks g' = gblks g \<and> collect_head g' = collect_head g"

lemma gc_frame_slabs: "gc_frame g g' \<Longrightarrow> slabs_same g g'"
  by (simp add: gc_frame_def slabs_same_def)

lemma slabs_same_trans: "slabs_same a b \<Longrightarrow> slabs_same b c \<Longrightarrow> slabs_same a c"
  by (simp add: slabs_same_def)

lemma slabs_same_inv: "slabs_same g g' \<Longrightarrow> slab_inv g' c = slab_inv g c \<and> regs g' c = regs g c"
  by (simp add: slabs_same_def slab_inv_def blk_ok_def regs_def blk_regs_def)

lemma new_cap_bounds:
  assumes "0 < n" "n \<le> 2 ^ 29"
  shows "n < 2 ^ (32 - clz32 n)" "2 ^ (32 - clz32 n) \<le> (2::nat) ^ 30"
proof -
  have b: "bit_len n \<le> 30" using bit_len_le [of n 30] assms(2) by simp
  then have e: "32 - clz32 n = bit_len n" by (simp add: clz32_def)
  show "n < 2 ^ (32 - clz32 n)" using bit_len_bounds [OF assms(1)] e by simp
  show "2 ^ (32 - clz32 n) \<le> (2::nat) ^ 30" unfolding e using b by (intro power_increasing) auto
qed

text \<open>The copy into the enlarged array keeps both halves.\<close>

lemma enlarge_halves:
  assumes "length vs = 2 * cap" "cap \<le> ncap" "length p = 2 * ncap" "n \<le> cap"
  defines "vs' \<equiv> std_copy (std_copy p 0 vs 0 cap) ncap vs cap (2 * cap)"
  shows "length vs' = 2 * ncap" "take n vs' = take n vs" "take n (drop ncap vs') = take n (drop cap vs)"
proof -
  have l1: "length (std_copy p 0 vs 0 cap) = 2 * ncap" using assms by simp
  then show l: "length vs' = 2 * ncap" using assms by (simp add: vs'_def)
  have nth: "vs' ! i = (if i < cap then vs ! i else if ncap \<le> i \<and> i < ncap + cap then vs ! (cap + (i - ncap)) else p ! i)"
    if "i < 2 * ncap" for i
    using that assms(1-4) l1 by (auto simp: vs'_def nth_std_copy)
  show "take n vs' = take n vs" by (rule nth_equalityI) (use assms(1-4) l nth in auto)
  show "take n (drop ncap vs') = take n (drop cap vs)"
    by (rule nth_equalityI) (use assms(1-4) l nth in auto)
qed

lemma fill_pending:
  fixes v :: 'a
  assumes "length vs = 2 * cap" "n + d \<le> cap"
  defines "vs' \<equiv> std_fill vs (cap + (n + d) - d) (cap + (n + d)) v"
  shows "length vs' = 2 * cap" "take n vs' = take n vs"
    "take (n + d) (drop cap vs') = take n (drop cap vs) @ replicate d v"
proof -
  have eq: "cap + (n + d) - d = cap + n" by simp
  show l: "length vs' = 2 * cap" using assms(1,2) by (simp add: vs'_def eq)
  have nth: "vs' ! i = (if cap + n \<le> i \<and> i < cap + (n + d) then v else vs ! i)" if "i < 2 * cap" for i
    using that assms(1,2) nth_std_fill [of "cap + n" "cap + (n + d)" vs i v] by (simp add: vs'_def eq)
  show "take n vs' = take n vs" by (rule nth_equalityI) (use assms(1,2) l nth in auto)
  show "take (n + d) (drop cap vs') = take n (drop cap vs) @ replicate d v"
    by (rule nth_equalityI) (use assms(1,2) l nth in \<open>auto simp: nth_append\<close>)
qed

text \<open>The handle between the two halves of \<open>grow\<close>: capacity is sufficient.\<close>

definition ensure_cap :: "env \<Rightarrow> gc \<times> vhandle \<Rightarrow> (gc \<times> vhandle) res" where
  "ensure_cap env = (\<lambda>(g, h).
     if vsize h > capacity h then
       let new_cap = max 8 (2 ^ (32 - clz32 (vsize h))) in
       (case EnlargePair64Array env g h new_cap of
          None \<Rightarrow> Inl (Abort ''Memory allocation failure'')
        | Some (g', new_versions) \<Rightarrow>
            Inr (g', h\<lparr>versions := new_versions, capacity := new_cap,
                       alloc_by_regionid := env_affinity env mod 256, versions_inline := False\<rparr>))
     else Inr (g, h))"

lemma grow_ensure_cap:
  "grow env delta (g, h) =
     res_bind (ensure_cap env (g, h\<lparr>vsize := u32_of (int (vsize h) + int delta)\<rparr>))
       (\<lambda>(g', h'). Inr (g', h'\<lparr>versions :=
          std_fill (versions h') (capacity h' + vsize h' - delta) (capacity h' + vsize h') kPendingValue\<rparr>))"
  by (simp add: grow_def ensure_cap_def Let_def)

lemma ensure_cap_spec:
  assumes len: "length (versions h) = 2 * capacity h" and cap: "4 \<le> capacity h" "capacity h \<le> 2 ^ 30"
    and n: "n \<le> capacity h" and sz: "vsize h \<le> 2 ^ 29" and al: "alloc_ok env"
    and res: "ensure_cap env (g, h) = Inr (g', h')"
  shows "\<exists>vs c r b. h' = h\<lparr>versions := vs, capacity := c, alloc_by_regionid := r, versions_inline := b\<rparr>
    \<and> length vs = 2 * c \<and> 4 \<le> c \<and> c \<le> 2 ^ 30 \<and> vsize h \<le> c \<and> n \<le> c \<and> slabs_same g g'
    \<and> take n vs = take n (versions h) \<and> take n (drop c vs) = take n (drop (capacity h) (versions h))"
proof (cases "vsize h > capacity h")
  case False
  then have "h' = h" "g' = g" using res by (auto simp: ensure_cap_def)
  then show ?thesis using False len cap n
    by (intro exI [of _ "versions h"] exI [of _ "capacity h"] exI [of _ "alloc_by_regionid h"] exI [of _ "versions_inline h"])
       (auto simp: slabs_same_def)
next
  case True
  define c where "c = max 8 (2 ^ (32 - clz32 (vsize h)) :: nat)"
  have c: "vsize h < c" "c \<le> 2 ^ 30" "4 \<le> c" using new_cap_bounds [of "vsize h"] True sz by (auto simp: c_def)
  from res True obtain p where p: "alloc_words env (2 * c) = Some p"
    by (auto simp: ensure_cap_def Let_def EnlargePair64Array_def c_def [symmetric] split: option.splits)
  define vs where "vs = std_copy (std_copy p 0 (versions h) 0 (capacity h)) c (versions h) (capacity h) (2 * capacity h)"
  have h': "h' = h\<lparr>versions := vs, capacity := c, alloc_by_regionid := env_affinity env mod 256, versions_inline := False\<rparr>"
    and "slabs_same g g'"
    using res True p by (auto simp: ensure_cap_def Let_def EnlargePair64Array_def c_def [symmetric] vs_def slabs_same_def split: if_splits)
  moreover have "length p = 2 * c" using al p by (simp add: alloc_ok_def)
  note enlarge_halves [OF len _ this n, folded vs_def]
  ultimately show ?thesis using c n True by (intro exI) (rule conjI, rule h', auto)
qed

lemma grow_spec:
  assumes sh: "vh_shape h" and sz: "vsize h + delta \<le> 2 ^ 29" and al: "alloc_ok env"
    and res: "grow env delta (g, h) = Inr (g', h')"
  shows "grown delta 0 h h' \<and> cur_start h' = cur_start h \<and> gc_handle h' = gc_handle h \<and> slabs_same g g'"
proof -
  have u: "u32_of (int (vsize h) + int delta) = vsize h + delta"
    using sz by (simp add: u32_of_def nat_add_distrib)
  let ?h0 = "h\<lparr>vsize := vsize h + delta\<rparr>"
  from res obtain g1 h1 where e: "ensure_cap env (g, ?h0) = Inr (g1, h1)" "g' = g1"
    "h' = h1\<lparr>versions := std_fill (versions h1) (capacity h1 + vsize h1 - delta) (capacity h1 + vsize h1) kPendingValue\<rparr>"
    by (auto simp: grow_ensure_cap u res_bind_Inr_iff)
  have "\<exists>vs c r b. h1 = ?h0\<lparr>versions := vs, capacity := c, alloc_by_regionid := r, versions_inline := b\<rparr>
    \<and> length vs = 2 * c \<and> 4 \<le> c \<and> c \<le> 2 ^ 30 \<and> vsize ?h0 \<le> c \<and> vsize h \<le> c \<and> slabs_same g g1
    \<and> take (vsize h) vs = take (vsize h) (versions ?h0)
    \<and> take (vsize h) (drop c vs) = take (vsize h) (drop (capacity ?h0) (versions ?h0))"
    by (rule ensure_cap_spec [OF _ _ _ _ _ al e(1)]) (use sh sz in \<open>auto simp: vh_shape_def\<close>)
  then obtain vs c r b where
    h1: "h1 = ?h0\<lparr>versions := vs, capacity := c, alloc_by_regionid := r, versions_inline := b\<rparr>"
    and c: "length vs = 2 * c" "4 \<le> c" "c \<le> 2 ^ 30" "vsize h + delta \<le> c" "slabs_same g g1"
    "take (vsize h) vs = ver h" "take (vsize h) (drop c vs) = obj h"
    by (auto simp: ver_def obj_def)
  define vs' where "vs' = std_fill vs (c + (vsize h + delta) - delta) (c + (vsize h + delta)) kPendingValue"
  note f = fill_pending [OF c(1,4), of kPendingValue, folded vs'_def, unfolded c(6,7)]
  have h': "h' = ?h0\<lparr>versions := vs', capacity := c, alloc_by_regionid := r, versions_inline := b\<rparr>"
    using e(3) h1 by (simp add: vs'_def)
  have "obj h' = obj h @ replicate delta kPendingValue"
    unfolding obj_def [of h'] using f(3) by (simp add: h')
  moreover have "vh_shape h'" using f(1) c(2-4) sh by (simp add: vh_shape_def h')
  ultimately have "grown delta 0 h h'" using f(2) unfolding grown_def by (simp add: h')
  then show ?thesis using c(5) e(2) by (simp add: h')
qed

lemma dropped_grown:
  assumes "dropped k h h1" "grown d 0 h1 h2"
  shows "grown d k h h2"
  using assms by (auto simp: grown_def dropped_def)

lemma grown_dropped:
  assumes "grown d k h h1" "dropped j h1 h2" "j \<le> vsize h - k"
  shows "grown d (k + j) h h2"
proof -
  have len: "length (drop k (obj h)) = vsize h - k"
    using assms(1) length_obj [of h1] by (auto simp: grown_def)
  have len1: "length (take (vsize h - k) (versions h1)) = vsize h - k"
  proof -
    have "vsize h - k \<le> length (versions h1)" using assms(1) by (auto simp: grown_def vh_shape_def)
    then show ?thesis by simp
  qed
  have v2: "vsize h2 = vsize h - k + d - j" "ver h2 = drop j (ver h1)" "vsize h1 = vsize h - k + d"
    using assms(1,2) by (auto simp: dropped_def grown_def)
  have "take (vsize h - (k + j)) (versions h2) = take (vsize h - (k + j)) (ver h2)"
    using v2(1) assms(3) by (simp add: ver_def min_def)
  also have "\<dots> = take (vsize h - (k + j)) (drop j (take (vsize h - k) (versions h1)))"
    using v2 assms(3) by (simp add: ver_def take_drop min_def)
  also have "\<dots> = drop j (drop k (ver h))"
    using assms(1,3) len1 by (simp add: grown_def)
  finally have "take (vsize h - (k + j)) (versions h2) = drop (k + j) (ver h)" by (simp add: add.commute)
  moreover have "obj h2 = drop (k + j) (obj h) @ replicate d kPendingValue"
    using assms len by (simp add: grown_def dropped_def add.commute)
  moreover have "k + j \<le> vsize h" "vsize h2 = vsize h - (k + j) + d"
    using assms(1,3) v2(1) by (auto simp: grown_def)
  moreover have "latest_version h2 = latest_version h - int (k + j)"
    using assms(1,2) by (simp add: grown_def dropped_def)
  ultimately show ?thesis using assms(1,2) unfolding grown_def dropped_def by presburger
qed

section \<open>The invariant of a row in an epoch\<close>

text \<open>The number of versions that earlier epochs left.\<close>

definition nold :: "nat \<Rightarrow> vhandle \<Rightarrow> nat" where
  "nold e h = length (filter (\<lambda>v. epoch_of v < e) (ver h))"

text \<open>
  \<open>vh_inv e h\<close>: the versions are sorted without duplicates, every version of an earlier epoch is before the
  latest written one, and \<open>cur_start\<close> is the first version of epoch \<open>e\<close> if there is one.
  \<open>vh_init e h\<close>: in addition nothing of epoch \<open>e\<close> has been written yet, as in the
  initialisation phase.
\<close>

definition vh_inv :: "nat \<Rightarrow> vhandle \<Rightarrow> bool" where
  "vh_inv e h \<longleftrightarrow> vh_shape h \<and> sorted (ver h) \<and> distinct (ver h) \<and> (\<forall>v\<in>set (ver h). epoch_of v \<le> e)
     \<and> int (nold e h) - 1 \<le> latest_version h \<and> latest_version h < int (vsize h)
     \<and> (nold e h < vsize h \<longrightarrow> cur_start h = nold e h)"

definition vh_init :: "nat \<Rightarrow> vhandle \<Rightarrow> bool" where
  "vh_init e h \<longleftrightarrow> vh_inv e h \<and> latest_version h = int (nold e h) - 1
     \<and> (\<forall>i. nold e h \<le> i \<and> i < vsize h \<longrightarrow> obj h ! i = kPendingValue)"

lemma sorted_epoch_prefix:
  assumes "sorted xs" "i < length xs"
  shows "epoch_of (xs ! i) < e \<longleftrightarrow> i < length (filter (\<lambda>v. epoch_of v < e) xs)"
  using assms
proof (induction xs arbitrary: i)
  case (Cons x xs)
  show ?case
  proof (cases "epoch_of x < e")
    case True
    then show ?thesis using Cons by (cases i) auto
  next
    case False
    have "\<not> epoch_of v < e" if "v \<in> set (x # xs)" for v
      using False Cons.prems(1) that epoch_of_mono [of x v] by fastforce
    then have "filter (\<lambda>v. epoch_of v < e) (x # xs) = []" "\<not> epoch_of ((x # xs) ! i) < e"
      using nth_mem [OF Cons.prems(2)] by (auto simp: filter_empty_conv)
    then show ?thesis by simp
  qed
qed simp

lemma nold_iff:
  "vh_shape h \<Longrightarrow> sorted (ver h) \<Longrightarrow> i < vsize h \<Longrightarrow> epoch_of (ver h ! i) < e \<longleftrightarrow> i < nold e h"
  using sorted_epoch_prefix [of "ver h" i e] by (simp add: nold_def)

lemma nold_le: "vh_shape h \<Longrightarrow> nold e h \<le> vsize h"
  using length_filter_le [of "\<lambda>v. epoch_of v < e" "ver h"] by (simp add: nold_def)

lemma length_filter_drop_prefix:
  assumes "\<And>i. i < length xs \<Longrightarrow> P (xs ! i) \<longleftrightarrow> i < n" "n \<le> length xs"
  shows "length (filter P (drop k xs)) = n - k"
proof (rule filter_prefix_count)
  show "n - k \<le> length (drop k xs)" using assms(2) by simp
qed (use assms in auto)

lemma nold_dropped:
  assumes "dropped k h h'" "vh_shape h" "sorted (ver h)"
  shows "nold e h' = nold e h - k"
proof -
  have "length (filter (\<lambda>v. epoch_of v < e) (drop k (ver h))) = nold e h - k"
    by (rule length_filter_drop_prefix) (use assms nold_iff nold_le in auto)
  then show ?thesis using assms(1) by (simp add: nold_def dropped_def)
qed

text \<open>Collecting a row never drops its newest old version.\<close>

lemma Collect_row_keeps:
  assumes "vh_shape h" "sorted (ver h)" "0 < vsize h" "Collect_row env g h e limit = Inr (g', h', k)"
  shows "k = 0 \<or> k < nold e h"
proof (cases k)
  case (Suc j)
  note c = Collect_row_spec [OF assms(1,3,4)]
  have "epoch_of (ver h ! k) < e" using c Suc by (metis Suc_eq_plus1 lessI)
  then show ?thesis using nold_iff [OF assms(1,2), of k e] c by simp
qed simp

section \<open>IncreaseSize\<close>

lemma collect_when_spec:
  assumes "vh_shape h" "sorted (ver h)" "c \<Longrightarrow> 0 < vsize h" "collect_when c env e limit (g, h) = Inr (g', h')"
  shows "\<exists>k. dropped k h h' \<and> k \<le> limit \<and> (k = 0 \<or> k < nold e h) \<and> gc_frame g g'"
proof (cases c)
  case True
  then obtain k where k: "Collect_row env g h e limit = Inr (g', h', k)"
    using assms(4) by (auto simp: collect_when_def res_bind_Inr_iff)
  then show ?thesis
    using Collect_row_spec [OF assms(1) assms(3) [OF True] k] Collect_row_keeps [OF assms(1,2) assms(3) [OF True] k]
    by blast
next
  case False
  then show ?thesis using assms dropped_0 by (auto simp: collect_when_def)
qed

text \<open>
  A collection whose limit is at most \<open>latest\<close> does not look at the versions behind the
  latest written one, so the entries that are not filled in yet do not matter.
\<close>

lemma grown_gc_handle: "grown d k h (h1\<lparr>gc_handle := x\<rparr>) = grown d k h h1"
  by (simp add: grown_def)

lemma renew_collect:
  assumes gr: "grown d k h h1" and lt: "latest_version h1 < int (vsize h - k)" "0 < latest_version h1"
    and res: "Collect_row env g h1 e (min 16384 (nat (latest_version h1))) = Inr (g', h2, j)"
  shows "grown d (k + j) h h2 \<and> int j \<le> latest_version h1 \<and> gc_frame g g'
    \<and> cur_start h2 = u32_of (int (cur_start h1) - int j) \<and> gc_handle h2 = gc_handle h1
    \<and> latest_version h2 = latest_version h1 - int j"
proof -
  have sh: "vh_shape h1" "0 < vsize h1" using gr lt by (auto simp: grown_def)
  note c = Collect_row_spec [OF sh res]
  have "j \<le> nat (latest_version h1)" using c by simp
  then have j: "int j \<le> latest_version h1" using lt(2) by linarith
  have "grown d (k + j) h h2" using grown_dropped [OF gr, of j h2] c j lt(1) by simp
  then show ?thesis using c j by (simp add: dropped_def)
qed

definition renewed :: "nat \<Rightarrow> nat \<Rightarrow> nat \<Rightarrow> vhandle \<Rightarrow> vhandle \<Rightarrow> bool" where
  "renewed d k n h h' \<longleftrightarrow> grown d k h h' \<and> (k = 0 \<or> k < n) \<and> cur_start h' = n - k"

lemma grown_cur_start: "x < 2 ^ 32 \<Longrightarrow> grown d k h h1 \<Longrightarrow> grown d k h (h1\<lparr>cur_start := x\<rparr>)"
  by (auto simp: grown_def vh_shape_def)

lemma renew_gc_spec:
  assumes gr: "grown d k h h1" and k: "k = 0 \<or> k < n" "n \<le> vsize h" "vsize h \<le> 2 ^ 30"
    and latest: "latest = int n - 1 - int k" "latest_version h1 = latest" "-1 \<le> latest"
    and res: "renew_gc env e hdl latest (g, h1) = Inr (g', h')"
  shows "\<exists>k'. renewed d k' n h h'"
proof -
  let ?h1 = "h1\<lparr>cur_start := u32_of (latest + 1)\<rparr>"
  have cs: "u32_of (latest + 1) = n - k" using latest k by (auto simp: u32_of_def)
  have gr1: "grown d k h ?h1" using grown_cur_start [OF _ gr, of "u32_of (latest + 1)"] by simp
  from res obtain g4 h4 where h4: "(if hdl \<noteq> 0 then
          res_bind (collect_when (latest > 0) env e (min 16384 (nat latest)) (g, ?h1)) (\<lambda>(g2, h2).
          res_bind (RemoveRow g2 hdl) (\<lambda>g3. Inr (g3, h2\<lparr>gc_handle := 0\<rparr>)))
        else Inr (g, ?h1)) = Inr (g4, h4)"
    and h': "h' = h4 \<or> (\<exists>x. h' = h4\<lparr>gc_handle := x\<rparr>)"
    by (auto simp: renew_gc_def Let_def res_bind_Inr_iff split: if_splits)
  have "\<exists>k'. renewed d k' n h h4"
  proof (cases "hdl \<noteq> 0 \<and> latest > 0")
    case True
    then obtain g2 h2 j where c: "Collect_row env g ?h1 e (min 16384 (nat latest)) = Inr (g2, h2, j)"
      "h4 = h2\<lparr>gc_handle := 0\<rparr>"
      using h4 by (auto simp: res_bind_Inr_iff collect_when_def split: if_splits)
    have "grown d (k + j) h h2 \<and> int j \<le> latest \<and> cur_start h2 = u32_of (int (n - k) - int j)"
    proof -
      have "latest_version ?h1 < int (vsize h - k)" "0 < latest_version ?h1"
        "Collect_row env g ?h1 e (min 16384 (nat (latest_version ?h1))) = Inr (g2, h2, j)"
        using c(1) latest k True by auto
      from renew_collect [OF gr1 this] show ?thesis using latest(2) cs by simp
    qed
    then show ?thesis
      using latest k c(2) by (intro exI [of _ "k + j"]) (auto simp: renewed_def grown_gc_handle u32_of_def)
  next
    case False
    then have "h4 = ?h1 \<or> h4 = ?h1\<lparr>gc_handle := 0\<rparr>"
    proof (cases "hdl = 0")
      case True
      then show ?thesis using h4 by simp
    next
      case hdl: False
      then have c: "\<not> latest > 0" using False by simp
      show ?thesis using h4 hdl by (auto simp: collect_when_def c res_bind_Inr_iff)
    qed
    then show ?thesis using gr1 k cs by (intro exI [of _ k]) (auto simp: renewed_def grown_gc_handle)
  qed
  then show ?thesis using h' by (auto simp: renewed_def grown_gc_handle)
qed

text \<open>
  In the initialisation phase \<open>IncreaseSize\<close> drops some of the versions of earlier
  epochs, but never the newest one, adds pending entries at the end and leaves
  \<open>cur_start\<close> at the first version of the epoch.
\<close>

lemma IncreaseSize_spec:
  assumes init: "vh_init e h" and sz: "vsize h + d \<le> 2 ^ 29" "d < 524288" and al: "alloc_ok env"
    and res: "IncreaseSize env d e (g, h) = Inr (g', h')"
  shows "\<exists>k. renewed d k (nold e h) h h'"
proof -
  have inv: "vh_shape h" "sorted (ver h)" "latest_version h = int (nold e h) - 1"
    using init by (auto simp: vh_init_def vh_inv_def)
  let ?c = "u32_of (int (vsize h) + int d) > capacity h \<and> capacity h \<ge> 524288"
  have "u32_of (int (vsize h) + int d) = vsize h + d" using sz by (simp add: u32_of_def nat_add_distrib)
  then have pos: "?c \<Longrightarrow> 0 < vsize h" using sz(2) by auto
  from res obtain g1 h1 g2 h2 where
    c: "collect_when ?c env e 16384 (g, h) = Inr (g1, h1)" and gr: "grow env d (g1, h1) = Inr (g2, h2)"
    and r: "(if cur_start h2 \<noteq> u32_of (latest_version h1 + 1)
             then renew_gc env e (gc_handle h) (latest_version h1) (g2, h2) else Inr (g2, h2)) = Inr (g', h')"
    by (auto simp: IncreaseSize_def res_bind_Inr_iff Let_def)
  from collect_when_spec [OF inv(1,2) pos c] obtain k where
    k: "dropped k h h1" "k = 0 \<or> k < nold e h" by blast
  have n: "nold e h \<le> vsize h" "vsize h \<le> 2 ^ 30" using nold_le inv(1) by (auto simp: vh_shape_def)
  have "vh_shape h1" "vsize h1 + d \<le> 2 ^ 29" "latest_version h1 = int (nold e h) - 1 - int k"
    using k(1) sz inv(3) by (auto simp: dropped_def)
  note h1 = this
  have g2: "grown d k h h2" using grow_spec [OF h1(1,2) al gr] dropped_grown [OF k(1)] by blast
  have l2: "latest_version h2 = latest_version h1" using g2 k(1) by (simp add: grown_def dropped_def)
  show ?thesis
  proof (cases "cur_start h2 \<noteq> u32_of (latest_version h1 + 1)")
    case True
    then have "renew_gc env e (gc_handle h) (latest_version h1) (g2, h2) = Inr (g', h')" using r by simp
    from renew_gc_spec [OF g2 k(2) n h1(3) l2 _ this] show ?thesis using k(2) h1(3) by auto
  next
    case False
    then have "h' = h2" "cur_start h2 = nold e h - k"
      using r h1(3) k(2) n by (auto simp: u32_of_def)
    then show ?thesis using g2 k(2) by (auto simp: renewed_def)
  qed
qed

section \<open>Appending a version\<close>

text \<open>The versions and objects of the current epoch as a whole after an append.\<close>

lemma sorted_absorb:
  assumes "sorted (xs @ ys)" "\<forall>v\<in>set xs. v \<le> (a :: 'a :: linorder)" "\<forall>v\<in>set ys. a \<le> v"
  shows "sorted (xs @ a # ys)"
  using assms by (auto simp: sorted_append)

lemma AppendNewVersionNoLock_versions:
  assumes init: "vh_init e h" and sz: "vsize h + 1 \<le> 2 ^ 29" and al: "alloc_ok env"
    and res: "AppendNewVersionNoLock env sid e w (g, h) = Inr (g', h')"
  shows "\<exists>k. (k = 0 \<or> k < nold e h) \<and> k \<le> vsize h \<and> vh_shape h' \<and> vsize h' = vsize h - k + 1
    \<and> ver h' = sort (drop k (ver h) @ [sid]) \<and> obj h' = drop k (obj h) @ [kPendingValue]
    \<and> latest_version h' = latest_version h - int k \<and> cur_start h' = nold e h - k
    \<and> vaddr h' = vaddr h \<and> inline_used h' = inline_used h"
proof -
  let ?h = "if w \<noteq> 0 then h\<lparr>nr_ondsplt := nr_ondsplt h + w\<rparr> else h"
  have same: "vh_init e ?h" "nold e ?h = nold e h" "ver ?h = ver h" "obj ?h = obj h" "vsize ?h = vsize h"
    "latest_version ?h = latest_version h" "vaddr ?h = vaddr h" "inline_used ?h = inline_used h"
    using init by (auto simp: vh_init_def vh_inv_def vh_shape_def nold_def ver_def obj_def)
  from res obtain g1 h1 h2 i where
    inc: "IncreaseSize env 1 e (g, ?h) = Inr (g1, h1)" and
    bk: "BookNewVersionNoLock h1 sid (vsize h1 - 1) = Inr h2" and
    ab: "AbsorbNewVersionNoLock h2 (vsize h2 - 1) 0 = Inr (h', i)"
    by (auto simp: AppendNewVersionNoLock_def Let_def res_bind_Inr_iff)
  from IncreaseSize_spec [OF same(1) _ _ al inc] sz same(2,5) obtain k where
    k: "grown 1 k ?h h1" "k = 0 \<or> k < nold e h" "cur_start h1 = nold e h - k"
    by (auto simp: renewed_def)
  let ?n = "vsize h - k"
  have h1: "vh_shape h1" "vsize h1 = ?n + 1" "take ?n (versions h1) = drop k (ver h)" "k \<le> vsize h"
    "obj h1 = drop k (obj h) @ [kPendingValue]"
    using k(1) same by (auto simp: grown_def)
  have len: "length (versions h1) = 2 * capacity h1" "?n + 1 \<le> capacity h1"
    using h1 by (auto simp: vh_shape_def)
  have h2: "h2 = h1\<lparr>versions := (versions h1)[?n := sid]\<rparr>"
    using bk h1(2) len by (auto simp: BookNewVersionNoLock_def res_bind_Inr_iff wr_eq_Inr_iff)
  have srt: "sorted (drop k (ver h))" using init by (simp add: vh_init_def vh_inv_def sorted_wrt_drop)
  then have s2: "sorted (take ?n (versions h2))" "?n + 1 + 0 \<le> length (versions h2)" "versions h2 ! ?n = sid"
    "take ?n (versions h2) = drop k (ver h)"
    using h1(3) len by (auto simp: h2)
  from AbsorbNewVersionNoLock_spec [OF s2(1,2)] obtain vs j where
    v: "AbsorbNewVersionNoLock h2 ?n 0 = Inr (h2\<lparr>versions := vs\<rparr>, j)" "j \<le> ?n" "length vs = length (versions h2)"
    "take j vs = take j (versions h2)" "slice vs (j + 0) (?n + 1 + 0) = sid # slice (versions h2) j ?n"
    "drop (?n + 1 + 0) vs = drop (?n + 1 + 0) (versions h2)"
    "\<forall>v\<in>set (take j (versions h2)). v \<le> sid" "\<forall>v\<in>set (slice (versions h2) j ?n). sid \<le> v"
    unfolding s2(3) by blast
  have h': "h' = h2\<lparr>versions := vs\<rparr>" using ab v(1) h1(2) by (simp add: h2)
  have "ver h' = take j vs @ slice vs j (?n + 1)"
    using v(2) h1(2) by (simp add: h' h2 ver_def take_append_slice)
  also have "\<dots> = take j (versions h2) @ sid # slice (versions h2) j ?n" using v(4,5) by simp
  finally have ver': "ver h' = take j (versions h2) @ sid # slice (versions h2) j ?n" .
  have parts: "take j (versions h2) @ slice (versions h2) j ?n = drop k (ver h)"
    using take_append_slice [OF v(2), of "versions h2"] s2(4) by (rule trans)
  have "sorted (ver h')" unfolding ver' by (rule sorted_absorb) (use parts srt v(7,8) in auto)
  moreover have "mset (ver h') = mset (drop k (ver h) @ [sid])" by (simp add: ver' flip: parts)
  ultimately have "ver h' = sort (drop k (ver h) @ [sid])" by (rule sorted_mset_unique)
  moreover have "drop (capacity h1) vs = drop (capacity h1) (versions h1)"
  proof -
    have "drop (capacity h1) vs = drop (capacity h1 - (?n + 1)) (drop (?n + 1) vs)" using len by simp
    also have "\<dots> = drop (capacity h1 - (?n + 1)) (drop (?n + 1) (versions h2))" using v(6) by simp
    also have "\<dots> = drop (capacity h1) (versions h1)" using len by (simp add: h2)
    finally show ?thesis .
  qed
  then have "obj h' = obj h1" by (simp add: h' h2 obj_def)
  moreover have "vh_shape h'" using h1(1) v(3) by (simp add: vh_shape_def h' h2)
  ultimately show ?thesis using h1 k same by (intro exI [of _ k]) (simp add: h' h2 grown_def)
qed

end
