(* ===== verification/Vhandle_Store.thy ===== *)
theory Vhandle_Store
  imports Vhandle_Append Mv_Store
begin

text \<open>
  A row implements the multi-version store of theory \<open>Mv_Store\<close>: reading finds the
  greatest version before the reader, writing changes the object of its own version only,
  appending adds a pending version, and collecting garbage is invisible to the
  transactions of the current and later epochs.
\<close>

section \<open>Abstraction\<close>

definition abs_row :: "nat \<Rightarrow> vhandle \<Rightarrow> epoch_store" where
  "abs_row e h =
     \<lparr> base = (if nold e h = 0 then None else Some (obj h ! (nold e h - 1))),
       cur = map_of (zip (drop (nold e h) (ver h)) (drop (nold e h) (obj h))) \<rparr>"

lemma ex_shift: "(\<exists>j<m - n. P (n + j)) \<longleftrightarrow> (\<exists>i. n \<le> i \<and> i < m \<and> P i)" for m n :: nat
proof
  assume "\<exists>i. n \<le> i \<and> i < m \<and> P i"
  then obtain i where "n \<le> i" "i < m" "P i" by blast
  then show "\<exists>j<m - n. P (n + j)" by (intro exI [of _ "i - n"]) auto
next
  assume "\<exists>j<m - n. P (n + j)"
  then obtain j where "j < m - n" "P (n + j)" by blast
  then show "\<exists>i. n \<le> i \<and> i < m \<and> P i" by (intro exI [of _ "n + j"]) auto
qed

lemma cur_abs_row:
  assumes "vh_shape h" "distinct (ver h)"
  shows "cur (abs_row e h) v = Some d \<longleftrightarrow> (\<exists>i. nold e h \<le> i \<and> i < vsize h \<and> ver h ! i = v \<and> obj h ! i = d)"
proof -
  let ?n = "nold e h"
  have n: "?n \<le> vsize h" using nold_le [OF assms(1)] .
  have "cur (abs_row e h) v = Some d \<longleftrightarrow> (v, d) \<in> set (zip (drop ?n (ver h)) (drop ?n (obj h)))"
    using assms by (simp add: abs_row_def map_of_eq_Some_iff)
  also have "\<dots> \<longleftrightarrow> (\<exists>j<vsize h - ?n. ver h ! (?n + j) = v \<and> obj h ! (?n + j) = d)"
    using assms(1) n by (auto simp: set_zip)
  also have "\<dots> \<longleftrightarrow> (\<exists>i. ?n \<le> i \<and> i < vsize h \<and> ver h ! i = v \<and> obj h ! i = d)"
    by (rule ex_shift)
  finally show ?thesis .
qed

lemma dom_cur_abs_row:
  assumes "vh_shape h"
  shows "dom (cur (abs_row e h)) = set (drop (nold e h) (ver h))"
  using assms by (simp add: abs_row_def dom_map_of_zip)

section \<open>Finding a version\<close>

definition count_lt :: "vhandle \<Rightarrow> u64 \<Rightarrow> nat" where
  "count_lt h sid = length (filter (\<lambda>v. v < sid) (ver h))"

lemma sorted_lt_prefix:
  assumes "sorted xs" "i < length xs"
  shows "(xs ! i < s) \<longleftrightarrow> i < length (filter (\<lambda>v. v < (s :: 'a :: linorder)) xs)"
  using assms
proof (induction xs arbitrary: i)
  case (Cons x xs)
  show ?case
  proof (cases "x < s")
    case True
    then show ?thesis using Cons by (cases i) auto
  next
    case False
    have "\<not> v < s" if "v \<in> set (x # xs)" for v using False Cons.prems(1) that by fastforce
    then have "filter (\<lambda>v. v < s) (x # xs) = []" "\<not> (x # xs) ! i < s"
      using nth_mem [OF Cons.prems(2)] by (auto simp: filter_empty_conv)
    then show ?thesis by simp
  qed
qed simp

lemma count_lt_iff:
  "vh_shape h \<Longrightarrow> sorted (ver h) \<Longrightarrow> i < vsize h \<Longrightarrow> versions h ! i < sid \<longleftrightarrow> i < count_lt h sid"
  using sorted_lt_prefix [of "ver h" i sid] by (simp add: count_lt_def)

lemma count_lt_le: "vh_shape h \<Longrightarrow> count_lt h sid \<le> vsize h"
  using length_filter_le [of "\<lambda>v. v < sid" "ver h"] by (simp add: count_lt_def)

lemma search_version_count:
  assumes "vh_shape h" "sorted (ver h)" "a \<le> count_lt h sid" "count_lt h sid \<le> b" "b \<le> vsize h"
  shows "search_version (versions h) a b sid = (if count_lt h sid = 0 then None else Some (count_lt h sid - 1))"
proof -
  have "range_sorted (versions h) 0 (vsize h)"
    using assms(1,2) by (intro range_sorted_prefix) (auto simp: ver_def vh_shape_def)
  then have "range_sorted (versions h) a b" by (rule range_sorted_sub) (use assms in auto)
  then have "std_lower_bound (versions h) a b sid = count_lt h sid"
    by (rule std_lower_bound_unique) (use assms count_lt_iff [OF assms(1,2)] in \<open>auto simp: not_less [symmetric]\<close>)
  then show ?thesis by (simp add: search_version_def)
qed

lemma nold_le_count:
  assumes "vh_shape h" "sorted (ver h)" "e \<le> epoch_of sid"
  shows "nold e h \<le> count_lt h sid"
proof (rule ccontr)
  assume "\<not> ?thesis"
  then have c: "count_lt h sid < nold e h" by simp
  then have "epoch_of (ver h ! count_lt h sid) < e"
    using nold_iff [OF assms(1,2)] nold_le [OF assms(1), of e] by simp
  then have "ver h ! count_lt h sid < sid" using assms(3) by (intro epoch_of_less) simp
  then show False using c count_lt_iff [OF assms(1,2), of "count_lt h sid" sid] nold_le [OF assms(1), of e] by simp
qed

text \<open>
  For a transaction of the current or a later epoch \<open>WithVersion\<close> returns the last
  version before it, unless the row has a single written version that is not before it.
\<close>

lemma WithVersion_count:
  assumes inv: "vh_inv e h" and ep: "e \<le> epoch_of sid" and sz: "0 < vsize h"
    and ok: "latest_version h \<noteq> 0 \<or> first_version h < sid"
  shows "WithVersion h sid = Inr (if count_lt h sid = 0 then None else Some (count_lt h sid - 1))"
proof -
  let ?c = "count_lt h sid" and ?vs = "versions h" and ?l = "latest_version h"
  have sh: "vh_shape h" "sorted (ver h)" "int (nold e h) - 1 \<le> ?l" "?l < int (vsize h)"
    "nold e h < vsize h \<Longrightarrow> cur_start h = nold e h" using inv by (auto simp: vh_inv_def)
  note iff = count_lt_iff [OF sh(1,2)] and cle = count_lt_le [OF sh(1), of sid]
  note n = nold_le_count [OF sh(1,2) ep]
  consider (neg) "?l < 0" | (after) "?l \<ge> 0" "sid > ?vs ! nat ?l" | (before) "?l \<ge> 0" "\<not> sid > ?vs ! nat ?l"
    by linarith
  then show ?thesis
  proof cases
    case neg
    then have "nold e h = 0" using sh(3) by simp
    then show ?thesis using neg sh(5) sz search_version_count [OF sh(1,2), of 0 sid "vsize h"] cle
      by (simp add: WithVersion_def Let_def)
  next
    case after
    then have l: "nat ?l < ?c" using iff [of "nat ?l" sid] sh(4) by simp
    show ?thesis
    proof (cases "nat ?l + 1 \<ge> vsize h \<or> sid \<le> ?vs ! (nat ?l + 1)")
      case True
      then have "?c = nat ?l + 1"
        using l cle iff [of "nat ?l + 1" sid] by (cases "nat ?l + 1 < vsize h") (auto simp: not_less [symmetric])
      then show ?thesis using True after by (auto simp: WithVersion_def Let_def)
    next
      case False
      then show ?thesis
        using after l cle search_version_count [OF sh(1,2), of "nat ?l + 1" sid "vsize h"]
        by (simp add: WithVersion_def Let_def)
    qed
  next
    case before
    then have l: "?c \<le> nat ?l" using iff [of "nat ?l" sid] sh(4) by simp
    have l0: "nat ?l \<noteq> 0"
      using ok before by (auto simp: first_version_def)
    show ?thesis
    proof (cases "?vs ! (nat ?l - 1) < sid")
      case True
      have "nat ?l - 1 < vsize h" using sh(4) before(1) l0 by linarith
      then have "nat ?l - 1 < ?c" using iff True by simp
      then have "?c = nat ?l" using l l0 by linarith
      then show ?thesis using True before l0 by (auto simp: WithVersion_def Let_def)
    next
      case False
      have "nold e h < vsize h" using n l sh(4) before(1) by linarith
      then show ?thesis
        using False before l0 l sh(4,5) n search_version_count [OF sh(1,2), of "nold e h" sid "nat ?l"]
        by (simp add: WithVersion_def Let_def)
    qed
  qed
qed

section \<open>Reading\<close>

lemma visible_abs_row:
  assumes inv: "vh_inv e h" and ep: "e \<le> epoch_of sid"
  shows "visible (abs_row e h) sid =
    (if count_lt h sid = 0 then None else Some (obj h ! (count_lt h sid - 1)))"
proof -
  let ?c = "count_lt h sid" and ?n = "nold e h"
  have sh: "vh_shape h" "sorted (ver h)" "distinct (ver h)" using inv by (auto simp: vh_inv_def)
  note iff = count_lt_iff [OF sh(1,2)] and cle = count_lt_le [OF sh(1), of sid]
  have n: "?n \<le> ?c" by (rule nold_le_count [OF sh(1,2) ep])
  show ?thesis
  proof (cases "?n < ?c")
    case True
    let ?i = "?c - 1"
    have i: "?n \<le> ?i" "?i < vsize h" using True cle by auto
    have "visible (abs_row e h) sid = Some (obj h ! ?i)"
    proof (rule visible_nearest)
      show "cur (abs_row e h) (ver h ! ?i) = Some (obj h ! ?i)" using cur_abs_row [OF sh(1,3)] i by blast
      show "ver h ! ?i < sid" using iff i True by simp
      fix w assume "w \<in> dom (cur (abs_row e h))" "w < sid"
      then obtain j where j: "j < vsize h" "ver h ! j = w" "ver h ! j < sid"
        using cur_abs_row [OF sh(1,3)] by auto
      then have "j \<le> ?i" using iff by fastforce
      then show "w \<le> ver h ! ?i" using j(2) sorted_nth_mono [OF sh(2), of j ?i] i(2) sh(1) by simp
    qed
    then show ?thesis using True by simp
  next
    case False
    then have c: "?c = ?n" using n by simp
    have "\<not> v < sid" if "v \<in> dom (cur (abs_row e h))" for v
    proof -
      from that obtain j where "?n \<le> j" "j < vsize h" "ver h ! j = v" using cur_abs_row [OF sh(1,3)] by auto
      then show ?thesis using iff [of j sid] c by auto
    qed
    then show ?thesis using c by (auto simp: visible_def abs_row_def)
  qed
qed

text \<open>The object word of the version a transaction reads, before waiting for it.\<close>

definition peek :: "vhandle \<Rightarrow> u64 \<Rightarrow> u64 option res" where
  "peek h sid = res_bind (WithVersion h sid) (\<lambda>p. case p of
       None \<Rightarrow> Inr None
     | Some pos \<Rightarrow> res_bind (rd (versions h) (capacity h + pos)) (\<lambda>v. Inr (Some v)))"

lemma peek_visible:
  assumes inv: "vh_inv e h" and ep: "e \<le> epoch_of sid" and sz: "0 < vsize h"
    and ok: "latest_version h \<noteq> 0 \<or> first_version h < sid"
  shows "peek h sid = Inr (visible (abs_row e h) sid)"
proof -
  have sh: "vh_shape h" using inv by (simp add: vh_inv_def)
  let ?c = "count_lt h sid"
  have "?c - 1 < vsize h" using count_lt_le [OF sh, of sid] sz by linarith
  then have "capacity h + (?c - 1) < length (versions h)" "obj h ! (?c - 1) = versions h ! (capacity h + (?c - 1))"
    using sh by (auto simp: vh_shape_def)
  then show ?thesis
    using WithVersion_count [OF assms] visible_abs_row [OF inv ep] by (simp add: peek_def)
qed

section \<open>Writing\<close>

text \<open>
  The execution phase: the word behind the last version, which the fast path of
  \<open>WriteWithVersion\<close> may look at, is not one of the row's versions.
\<close>

definition vh_exec :: "nat \<Rightarrow> vhandle \<Rightarrow> bool" where
  "vh_exec e h \<longleftrightarrow> vh_inv e h \<and> 0 < vsize h \<and> versions h ! vsize h \<notin> set (ver h)"

lemma write_position:
  assumes ex: "vh_exec e h" and k: "nold e h \<le> k" "k < vsize h" "ver h ! k = sid"
  shows "res_bind (rd (versions h) (nat (latest_version h + 1))) (\<lambda>v.
       if v \<noteq> sid then
          let it = std_lower_bound (versions h) (cur_start h) (vsize h) sid in
          if it = vsize h \<or> versions h ! it \<noteq> sid then Inl (Abort ''Diverging outcomes'') else Inr it
        else Inr (nat (latest_version h + 1))) = Inr k"
proof -
  let ?p = "nat (latest_version h + 1)"
  have sh: "vh_shape h" "sorted (ver h)" "distinct (ver h)" "latest_version h < int (vsize h)"
    "int (nold e h) - 1 \<le> latest_version h" "cur_start h = nold e h"
    using ex k by (auto simp: vh_exec_def vh_inv_def)
  have p: "?p \<le> vsize h" "?p < length (versions h)" using sh by (auto simp: vh_shape_def)
  show ?thesis
  proof (cases "versions h ! ?p = sid")
    case True
    have "sid \<in> set (ver h)" using k nth_mem [of k "ver h"] sh(1) by auto
    then have lt: "?p < vsize h" using True ex p(1) by (cases "?p = vsize h") (auto simp: vh_exec_def)
    then have "?p = k" using True k sh(1,3) nth_eq_iff_index_eq [of "ver h" ?p k] by simp
    then show ?thesis using True p by simp
  next
    case False
    have rs: "range_sorted (versions h) (nold e h) (vsize h)"
      using sh(1,2) by (intro range_sorted_sub [OF range_sorted_prefix]) (auto simp: ver_def vh_shape_def)
    have "std_lower_bound (versions h) (nold e h) (vsize h) sid = k"
    proof (rule std_lower_bound_unique [OF rs])
      show "versions h ! i < sid" if "nold e h \<le> i" "i < k" for i
        using sorted_nth_mono [OF sh(2), of i k] nth_eq_iff_index_eq [OF sh(3), of i k] that k sh(1) by force
      show "sid \<le> versions h ! i" if "k \<le> i" "i < vsize h" for i
        using sorted_nth_mono [OF sh(2), of k i] that k sh(1) by simp
    qed (use k in auto)
    then show ?thesis using False p k sh(6) by (simp add: Let_def)
  qed
qed

definition stored :: "nat \<Rightarrow> u64 \<Rightarrow> vhandle \<Rightarrow> vhandle" where
  "stored k d h = h\<lparr>versions := (versions h)[capacity h + k := d],
                    latest_version := (if int k > latest_version h then int k else latest_version h)\<rparr>"

lemma stored_halves:
  assumes "vh_shape h" "k < vsize h"
  shows "ver (stored k d h) = ver h" "obj (stored k d h) = (obj h)[k := d]" "vh_shape (stored k d h)"
proof -
  have c: "vsize h \<le> capacity h" "length (versions h) = 2 * capacity h" using assms by (auto simp: vh_shape_def)
  show "ver (stored k d h) = ver h" using c by (simp add: ver_def stored_def)
  show "obj (stored k d h) = (obj h)[k := d]" using c assms(2) by (simp add: obj_def stored_def drop_update_swap take_update_swap)
  show "vh_shape (stored k d h)" using assms(1) by (simp add: vh_shape_def stored_def)
qed

lemma stored_inv:
  assumes "vh_inv e h" "nold e h \<le> k" "k < vsize h"
  shows "vh_inv e (stored k d h)" "nold e (stored k d h) = nold e h"
proof -
  have sh: "vh_shape h" using assms by (simp add: vh_inv_def)
  show n: "nold e (stored k d h) = nold e h" using stored_halves(1) [OF sh assms(3)] by (simp add: nold_def)
  show "vh_inv e (stored k d h)"
    using assms n stored_halves [OF sh assms(3), of d] by (auto simp: vh_inv_def) (auto simp: stored_def)
qed

lemma stored_exec:
  assumes "vh_exec e h" "nold e h \<le> k" "k < vsize h" "d \<notin> set (ver h)"
  shows "vh_exec e (stored k d h)"
proof -
  have sh: "vh_shape h" using assms by (simp add: vh_exec_def vh_inv_def)
  have "versions (stored k d h) ! vsize h = (if vsize h = capacity h + k then d else versions h ! vsize h)"
    using sh assms(3) by (auto simp: stored_def vh_shape_def nth_list_update)
  then have "versions (stored k d h) ! vsize h \<notin> set (ver h)" using assms(1,4) by (auto simp: vh_exec_def)
  then show ?thesis
    using assms stored_inv(1) [of e h k d] stored_halves(1) [OF sh assms(3)]
    by (simp add: vh_exec_def) (simp add: stored_def)
qed

lemma stored_abs:
  assumes "vh_inv e h" "nold e h \<le> k" "k < vsize h" "ver h ! k = sid"
  shows "abs_row e (stored k d h) = put (abs_row e h) sid d"
proof -
  have sh: "vh_shape h" "distinct (ver h)" using assms by (auto simp: vh_inv_def)
  note st = stored_halves [OF sh(1) assms(3), of d] and n = stored_inv(2) [OF assms(1-3), of d]
  have sz: "vsize (stored k d h) = vsize h" by (simp add: stored_def)
  have "cur (abs_row e (stored k d h)) v = ((cur (abs_row e h))(sid \<mapsto> d)) v" for v
  proof (cases "v = sid")
    case True
    have "cur (abs_row e (stored k d h)) sid = Some d"
      using cur_abs_row [OF st(3), of e sid d] st n sz assms sh by (auto intro!: exI [of _ k])
    then show ?thesis using True by simp
  next
    case False
    have "cur (abs_row e (stored k d h)) v = Some x \<longleftrightarrow> cur (abs_row e h) v = Some x" for x
    proof -
      have "i < vsize h \<Longrightarrow> ver h ! i = v \<Longrightarrow> (obj h)[k := d] ! i = obj h ! i" for i
        using False assms(4) by (cases "i = k") auto
      then show ?thesis
        using cur_abs_row [OF st(3), of e v x] cur_abs_row [OF sh, of e v x] st n sz sh(2) by auto
    qed
    then show ?thesis using False by (cases "cur (abs_row e h) v"; cases "cur (abs_row e (stored k d h)) v") auto
  qed
  moreover have "base (abs_row e (stored k d h)) = base (abs_row e h)"
    using assms(2) st(2) n by (auto simp: abs_row_def)
  ultimately show ?thesis by (simp add: put_def fun_eq_iff)
qed

text \<open>What the collector has to provide for a row that becomes garbage.\<close>

definition gc_room :: "env \<Rightarrow> nat \<Rightarrow> gc \<Rightarrow> bool" where
  "gc_room env e g \<longleftrightarrow> e \<noteq> 0 \<and> slab_inv g (env_core env) \<and> e mod g_gc_every_epoch env < 200
     \<and> (half_q (g_slabs g ! env_core env) ! (e mod g_gc_every_epoch env) \<noteq> [] \<or> free_q (g_slabs g ! env_core env) \<noteq> [])"

lemma AddRow_room:
  assumes "gc_room env e g"
  shows "\<exists>g' hdl. AddRow env g row e = Inr (g', hdl) \<and> hdl \<noteq> 0"
proof -
  from slab_Add_registers [of g "env_core env" "e mod g_gc_every_epoch env" row] assms
  obtain g' hdl where a: "slab_Add g (env_core env) row (e mod g_gc_every_epoch env) = Inr (g', hdl)"
    "slab_inv g' (env_core env)" "regs g' (env_core env) = insert (hdl, row) (regs g (env_core env))"
    by (auto simp: gc_room_def)
  have "(hdl, row) \<in> regs g' (env_core env)" using a(3) by simp
  from slot_of_regs [OF a(2) this] obtain b i where "hdl = row_slot b i" "block_aligned b" "i < 59" by blast
  then have "unat hdl \<noteq> 0" using unat_row_slot [of b i] by simp
  then have "hdl \<noteq> 0" by auto
  then show ?thesis using a(1) assms by (auto simp: AddRow_def gc_room_def)
qed

definition exec_inv :: "env \<Rightarrow> nat \<Rightarrow> gc \<times> vhandle \<Rightarrow> bool" where
  "exec_inv env e = (\<lambda>(g, h). vh_exec e h \<and> (gc_handle h \<noteq> 0 \<or> gc_room env e g))"

text \<open>An object pointer that may be written: not a serial id of the row, not stray.\<close>

definition good_obj :: "gc \<times> vhandle \<Rightarrow> u64 \<Rightarrow> bool" where
  "good_obj = (\<lambda>(g, h) d. d \<notin> set (ver h) \<and> \<not> stray_ptr h d)"

lemma vh_exec_update:
  "vh_exec e (h\<lparr>gc_handle := x\<rparr>) = vh_exec e h" "vh_exec e (h\<lparr>nr_ondsplt := n\<rparr>) = vh_exec e h"
  "vh_exec e (h\<lparr>cont_affinity := a\<rparr>) = vh_exec e h"
  "vh_exec e (h\<lparr>nr_ondsplt := n, cont_affinity := a\<rparr>) = vh_exec e h"
  by (simp_all add: vh_exec_def vh_inv_def nold_def)

lemma WriteWithVersion_stored:
  assumes ex: "exec_inv env e (g, h)" and k: "nold e h \<le> k" "k < vsize h" "ver h ! k = sid"
    and d: "good_obj (g, h) d"
  shows "\<exists>g' h'. WriteWithVersion env sid d e (g, h) = Inr (g', h') \<and> exec_inv env e (g', h')
    \<and> (\<exists>hdl n a. h' = (stored k d h)\<lparr>gc_handle := hdl, nr_ondsplt := n, cont_affinity := a\<rparr>)"
proof -
  have vx: "vh_exec e h" using ex by (simp add: exec_inv_def)
  then have sh: "vh_shape h" by (simp add: vh_exec_def vh_inv_def)
  have pos: "capacity h + k < length (versions h)" using sh k by (auto simp: vh_shape_def)
  let ?h1 = "stored k d h"
  have vx1: "vh_exec e ?h1" by (rule stored_exec [OF vx k(1,2)]) (use d in \<open>simp add: good_obj_def\<close>)
  have stray: "\<not> stray_ptr ?h1 d" using d by (simp add: good_obj_def stray_ptr_def stored_def is_inlined_def)
  have w: "WriteWithVersion env sid d e (g, h) =
    (if int k = int (vsize h) - 1 then Inr (g, ?h1\<lparr>nr_ondsplt := 0, cont_affinity := -1\<rparr>)
     else if is_garbage ?h1 d \<and> gc_handle ?h1 = 0
       then res_bind (AddRow env g (vaddr ?h1) e) (\<lambda>(g', hdl). Inr (g', ?h1\<lparr>gc_handle := hdl\<rparr>))
       else Inr (g, ?h1))"
  proof -
    have "res_bind (rd (versions h) (nat (latest_version h + 1))) (\<lambda>v. res_bind (P v) Q)
        = res_bind (res_bind (rd (versions h) (nat (latest_version h + 1))) P) Q"
      for P :: "u64 \<Rightarrow> nat res" and Q :: "nat \<Rightarrow> (gc \<times> vhandle) res"
      by (cases "rd (versions h) (nat (latest_version h + 1))") auto
    note assoc = this
    show ?thesis
      unfolding WriteWithVersion_def Let_def prod.case assoc write_position [OF vx k, unfolded Let_def]
        res_bind_simps wr_Inr [OF pos] stored_def [symmetric] IsDataGarbage_eq
      using stray by simp
  qed
  have h1: "gc_handle ?h1 = gc_handle h" by (simp add: stored_def)
  show ?thesis
  proof (cases "int k \<noteq> int (vsize h) - 1 \<and> is_garbage ?h1 d \<and> gc_handle h = 0")
    case True
    then have "gc_room env e g" using ex by (simp add: exec_inv_def)
    from AddRow_room [OF this, of "vaddr ?h1"] obtain g' hdl where
      a: "AddRow env g (vaddr ?h1) e = Inr (g', hdl)" "hdl \<noteq> 0" by blast
    have "\<exists>x n c. ?h1\<lparr>gc_handle := hdl\<rparr> = ?h1\<lparr>gc_handle := x, nr_ondsplt := n, cont_affinity := c\<rparr>"
      by (rule exI [of _ hdl], rule exI [of _ "nr_ondsplt ?h1"], rule exI [of _ "cont_affinity ?h1"]) simp
    moreover have "WriteWithVersion env sid d e (g, h) = Inr (g', ?h1\<lparr>gc_handle := hdl\<rparr>)"
      using w True a h1 by simp
    moreover have "exec_inv env e (g', ?h1\<lparr>gc_handle := hdl\<rparr>)"
      using a(2) vx1 by (simp add: exec_inv_def vh_exec_update)
    ultimately show ?thesis by blast
  next
    case False
    then have "WriteWithVersion env sid d e (g, h) = Inr (g, ?h1\<lparr>nr_ondsplt := 0, cont_affinity := -1\<rparr>)
      \<or> WriteWithVersion env sid d e (g, h) = Inr (g, ?h1)" using w h1 by auto
    moreover have "exec_inv env e (g, ?h1)" "exec_inv env e (g, ?h1\<lparr>nr_ondsplt := 0, cont_affinity := -1\<rparr>)"
      using ex h1 vx1 vh_exec_update by (auto simp: exec_inv_def)
    moreover have "?h1 = ?h1\<lparr>gc_handle := gc_handle ?h1, nr_ondsplt := nr_ondsplt ?h1, cont_affinity := cont_affinity ?h1\<rparr>"
      "?h1\<lparr>nr_ondsplt := 0, cont_affinity := -1\<rparr> = ?h1\<lparr>gc_handle := gc_handle ?h1, nr_ondsplt := 0, cont_affinity := -1\<rparr>"
      by simp_all
    ultimately show ?thesis by metis
  qed
qed

lemma vh_update_abs:
  "abs_row e (h\<lparr>gc_handle := x, nr_ondsplt := n, cont_affinity := a\<rparr>) = abs_row e h"
  by (simp add: abs_row_def nold_def)

theorem WriteWithVersion_refines:
  assumes "exec_inv env e (g, h)" "sid \<in> dom (cur (abs_row e h))" "good_obj (g, h) d"
  shows "\<exists>g' h'. WriteWithVersion env sid d e (g, h) = Inr (g', h') \<and> exec_inv env e (g', h')
    \<and> abs_row e h' = put (abs_row e h) sid d \<and> ver h' = ver h \<and> vaddr h' = vaddr h \<and> inline_used h' = inline_used h"
proof -
  have inv: "vh_inv e h" "vh_shape h" "distinct (ver h)" using assms(1) by (auto simp: exec_inv_def vh_exec_def vh_inv_def)
  from assms(2) obtain k where k: "nold e h \<le> k" "k < vsize h" "ver h ! k = sid"
    using cur_abs_row [OF inv(2,3)] by blast
  from WriteWithVersion_stored [OF assms(1) k assms(3)] obtain g' hdl n a where
    w: "WriteWithVersion env sid d e (g, h) = Inr (g', (stored k d h)\<lparr>gc_handle := hdl, nr_ondsplt := n, cont_affinity := a\<rparr>)"
      "exec_inv env e (g', (stored k d h)\<lparr>gc_handle := hdl, nr_ondsplt := n, cont_affinity := a\<rparr>)"
    by auto
  show ?thesis using w stored_abs [OF inv(1) k] stored_halves(1) [OF inv(2) k(2)]
    by (simp add: vh_update_abs) (simp add: stored_def)
qed

interpretation row: mv_exec "exec_inv env e" "\<lambda>(g, h). abs_row e h" good_obj
  "\<lambda>s sid d. WriteWithVersion env sid d e s" "\<lambda>(g, h). peek h"
  "\<lambda>(g, h) r. e \<le> epoch_of r \<and> first_version h < r" for env e
proof (unfold_locales, goal_cases)
  case (1 s sid d)
  obtain g h where s: "s = (g, h)" by (cases s)
  have sz: "0 < vsize h" using 1(1) s by (auto simp: exec_inv_def vh_exec_def)
  from WriteWithVersion_refines [of env e g h sid d] 1 s obtain g' h' where
    w: "WriteWithVersion env sid d e (g, h) = Inr (g', h')" "exec_inv env e (g', h')"
      "abs_row e h' = put (abs_row e h) sid d" "ver h' = ver h" "vaddr h' = vaddr h" "inline_used h' = inline_used h"
    by auto
  have sz': "0 < vsize h'" using w(2) by (auto simp: exec_inv_def vh_exec_def)
  have "first_version h' = first_version h"
    using arg_cong [OF w(4), of "\<lambda>l. l ! 0"] sz sz' by (simp add: first_version_def)
  then show ?case
    using w s by (auto simp: good_obj_def stray_ptr_def is_inlined_def)
next
  case (2 s r)
  then show ?case by (cases s) (auto simp: exec_inv_def vh_exec_def intro!: peek_visible)
qed

section \<open>Appending and collecting\<close>

lemma set_drop_nold:
  assumes "vh_shape h" "sorted (ver h)"
  shows "set (drop (nold e h) (ver h)) = {v \<in> set (ver h). e \<le> epoch_of v}"
proof -
  note iff = nold_iff [OF assms, where e = e]
  show ?thesis
  proof (intro set_eqI iffI)
    fix v assume "v \<in> set (drop (nold e h) (ver h))"
    then obtain i where i: "i < vsize h - nold e h" "ver h ! (nold e h + i) = v"
      using assms(1) by (auto simp: in_set_conv_nth)
    then have "nold e h + i < vsize h" by simp
    then show "v \<in> {v \<in> set (ver h). e \<le> epoch_of v}"
      using iff [of "nold e h + i"] i(2) assms(1) nth_mem [of "nold e h + i" "ver h"] by (auto simp: not_less)
  next
    fix v assume "v \<in> {v \<in> set (ver h). e \<le> epoch_of v}"
    then obtain i where i: "i < vsize h" "ver h ! i = v" "e \<le> epoch_of (ver h ! i)"
      using assms(1) by (auto simp: in_set_conv_nth)
    then have "nold e h \<le> i" using iff [of i] by simp
    then show "v \<in> set (drop (nold e h) (ver h))"
      using i assms(1) by (auto simp: in_set_conv_nth intro!: exI [of _ "i - nold e h"])
  qed
qed

lemma cur_init:
  assumes "vh_init e h"
  shows "cur (abs_row e h) v = (if v \<in> set (ver h) \<and> e \<le> epoch_of v then Some kPendingValue else None)"
proof -
  have sh: "vh_shape h" "sorted (ver h)" "distinct (ver h)"
    and pend: "\<And>i. nold e h \<le> i \<Longrightarrow> i < vsize h \<Longrightarrow> obj h ! i = kPendingValue"
    using assms by (auto simp: vh_init_def vh_inv_def)
  have d: "v \<in> dom (cur (abs_row e h)) \<longleftrightarrow> v \<in> set (ver h) \<and> e \<le> epoch_of v"
    using dom_cur_abs_row [OF sh(1)] set_drop_nold [OF sh(1,2)] by auto
  show ?thesis
  proof (cases "v \<in> dom (cur (abs_row e h))")
    case True
    then obtain x where x: "cur (abs_row e h) v = Some x" by auto
    then have "x = kPendingValue" using cur_abs_row [OF sh(1,3)] pend by auto
    then show ?thesis using x d True by simp
  qed (use d in auto)
qed

text \<open>
  Merging the new versions \<open>bs\<close> into a row, after \<open>k\<close> collected versions were dropped, is
  adding pending values for them to the abstract store.
\<close>

lemma merge_refines:
  assumes init: "vh_init e h"
    and k: "k = 0 \<or> k < nold e h" "k \<le> vsize h" "vh_shape h'" "vsize h' = vsize h - k + length bs"
      "ver h' = sort (drop k (ver h) @ bs)" "obj h' = drop k (obj h) @ replicate (length bs) kPendingValue"
      "latest_version h' = latest_version h - int k" "cur_start h' = nold e h - k"
    and bs: "\<forall>b\<in>set bs. epoch_of b = e \<and> b \<notin> set (ver h)" "distinct bs"
  shows "vh_init e h' \<and> abs_row e h' = put_all (abs_row e h) (map (\<lambda>b. (b, kPendingValue)) bs)"
proof -
  have inv: "vh_shape h" "sorted (ver h)" "distinct (ver h)" "\<forall>v\<in>set (ver h). epoch_of v \<le> e"
    "latest_version h = int (nold e h) - 1" "\<And>i. nold e h \<le> i \<Longrightarrow> i < vsize h \<Longrightarrow> obj h ! i = kPendingValue"
    using init by (auto simp: vh_init_def vh_inv_def)
  let ?n = "nold e h"
  have ms: "mset (ver h') = mset (drop k (ver h)) + mset bs" and st: "sorted (ver h')" by (simp_all add: k(5))
  have set': "set (ver h') = set (drop k (ver h)) \<union> set bs" by (simp add: k(5))
  have "filter (\<lambda>v. epoch_of v < e) bs = []" using bs(1) by (auto simp: filter_empty_conv)
  then have "length (filter (\<lambda>v. epoch_of v < e) (ver h')) = length (filter (\<lambda>v. epoch_of v < e) (drop k (ver h)))"
    using arg_cong [OF ms, of "\<lambda>m. size (filter_mset (\<lambda>v. epoch_of v < e) m)"]
    by (simp flip: size_mset mset_filter)
  also have "\<dots> = ?n - k"
    by (rule length_filter_drop_prefix) (use nold_iff [OF inv(1,2)] nold_le [OF inv(1)] inv(1) in auto)
  finally have n': "nold e h' = ?n - k" by (simp add: nold_def)
  have d: "distinct (ver h')"
    using inv(3) bs by (simp add: k(5)) (auto dest: in_set_dropD)
  have pend: "obj h' ! i = kPendingValue" if "?n - k \<le> i" "i < vsize h'" for i
    using that k inv(1,6) by (auto simp: nth_append)
  have "vh_init e h'"
    using k inv(4,5) n' d st set' pend bs(1) nold_le [OF inv(1), of e]
    by (auto simp: vh_init_def vh_inv_def dest: in_set_dropD)
  moreover have "cur (abs_row e h') v = cur (put_all (abs_row e h) (map (\<lambda>b. (b, kPendingValue)) bs)) v" for v
  proof -
    have m: "v \<in> set (drop k (ver h)) \<longleftrightarrow> v \<in> set (ver h)" if "e \<le> epoch_of v"
    proof -
      have "v \<in> set (ver h) \<Longrightarrow> v \<in> set (drop ?n (ver h))" using that set_drop_nold [OF inv(1,2), of e] by auto
      moreover have "set (drop ?n (ver h)) \<subseteq> set (drop k (ver h))" using k(1) by (intro set_drop_subset_set_drop) auto
      ultimately show ?thesis by (auto dest: in_set_dropD)
    qed
    have "map_of (map (\<lambda>b. (b, kPendingValue)) bs) v = (if v \<in> set bs then Some kPendingValue else None)"
      by (simp add: map_of_map_restrict restrict_map_def)
    moreover have "distinct (map fst (map (\<lambda>b. (b, kPendingValue)) bs))" using bs(2) by (simp add: comp_def)
    ultimately show ?thesis
      using cur_put_all [of "map (\<lambda>b. (b, kPendingValue)) bs" "abs_row e h" v] m
        cur_init [OF \<open>vh_init e h'\<close>, of v] cur_init [OF init, of v] set' bs(1) by auto
  qed
  moreover have "base (abs_row e h') = base (abs_row e h)"
    using k n' inv(1) nold_le [OF inv(1), of e] by (auto simp: abs_row_def nth_append)
  ultimately show ?thesis by (simp add: fun_eq_iff)
qed

theorem AppendNewVersionNoLock_refines:
  assumes init: "vh_init e h" and sz: "vsize h + 1 \<le> 2 ^ 29" and al: "alloc_ok env"
    and sid: "epoch_of sid = e" "sid \<notin> set (ver h)"
    and res: "AppendNewVersionNoLock env sid e w (g, h) = Inr (g', h')"
  shows "vh_init e h' \<and> abs_row e h' = put (abs_row e h) sid kPendingValue"
proof -
  from AppendNewVersionNoLock_versions [OF init sz al res] obtain k where
    k: "k = 0 \<or> k < nold e h" "k \<le> vsize h" "vh_shape h'" "vsize h' = vsize h - k + 1"
      "ver h' = sort (drop k (ver h) @ [sid])" "obj h' = drop k (obj h) @ [kPendingValue]"
      "latest_version h' = latest_version h - int k" "cur_start h' = nold e h - k" by blast
  show ?thesis using merge_refines [OF init k(1-3), of "[sid]"] k(4-8) sid by simp
qed

text \<open>Dropping versions that are not the newest old one is invisible.\<close>

lemma dropped_abs:
  assumes "dropped k h h'" "vh_shape h" "sorted (ver h)" "k = 0 \<or> k < nold e h"
  shows "abs_row e h' = abs_row e h"
proof -
  have n: "nold e h' = nold e h - k" by (rule nold_dropped [OF assms(1-3)])
  have "drop (nold e h - k) (drop k xs) = drop (nold e h) xs" for xs :: "u64 list" using assms(4) by auto
  then show ?thesis
    using assms n nold_le [OF assms(2), of e] by (auto simp: abs_row_def dropped_def)
qed

theorem Collect_row_invisible:
  assumes "vh_shape h" "sorted (ver h)" "0 < vsize h" "Collect_row env g h e limit = Inr (g', h', k)"
  shows "abs_row e h' = abs_row e h"
  using dropped_abs Collect_row_spec [OF assms(1,3,4)] Collect_row_keeps [OF assms] assms by blast

section \<open>The life of a row across epochs\<close>

text \<open>A new row is ready for any epoch.\<close>

lemma New_init: "length mem = 8 \<Longrightarrow> vh_init e (New p aff mem) \<and> abs_row e (New p aff mem) = \<lparr>base = None, cur = Map.empty\<rparr>"
  by (simp add: vh_init_def vh_inv_def New_def SortedArrayVHandle_def vh_shape_def ver_def obj_def nold_def abs_row_def)

text \<open>
  When every version of an epoch has been written, the row is ready for the next epoch,
  and what the epoch leaves behind is what a reader after all its transactions sees.
\<close>

theorem epoch_advance:
  assumes inv: "vh_inv e h" and all: "latest_version h = int (vsize h) - 1" and ep: "e < e'" "epoch_of r = e'"
  shows "vh_init e' h \<and> abs_row e' h = \<lparr>base = visible (abs_row e h) r, cur = Map.empty\<rparr>"
proof -
  have sh: "vh_shape h" "sorted (ver h)" "distinct (ver h)" "\<forall>v\<in>set (ver h). epoch_of v \<le> e"
    using inv by (auto simp: vh_inv_def)
  have "filter (\<lambda>v. epoch_of v < e') (ver h) = ver h" using sh(4) ep by (intro filter_True) auto
  then have n: "nold e' h = vsize h" using sh(1) by (simp add: nold_def)
  have "filter (\<lambda>v. v < r) (ver h) = ver h"
    by (rule filter_True) (use sh(4) ep epoch_of_less in fastforce)
  then have c: "count_lt h r = vsize h" using sh(1) by (simp add: count_lt_def)
  have "vh_init e' h" using inv n all ep(1) by (auto simp: vh_init_def vh_inv_def)
  moreover have "visible (abs_row e h) r = base (abs_row e' h)"
    using visible_abs_row [OF inv, of r] c n ep by (simp add: abs_row_def)
  moreover have "cur (abs_row e' h) = Map.empty" using n sh(1) by (simp add: abs_row_def)
  ultimately show ?thesis by simp
qed

text \<open>
  An append succeeds when memory is available, the collector has room and the row is not
  registered with it.
\<close>

lemma gc_room_slabs: "slabs_same g g' \<Longrightarrow> gc_room env e g' = gc_room env e g"
  using slabs_same_inv [of g g' "env_core env"] by (simp add: gc_room_def slabs_same_def)

lemma grow_total:
  assumes "alloc_words env = (\<lambda>n. Some (f n))"
  shows "\<exists>g' h'. grow env d (g, h) = Inr (g', h')"
  using assms by (auto simp: grow_def Let_def EnlargePair64Array_def)

lemma collect_when_total:
  assumes "vh_shape h" "c \<Longrightarrow> 0 < vsize h" "\<forall>p\<in>set (obj h). \<not> stray_ptr h p"
  shows "\<exists>g' h'. collect_when c env e limit (g, h) = Inr (g', h')"
proof (cases c)
  case True
  then show ?thesis using Collect_row_total [OF assms(1) _ assms(3), of env g e limit] assms(2)
    by (auto simp: collect_when_def)
qed (simp add: collect_when_def)

lemma IncreaseSize_total:
  assumes init: "vh_init e h" and sz: "vsize h + d \<le> 2 ^ 29" "d < 524288"
    and al: "alloc_words env = (\<lambda>n. Some (f n))" "alloc_ok env"
    and gc: "gc_handle h = 0" "gc_room env e g" and str: "\<forall>p\<in>set (obj h). \<not> stray_ptr h p"
  shows "\<exists>g' h'. IncreaseSize env d e (g, h) = Inr (g', h')"
proof -
  let ?c = "u32_of (int (vsize h) + int d) > capacity h \<and> capacity h \<ge> 524288"
  have inv: "vh_shape h" "sorted (ver h)" "latest_version h = int (nold e h) - 1" using init by (auto simp: vh_init_def vh_inv_def)
  have "u32_of (int (vsize h) + int d) = vsize h + d" using sz by (simp add: u32_of_def nat_add_distrib)
  then have pos: "?c \<Longrightarrow> 0 < vsize h" using sz(2) by auto
  from collect_when_total [OF inv(1) pos str] obtain g1 h1 where
    c: "collect_when ?c env e 16384 (g, h) = Inr (g1, h1)" by blast
  from collect_when_spec [OF inv(1,2) pos c] obtain k where
    k: "dropped k h h1" "k = 0 \<or> k < nold e h" "gc_frame g g1" by blast
  obtain g2 h2 where gr: "grow env d (g1, h1) = Inr (g2, h2)" using grow_total [OF al(1)] by blast
  have "vh_shape h1" "vsize h1 + d \<le> 2 ^ 29" using k(1) sz by (auto simp: dropped_def)
  note g = grow_spec [OF this al(2) gr]
  have h2: "grown d k h h2" using g dropped_grown [OF k(1)] by blast
  have room: "gc_room env e g2"
    using gc(2) gc_room_slabs [of g g2 env e] slabs_same_trans [OF gc_frame_slabs [OF k(3)]] g by blast
  have l: "latest_version h2 = int (nold e h) - 1 - int k" "latest_version h1 = latest_version h2"
    using h2 k(1) inv(3) by (auto simp: grown_def dropped_def)
  have "\<exists>g' h'. renew_gc env e 0 (latest_version h1) (g2, h2) = Inr (g', h')"
  proof -
    let ?h3 = "h2\<lparr>cur_start := u32_of (latest_version h1 + 1)\<rparr>"
    obtain gx hx where add: "AddRow env g2 (vaddr ?h3) e = Inr (gx, hx)" using AddRow_room [OF room] by blast
    have rdok: "\<exists>b. res_bind (rd (versions ?h3) (capacity ?h3 + nat (latest_version ?h3))) (IsDataGarbage ?h3) = Inr b"
      if "latest_version h2 \<ge> 0"
    proof -
      let ?i = "nat (latest_version h2)"
      have i: "?i < vsize h - k" "k + ?i < vsize h" using that l nold_le [OF inv(1), of e] by linarith+
      have sh2: "vh_shape h2" "?i < vsize h2" using h2 i by (auto simp: grown_def)
      have "obj h2 ! ?i = obj h ! (k + ?i)" using h2 i inv(1) by (auto simp: grown_def nth_append)
      moreover have "obj h ! (k + ?i) \<in> set (obj h)" using i(2) inv(1) by (intro nth_mem) simp
      ultimately have "\<not> stray_ptr ?h3 (versions h2 ! (capacity h2 + ?i))"
        using str h2 sh2 by (simp add: stray_ptr_def is_inlined_def grown_def)
      moreover have "capacity h2 + ?i < length (versions h2)" using sh2 by (auto simp: vh_shape_def)
      ultimately show ?thesis by (simp add: IsDataGarbage_eq)
    qed
    show ?thesis
    proof (cases "\<not> latest_version h1 \<ge> 16384 \<and> latest_version h2 \<ge> 0")
      case True
      then obtain b where "res_bind (rd (versions ?h3) (capacity ?h3 + nat (latest_version ?h3))) (IsDataGarbage ?h3) = Inr b"
        using rdok by blast
      then show ?thesis using True add by (cases b) (simp_all add: renew_gc_def Let_def)
    next
      case False
      then show ?thesis using add by (auto simp: renew_gc_def Let_def)
    qed
  qed
  then show ?thesis using c gr gc(1) by (simp add: IncreaseSize_def Let_def)
qed

theorem AppendNewVersionNoLock_total:
  assumes init: "vh_init e h" and sz: "vsize h + 1 \<le> 2 ^ 29"
    and al: "alloc_words env = (\<lambda>n. Some (f n))" "alloc_ok env"
    and gc: "gc_handle h = 0" "gc_room env e g" and str: "\<forall>p\<in>set (obj h). \<not> stray_ptr h p"
  shows "\<exists>g' h'. AppendNewVersionNoLock env sid e w (g, h) = Inr (g', h')"
proof -
  let ?h = "if w \<noteq> 0 then h\<lparr>nr_ondsplt := nr_ondsplt h + w\<rparr> else h"
  have same: "vh_init e ?h" "vsize ?h = vsize h" "gc_handle ?h = gc_handle h" "ver ?h = ver h" "obj ?h = obj h"
    "\<And>p. stray_ptr ?h p = stray_ptr h p"
    using init by (auto simp: vh_init_def vh_inv_def nold_def stray_ptr_def is_inlined_def)
  from IncreaseSize_total [OF same(1) _ _ al _ gc(2)] same sz gc(1) str obtain g1 h1 where
    inc: "IncreaseSize env 1 e (g, ?h) = Inr (g1, h1)" by fastforce
  from IncreaseSize_spec [OF same(1) _ _ al(2) inc] same(2) sz obtain k where
    k: "grown 1 k ?h h1" by (auto simp: renewed_def)
  let ?n = "vsize h - k"
  have h1: "vh_shape h1" "vsize h1 = ?n + 1" "take ?n (versions h1) = drop k (ver h)"
    using k same by (auto simp: grown_def)
  have len: "length (versions h1) = 2 * capacity h1" "?n + 1 \<le> capacity h1" using h1 by (auto simp: vh_shape_def)
  let ?h2 = "h1\<lparr>versions := (versions h1)[?n := sid]\<rparr>"
  have bk: "BookNewVersionNoLock h1 sid (vsize h1 - 1) = Inr ?h2"
    using h1(2) len by (simp add: BookNewVersionNoLock_def)
  have "sorted (take ?n (versions ?h2))" "?n + 1 + 0 \<le> length (versions ?h2)"
    using init h1(3) len by (auto simp: vh_init_def vh_inv_def sorted_wrt_drop)
  from AbsorbNewVersionNoLock_spec [OF this] obtain vs j where
    "AbsorbNewVersionNoLock ?h2 ?n 0 = Inr (?h2\<lparr>versions := vs\<rparr>, j)" by metis
  then show ?thesis using inc bk h1(2) by (simp add: AppendNewVersionNoLock_def Let_def)
qed

end
