(* ===== verification/Row_Properties.thy ===== *)
theory Row_Properties
  imports Vhandle_LinkList Vhandle_Store
begin

text \<open>
  What rows promise to transactions: properties of the sorted-array row, of its garbage
  registration, of the searched version array and of the alternative row layouts, each with
  a concrete state that meets its hypotheses.
\<close>

section \<open>Concrete states for the witnesses\<close>

definition ex_env :: env where
  "ex_env = \<lparr> env_core = 0, env_affinity = 0, g_gc_every_epoch = 10, g_lazy = False,
     varstr_len = (\<lambda>_. 8), alloc_words = (\<lambda>n. Some (replicate n 0)) \<rparr>"

definition ex_blk :: garbage_block where
  "ex_blk = \<lparr> rows = replicate 60 0, alloc_core = 0, q_idx = 0, bitmap = 0 \<rparr>"

definition ex_gc :: gc where
  "ex_gc = \<lparr> g_slabs = [GarbageBlockSlab 0 [512, 1024]], gblks = (\<lambda>_. ex_blk), collect_head = [],
     gstats = [\<lparr> nr_rows = 0, nr_blocks = 0, nr_bytes = 0, straggler = False \<rparr>],
     deleted = [], region_frees = [] \<rparr>"

text \<open>A row in epoch 2 with one old version and two versions of the epoch, not yet written.\<close>

definition ex_row :: vhandle where
  "ex_row = \<lparr> vaddr = 0x10000, alloc_by_regionid = 0, this_coreid = 0, cont_affinity = -1,
     inline_used = 0xFF, capacity = 4, vsize = 3, cur_start = 1, latest_version = 0, nr_ondsplt = 0,
     versions = [0x100000005, 0x200000003, 0x200000007, 0, 0x5000, kPendingValue, kPendingValue, 0],
     versions_inline = True, buf_pos = -1, gc_handle = 528 \<rparr>"

lemma ex_row_exec: "exec_inv ex_env 2 (ex_gc, ex_row)"
  unfolding exec_inv_def vh_exec_def vh_inv_def nold_def
  by (simp add: ex_row_def vh_shape_def ver_def epoch_of_div)

section \<open>Rows\<close>


lemma ex_row_dom: "dom (cur (abs_row 2 ex_row)) = {0x200000003, 0x200000007}"
  by (simp add: abs_row_def ex_row_def nold_def ver_def obj_def epoch_of_div)



lemma ex_gc_slab: "slab_inv ex_gc 0"
  by (simp add: slab_inv_def ex_gc_def GarbageBlockSlab_def all_blocks_def kNrQueue_def block_aligned_def ex_blk_def)

lemma ex_env_ok: "alloc_words ex_env = (\<lambda>n. Some (replicate n 0))" "alloc_ok ex_env" "gc_room ex_env 2 ex_gc"
  using ex_gc_slab by (simp_all add: ex_env_def alloc_ok_def gc_room_def ex_gc_def GarbageBlockSlab_def)



definition ex_written :: vhandle where
  "ex_written = ex_row\<lparr>latest_version := 2, versions := [0x100000005, 0x200000003, 0x200000007, 0, 0x5000, 0x6000, 0x7000, 0]\<rparr>"


text \<open>
  C4. Garbage collection of a row always returns and is invisible: it drops versions from the
  old end, each superseded by another version of an earlier epoch, as many as its limit
  allows, and the value that earlier epochs left and the versions of the epoch stay the same.
\<close>

theorem row_gc_invisible:
  assumes "vh_shape h" "sorted (ver h)" "0 < vsize h" "\<forall>p\<in>set (obj h). \<not> stray_ptr h p"
  shows "\<exists>g' h' k. Collect_row env g h e limit = Inr (g', h', k) \<and> abs_row e h' = abs_row e h \<and> ver h' = drop k (ver h)
    \<and> (\<forall>j<k. epoch_of (ver h ! (j + 1)) < e) \<and> (k = vsize h - 1 \<or> k = limit \<or> e \<le> epoch_of (ver h ! (k + 1)))"
proof -
  obtain g' h' k where r: "Collect_row env g h e limit = Inr (g', h', k)" using Collect_row_total [OF assms(1,3,4)] by blast
  then show ?thesis using Collect_row_invisible [OF assms(1-3) r] Collect_row_spec [OF assms(1,3) r] by (auto simp: dropped_def)
qed

theorem row_gc_invisible_witness:
  "\<exists>g' h' k. Collect_row ex_env ex_gc ex_written 3 16 = Inr (g', h', k) \<and> abs_row 3 h' = abs_row 3 ex_written
    \<and> ver h' = drop k (ver ex_written)"
proof -
  have "vh_shape ex_written" "sorted (ver ex_written)" "0 < vsize ex_written" "\<forall>p\<in>set (obj ex_written). \<not> stray_ptr ex_written p"
    by (simp_all add: ex_written_def ex_row_def vh_shape_def ver_def obj_def stray_ptr_def)
  then show ?thesis using row_gc_invisible [where h = ex_written and env = ex_env and g = ex_gc and e = 3 and limit = 16] by blast
qed

text \<open>
  C5. The branch-free binary search of the version array gives the result of \<open>std::upper_bound\<close> on
  every sorted range of fewer than 8192 versions.
\<close>

theorem version_search_is_upper_bound:
  assumes "range_sorted xs s e" "s \<le> e" "e \<le> length xs" "e - s < 8192"
  shows "FastLowerBound xs s e v = Inr (std_upper_bound xs s e v)"
  using FastLowerBound_eq_upper_bound [OF assms] .

theorem version_search_is_upper_bound_witness: "FastLowerBound [2, 4, 6] 0 3 4 = Inr (std_upper_bound [2, 4, 6 :: u64] 0 3 4)"
proof -
  have "range_sorted [2, 4, 6 :: u64] 0 3" by (auto simp: range_sorted_def less_Suc_eq numeral_3_eq_3 nth_Cons')
  then show ?thesis using version_search_is_upper_bound [where xs = "[2, 4, 6]" and s = 0 and e = 3 and v = 4] by simp
qed

text \<open>
  C6. Registering a row for garbage collection gives a new handle, and removing it by that handle
  restores exactly the registrations there were, with the block lists well formed throughout.
\<close>

theorem gc_register_remove:
  assumes "slab_inv g c" "q < 200" "half_q (g_slabs g ! c) ! q \<noteq> [] \<or> free_q (g_slabs g ! c) \<noteq> []"
  shows "\<exists>g1 hdl g2. slab_Add g c row q = Inr (g1, hdl) \<and> slab_inv g1 c \<and> regs g1 c = insert (hdl, row) (regs g c)
    \<and> hdl \<notin> fst ` regs g c \<and> RemoveRow g1 hdl = Inr g2 \<and> slab_inv g2 c \<and> regs g2 c = regs g c"
proof -
  obtain g1 hdl where a: "slab_Add g c row q = Inr (g1, hdl)" "slab_inv g1 c" "hdl \<notin> fst ` regs g c" "regs g1 c = insert (hdl, row) (regs g c)"
    using slab_Add_registers [OF assms] by blast
  then obtain g2 where "RemoveRow g1 hdl = Inr g2" "slab_inv g2 c" "regs g2 c = regs g1 c - {(hdl, row)}"
    using RemoveRow_unregisters [of g1 c hdl row] by blast
  moreover have "(hdl, row) \<notin> regs g c" using a(3) by force
  ultimately show ?thesis using a by auto
qed

theorem gc_register_remove_witness:
  "\<exists>g1 hdl g2. slab_Add ex_gc 0 0x10000 2 = Inr (g1, hdl) \<and> RemoveRow g1 hdl = Inr g2 \<and> regs g2 0 = regs ex_gc 0"
  using gc_register_remove [OF ex_gc_slab, where q = 2 and row = "0x10000"] by (force simp: ex_gc_def GarbageBlockSlab_def)

text \<open>
  C7. The linked-list row keeps the same promise as the sorted array: the writes of an epoch may
  run in any order, and every reader of the epoch gets the object of the greatest version before it.
\<close>

theorem linklist_writes_any_order:
  assumes "ll_inv e h" "\<forall>(sid, d) \<in> set ws. sid \<in> dom (cur (ll_abs e h))"
    and "distinct (map fst ws)" "mset ws' = mset ws" "e \<le> epoch_of r"
  shows "\<exists>h1 h2. run_writes ll_write_res h ws = Inr h1 \<and> run_writes ll_write_res h ws' = Inr h2
    \<and> ll_abs e h1 = ll_abs e h2 \<and> ll_ReadWithVersion h1 r = ll_ReadWithVersion h2 r
    \<and> ll_ReadWithVersion h1 r = visible (put_all (ll_abs e h) ws) r"
  using ll.writes_order [of e h ws ws' r] assms by auto

definition ex_list :: ll_handle where
  "ex_list = \<lparr>ll_lock = False, ll_entries = [(0x200000007, kPendingValue), (0x200000003, kPendingValue), (0x100000005, 0x5000)], ll_size = 3\<rparr>"

theorem linklist_writes_any_order_witness:
  "\<exists>h1 h2. run_writes ll_write_res ex_list [(0x200000003, 0x6000), (0x200000007, 0x7000)] = Inr h1
    \<and> run_writes ll_write_res ex_list [(0x200000007, 0x7000), (0x200000003, 0x6000)] = Inr h2
    \<and> ll_ReadWithVersion h1 0x200000005 = ll_ReadWithVersion h2 0x200000005"
proof -
  have "ll_inv 2 ex_list" by (simp add: ll_inv_def ex_list_def epoch_of_div)
  moreover have "\<forall>(sid, d) \<in> set [(0x200000003, 0x6000 :: u64), (0x200000007, 0x7000)]. sid \<in> dom (cur (ll_abs 2 ex_list))"
    by (auto simp: ll_abs_def ex_list_def epoch_of_div dom_def)
  ultimately show ?thesis
    using linklist_writes_any_order [where e = 2 and h = ex_list and ws = "[(0x200000003, 0x6000), (0x200000007, 0x7000)]"
      and ws' = "[(0x200000007, 0x7000), (0x200000003, 0x6000)]" and r = "0x200000005"] by (auto simp: epoch_of_div)
qed

text \<open>
  The collection of the linked-list row cuts off every version before the epoch: a row that
  the epoch does not write loses its value.
\<close>

lemma linklist_gc_loses_value:
  "ll_ReadWithVersion \<lparr>ll_lock = False, ll_entries = [(0x100000007, 0x6000), (0x100000005, 0x5000)], ll_size = 2\<rparr> 0x200000001 = Some 0x6000
    \<and> ll_ReadWithVersion (fst (ll_GarbageCollect 0x200000000 \<lparr>ll_lock = False, ll_entries = [(0x100000007, 0x6000), (0x100000005, 0x5000)], ll_size = 2\<rparr>))
        0x200000001 = None"
  by (simp add: ll_ReadWithVersion_def ll_GarbageCollect_def)


definition ex_calvin :: calvin_handle where
  "ex_calvin = \<lparr>cv_lock = False, cv_alloc_core = 0, cv_capacity = 4, cv_size = 2, cv_pos = 0, accesses = [6, 11, 0, 0], cv_obj = 0\<rparr>"


text \<open>
  C9. Inserting an object behind a member of a circular list and removing it again gives the list
  back, in the same order, and the removed object is detached.
\<close>

theorem list_insert_remove:
  assumes "ring h a (ys @ zs)" "x \<notin> set (a # ys @ zs)"  "p = last (a # ys)"
  shows "ring (InsertAfter h x p) a (ys @ x # zs) \<and> ring (Remove (InsertAfter h x p) x) a (ys @ zs)
    \<and> is_detached (Remove (InsertAfter h x p) x) x"
proof -
  have r: "ring (InsertAfter h x p) a (ys @ x # zs)" using ring_InsertAfter [OF assms] .
  then show ?thesis using ring_Remove [OF r] by (simp add: is_detached_def Remove_def Let_def)
qed

theorem list_insert_remove_witness:
  "ring (Remove (InsertAfter (Initialize \<lparr>prv = (\<lambda>_. 0), nxt = (\<lambda>_. 0)\<rparr> 1) 2 1) 2) 1 []"
  using list_insert_remove [where h = "Initialize \<lparr>prv = (\<lambda>_. 0), nxt = (\<lambda>_. 0)\<rparr> 1" and a = 1 and ys = "[]" and zs = "[]" and x = 2 and p = 1]
  by (simp add: ring_def Initialize_def)

end
