(* ===== verification/Contention.thy ===== *)
theory Contention
  imports Vhandle_Store
begin

text \<open>
  Batched appends and contention management, \<^verbatim>\<open>src/contention_manager.cc\<close>. Each core
  keeps a buffer of version numbers for every contended row (\<open>VersionBuffer\<close>); buffers
  are flushed into the row in one pass (\<open>FlushIntoNoLock\<close>). Positions of buffers are
  handed out by per-core heads (\<open>VersionBufferHead\<close>). At the end of an epoch
  \<open>ContentionManager::Reset\<close> spreads the contended rows over the cores, optionally by the
  knapsack packing of \<open>BinPack\<close>.
\<close>

section \<open>Buffers\<close>

definition kMaxBatch :: nat where "kMaxBatch = 255"

record version_buffer =
  buf_cnt :: nat
  ondsplt_cnt :: nat
  buf_versions :: "u64 list"

text \<open>The buffers of one core for all positions, with a bit per position in use.\<close>

record version_prealloc =
  pre_bitmap :: "u64 list"
  version_buffers :: "version_buffer list"

definition set_pos_bit :: "nat \<Rightarrow> version_prealloc \<Rightarrow> version_prealloc" where
  "set_pos_bit pos p = p\<lparr>pre_bitmap := (pre_bitmap p)[pos div 64 := pre_bitmap p ! (pos div 64) OR push_bit (pos mod 64) 1]\<rparr>"

definition clear_pos_bit :: "nat \<Rightarrow> version_prealloc \<Rightarrow> version_prealloc" where
  "clear_pos_bit pos p =
     p\<lparr>pre_bitmap := (pre_bitmap p)[pos div 64 := pre_bitmap p ! (pos div 64) AND NOT (push_bit (pos mod 64) 1)]\<rparr>"

definition pos_bit :: "nat \<Rightarrow> version_prealloc \<Rightarrow> bool" where
  "pos_bit pos p \<longleftrightarrow> pre_bitmap p ! (pos div 64) AND push_bit (pos mod 64) 1 \<noteq> 0"

definition set_buf :: "nat \<Rightarrow> version_buffer \<Rightarrow> version_prealloc \<Rightarrow> version_prealloc" where
  "set_buf pos b p = p\<lparr>version_buffers := (version_buffers p)[pos := b]\<rparr>"

text \<open>The loop of \<open>FlushIntoNoLock\<close>: the second argument is \<open>i + 1\<close>.\<close>

fun flush_loop :: "u64 list \<Rightarrow> nat \<Rightarrow> nat \<Rightarrow> vhandle \<Rightarrow> vhandle res" where
  "flush_loop bv 0 e h = Inr h"
| "flush_loop bv (Suc i) e h =
     res_bind (BookNewVersionNoLock h (bv ! i) e) (\<lambda>h1.
     res_bind (AbsorbNewVersionNoLock h1 e i) (\<lambda>(h2, e'). flush_loop bv i e' h2))"

definition FlushIntoNoLock :: "version_prealloc \<Rightarrow> nat \<Rightarrow> nat \<Rightarrow> vhandle \<Rightarrow> (version_prealloc \<times> vhandle) res" where
  "FlushIntoNoLock p pos e h =
     (let buf = version_buffers p ! pos;
          srt = sort (take (buf_cnt buf) (buf_versions buf)) @ drop (buf_cnt buf) (buf_versions buf)
      in res_bind (flush_loop srt (buf_cnt buf) e h) (\<lambda>h1.
         Inr (clear_pos_bit pos (set_buf pos \<lparr>buf_cnt = 0, ondsplt_cnt = 0, buf_versions = srt\<rparr> p),
              h1\<lparr>nr_ondsplt := nr_ondsplt h1 + int (ondsplt_cnt buf)\<rparr>)))"

text \<open>
  \<open>VersionBufferHandle::Append\<close>. \<open>try_lock\<close> is the outcome of \<open>handle->lock.TryLock\<close>.
\<close>

definition buffer_Append ::
  "env \<Rightarrow> bool \<Rightarrow> nat \<Rightarrow> u64 \<Rightarrow> nat \<Rightarrow> bool \<Rightarrow> version_prealloc \<Rightarrow> gc \<times> vhandle \<Rightarrow> (version_prealloc \<times> gc \<times> vhandle) res" where
  "buffer_Append env try_lock pos sid e is_ondemand_split p = (\<lambda>(g, h).
     let buf = version_buffers p ! pos in
     if buf_cnt buf = kMaxBatch then
       res_bind (AppendNewVersionNoLock env sid e (if is_ondemand_split then 1 else 0) (g, h)) (\<lambda>(g1, h1).
       let h2 = (if is_ondemand_split then h1\<lparr>nr_ondsplt := nr_ondsplt h1 + 1\<rparr> else h1) in
       res_bind (IncreaseSize env (buf_cnt buf) e (g1, h2)) (\<lambda>(g3, h3).
       res_bind (FlushIntoNoLock p pos (vsize h3 - buf_cnt buf) h3) (\<lambda>(p', h4). Inr (p', g3, h4))))
     else
       let p1 = (if buf_cnt buf = 0 then set_pos_bit pos p else p);
           buf1 = buf\<lparr>buf_cnt := buf_cnt buf + 1,
                      ondsplt_cnt := ondsplt_cnt buf + (if is_ondemand_split then 1 else 0),
                      buf_versions := (buf_versions buf)[buf_cnt buf := sid]\<rparr>;
           p2 = set_buf pos buf1 p1
       in if buf_cnt buf1 > kMaxBatch div 2 \<and> try_lock then
            res_bind (IncreaseSize env (buf_cnt buf1) e (g, h)) (\<lambda>(g1, h1).
            res_bind (FlushIntoNoLock p2 pos (vsize h1 - buf_cnt buf1) h1) (\<lambda>(p', h2). Inr (p', g1, h2)))
          else Inr (p2, g, h))"

section \<open>A flush merges the buffer into the sorted versions\<close>

text \<open>
  While \<open>n\<close> versions of the buffer remain, the first \<open>e\<close> versions of the row are still to
  be merged and the words from \<open>e + n\<close> on are final.
\<close>

lemma flush_loop_spec:
  assumes "sorted (take n bv)" "n \<le> length bv" "sorted (take e (versions h))" "e + n \<le> tot" "tot \<le> length (versions h)"
    and "sorted (slice (versions h) (e + n) tot)"
    and "\<forall>a\<in>set (take e (versions h)) \<union> set (take n bv). \<forall>b\<in>set (slice (versions h) (e + n) tot). a \<le> b"
  shows "\<exists>vs. flush_loop bv n e h = Inr (h\<lparr>versions := vs\<rparr>) \<and> length vs = length (versions h)
    \<and> drop tot vs = drop tot (versions h)
    \<and> take tot vs = sort (take e (versions h) @ take n bv @ slice (versions h) (e + n) tot)"
  using assms
proof (induction n arbitrary: e h)
  case 0
  have "take e (versions h) @ slice (versions h) e tot = take tot (versions h)"
    using 0 by (intro take_append_slice) simp
  moreover have "sorted (take e (versions h) @ slice (versions h) e tot)" using 0 by (simp add: sorted_append)
  ultimately have "take tot (versions h) = sort (take e (versions h) @ slice (versions h) (e + 0) tot)"
    by (simp add: sorted_sort_id)
  then show ?case by (intro exI [of _ "versions h"]) simp
next
  case (Suc n)
  let ?b = "bv ! n" and ?vs = "versions h"
  let ?h1 = "h\<lparr>versions := ?vs[e := ?b]\<rparr>"
  have e: "e < length ?vs" using Suc.prems by simp
  have bk: "BookNewVersionNoLock h ?b e = Inr ?h1" using e by (simp add: BookNewVersionNoLock_def)
  have pre: "take e (versions ?h1) = take e ?vs" "versions ?h1 ! e = ?b"
    "slice (versions ?h1) (e + n + 1) tot = slice ?vs (e + Suc n) tot"
    "drop tot (versions ?h1) = drop tot ?vs"
    using e Suc.prems(4) by (auto simp: slice_def drop_update_swap)
  have "sorted (take e (versions ?h1))" "e + 1 + n \<le> length (versions ?h1)" using pre Suc.prems by auto
  from AbsorbNewVersionNoLock_spec [OF this] obtain vs i where
    a: "AbsorbNewVersionNoLock ?h1 e n = Inr (?h1\<lparr>versions := vs\<rparr>, i)" "i \<le> e"
      "length vs = length (versions ?h1)" "take i vs = take i (versions ?h1)"
      "slice vs (i + n) (e + 1 + n) = ?b # slice (versions ?h1) i e"
      "drop (e + 1 + n) vs = drop (e + 1 + n) (versions ?h1)"
      "\<forall>v\<in>set (take i (versions ?h1)). v \<le> ?b" "\<forall>v\<in>set (slice (versions ?h1) i e). ?b \<le> v"
    unfolding pre(2) by blast
  let ?S = "slice ?vs i e" and ?T = "slice ?vs (e + Suc n) tot" and ?h2 = "h\<lparr>versions := vs\<rparr>"
  have S: "slice (versions ?h1) i e = ?S" using a(2) by (simp add: slice_def take_drop)
  have ti: "take i vs = take i ?vs" using a(2,4) e by simp
  have cut: "take i ?vs @ ?S = take e ?vs" using take_append_slice [OF a(2)] .
  have "slice vs (e + 1 + n) tot = ?T" using slice_cong_drop [OF a(6)] pre(3) by (simp add: add.commute add.left_commute)
  then have tail: "slice vs (i + n) tot = ?b # ?S @ ?T"
    using slice_append [of "i + n" "e + 1 + n" tot vs] a(2,5) S Suc.prems(4) by simp
  have bn: "take (Suc n) bv = take n bv @ [?b]" using Suc.prems(2) by (simp add: take_Suc_conv_app_nth)
  have srt: "sorted (take i ?vs @ ?S)" "sorted (take n bv @ [?b])" using Suc.prems(1,3) cut bn by simp_all
  have le: "\<forall>a\<in>set (take i ?vs) \<union> set ?S \<union> set (take n bv) \<union> {?b}. \<forall>b\<in>set ?T. a \<le> b"
    using Suc.prems(7) unfolding bn cut [symmetric] by auto
  have bS: "\<forall>v\<in>set ?S. ?b \<le> v" "\<forall>v\<in>set (take i ?vs). v \<le> ?b" using a(7,8) S a(2) e by simp_all
  have bvb: "\<forall>v\<in>set (take n bv). v \<le> ?b" using srt(2) by (simp add: sorted_append)
  have "\<exists>vs'. flush_loop bv n i ?h2 = Inr (?h2\<lparr>versions := vs'\<rparr>) \<and> length vs' = length (versions ?h2)
    \<and> drop tot vs' = drop tot (versions ?h2)
    \<and> take tot vs' = sort (take i (versions ?h2) @ take n bv @ slice (versions ?h2) (i + n) tot)"
  proof (rule Suc.IH)
    show "sorted (take n bv)" "sorted (take i (versions ?h2))" using srt ti by (simp_all add: sorted_append)
    show "sorted (slice (versions ?h2) (i + n) tot)"
      using tail srt(1) bS(1) le Suc.prems(6) by (auto simp: sorted_append)
    show "\<forall>a\<in>set (take i (versions ?h2)) \<union> set (take n bv). \<forall>b\<in>set (slice (versions ?h2) (i + n) tot). a \<le> b"
      using tail ti srt(1) bS bvb le by (auto simp: sorted_append intro: order.trans)
  qed (use Suc.prems a(2,3) in auto)
  then obtain vs' where vs': "flush_loop bv n i ?h2 = Inr (h\<lparr>versions := vs'\<rparr>)" "length vs' = length vs"
    "drop tot vs' = drop tot vs" "take tot vs' = sort (take i ?vs @ take n bv @ ?b # ?S @ ?T)"
    using ti tail by auto
  have "drop tot vs = drop (tot - (e + 1 + n)) (drop (e + 1 + n) vs)" using Suc.prems(4) by simp
  also have "\<dots> = drop tot ?vs" unfolding a(6) using Suc.prems(4) pre(4) by simp
  finally have dt: "drop tot vs' = drop tot ?vs" using vs'(3) by simp
  have "take tot vs' = sort (take e ?vs @ take (Suc n) bv @ ?T)"
    unfolding vs'(4) by (rule sort_mset_cong) (simp add: bn flip: cut)
  then show ?case using bk a(1,3) vs'(1,2) dt by (intro exI [of _ vs']) simp
qed

text \<open>
  Flushing a buffer into a row that \<open>IncreaseSize\<close> made room in: the versions of the row
  become the sorted merge of the old versions and the buffer.
\<close>

lemma FlushIntoNoLock_spec:
  assumes "vh_shape h" "sorted (take n (versions h))" "vsize h = n + buf_cnt (version_buffers p ! pos)"
    and "buf_cnt (version_buffers p ! pos) \<le> length (buf_versions (version_buffers p ! pos))"
  shows "\<exists>p' h'. FlushIntoNoLock p pos (vsize h - buf_cnt (version_buffers p ! pos)) h = Inr (p', h')
    \<and> ver h' = sort (take n (versions h) @ take (buf_cnt (version_buffers p ! pos)) (buf_versions (version_buffers p ! pos)))
    \<and> obj h' = obj h \<and> vh_shape h' \<and> vsize h' = vsize h \<and> latest_version h' = latest_version h \<and> cur_start h' = cur_start h
    \<and> nr_ondsplt h' = nr_ondsplt h + int (ondsplt_cnt (version_buffers p ! pos))"
proof -
  let ?buf = "version_buffers p ! pos"
  let ?c = "buf_cnt ?buf" and ?bv = "buf_versions ?buf"
  define srt where "srt = sort (take ?c ?bv) @ drop ?c ?bv"
  have s: "take ?c srt = sort (take ?c ?bv)" "length srt = length ?bv" using assms(4) by (simp_all add: srt_def)
  have sz: "vsize h \<le> length (versions h)" "vsize h \<le> capacity h" using assms(1) by (auto simp: vh_shape_def)
  from flush_loop_spec [of ?c srt n h "vsize h"] obtain vs where
    v: "flush_loop srt ?c n h = Inr (h\<lparr>versions := vs\<rparr>)" "length vs = length (versions h)"
      "drop (vsize h) vs = drop (vsize h) (versions h)" "take (vsize h) vs = sort (take n (versions h) @ take ?c srt)"
    using assms s sz by auto
  have "sort (take n (versions h) @ take ?c srt) = sort (take n (versions h) @ take ?c ?bv)"
    by (rule sort_mset_cong) (simp add: s)
  moreover have "drop (capacity h) vs = drop (capacity h) (versions h)"
  proof -
    have "drop (capacity h) vs = drop (capacity h - vsize h) (drop (vsize h) vs)" using sz by simp
    then show ?thesis using v(3) sz by simp
  qed
  moreover have "FlushIntoNoLock p pos (vsize h - ?c) h =
    Inr (clear_pos_bit pos (set_buf pos \<lparr>buf_cnt = 0, ondsplt_cnt = 0, buf_versions = srt\<rparr> p),
         h\<lparr>versions := vs, nr_ondsplt := nr_ondsplt h + int (ondsplt_cnt ?buf)\<rparr>)"
    using v(1) assms(3) by (simp add: FlushIntoNoLock_def Let_def flip: srt_def)
  ultimately show ?thesis using v(2,4) assms(1) by (simp add: ver_def obj_def vh_shape_def)
qed

section \<open>Positions of buffers\<close>

definition kMaxPos :: nat where "kMaxPos = 8192"

record buffer_head =
  base_pos :: nat
  head_pos :: nat
  owner_core :: nat
  backrefs :: "u64 list"

text \<open>The allocator of heads of one NUMA zone; \<open>heads_left\<close> is what its pool still has.\<close>

record head_allocation =
  zone_base :: nat
  zone_pos :: nat
  heads_left :: nat

record contention_manager =
  preallocs :: "version_prealloc list"
  buffer_heads :: "buffer_head list list"
  g_alloc :: "head_allocation list"
  est_split :: nat

text \<open>
  \<open>AllocHead\<close>. The pool returns a null pointer when it is empty; the source writes the
  fields of the new head before anybody tests for that.
\<close>

definition AllocHead :: "contention_manager \<Rightarrow> nat \<Rightarrow> (contention_manager \<times> buffer_head) res" where
  "AllocHead cm core =
     (let z = core div kNrCorePerNode; a = g_alloc cm ! z in
      if heads_left a = 0 then Inl OutOfBounds
      else Inr (cm\<lparr>g_alloc := (g_alloc cm)[z := a\<lparr>zone_pos := zone_pos a + kMaxPos, heads_left := heads_left a - 1\<rparr>]\<rparr>,
                \<lparr>base_pos = zone_base a + zone_pos a, head_pos = 0, owner_core = core, backrefs = replicate kMaxPos 0\<rparr>))"

definition IncrementPos :: "contention_manager \<Rightarrow> buffer_head \<Rightarrow> contention_manager \<times> buffer_head" where
  "IncrementPos cm hh =
     (let p = head_pos hh + 1; hh' = hh\<lparr>head_pos := p\<rparr> in
      if p = kMaxPos then (cm, hh')
      else
        let abs_pos = base_pos hh + p; pre = preallocs cm ! owner_core hh;
            buf = (version_buffers pre ! abs_pos)\<lparr>buf_cnt := 0, ondsplt_cnt := 0\<rparr>
        in (cm\<lparr>preallocs := (preallocs cm)[owner_core hh := clear_pos_bit abs_pos (set_buf abs_pos buf pre)]\<rparr>, hh'))"

text \<open>Take the next position of the current head of a core for a row.\<close>

definition install :: "contention_manager \<Rightarrow> row_store \<Rightarrow> nat \<Rightarrow> u64 \<Rightarrow> (contention_manager \<times> row_store \<times> int) res" where
  "install cm st core row =
     (case buffer_heads cm ! core of
        [] \<Rightarrow> Inl OutOfBounds
      | hh # rest \<Rightarrow>
          let new_pos = head_pos hh; p = int (base_pos hh + new_pos);
              (cm1, hh1) = IncrementPos cm (hh\<lparr>backrefs := (backrefs hh)[new_pos := row]\<rparr>)
          in Inr (cm1\<lparr>buffer_heads := (buffer_heads cm1)[core := hh1 # rest]\<rparr>,
                  st(row := (st row)\<lparr>buf_pos := p\<rparr>), p))"

definition GetOrInstallBufferPos ::
  "contention_manager \<Rightarrow> row_store \<Rightarrow> nat \<Rightarrow> u64 \<Rightarrow> (contention_manager \<times> row_store \<times> int) res" where
  "GetOrInstallBufferPos cm st core row =
     (if buf_pos (st row) \<noteq> -1 then Inr (cm, st, buf_pos (st row))
      else
        case buffer_heads cm ! core of
          [] \<Rightarrow> Inl OutOfBounds
        | hh # rest \<Rightarrow>
            if head_pos hh \<ge> kMaxPos then
              res_bind (AllocHead cm (owner_core hh)) (\<lambda>(cm1, hh1).
                install (cm1\<lparr>buffer_heads := (buffer_heads cm1)[core := hh1 # hh # rest]\<rparr>) st core row)
            else install cm st core row)"

section \<open>Finalising the appends of an epoch\<close>

text \<open>
  One pass over the positions \<open>[from, to)\<close> of a head; \<open>lk\<close> tells which rows' locks
  \<open>TryLock\<close> gets. The result counts the rows that have to be retried.
\<close>

fun scan_pass ::
  "env \<Rightarrow> bool \<Rightarrow> (nat \<Rightarrow> bool) \<Rightarrow> bool \<Rightarrow> nat \<Rightarrow> u64 list \<Rightarrow> nat \<Rightarrow> nat
   \<Rightarrow> version_prealloc \<times> gc \<times> row_store \<Rightarrow> (nat \<times> version_prealloc \<times> gc \<times> row_store) res" where
  "scan_pass env disable_trylock lk reset e [] p retry (pre, g, st) = Inr (retry, pre, g, st)"
| "scan_pass env disable_trylock lk reset e (row # rs) p retry (pre, g, st) =
     (let st1 = (if reset then st(row := (st row)\<lparr>buf_pos := -1\<rparr>) else st) in
      if \<not> pos_bit p pre then scan_pass env disable_trylock lk reset e rs (p + 1) retry (pre, g, st1)
      else if \<not> disable_trylock \<and> \<not> lk p then
        scan_pass env disable_trylock lk reset e rs (p + 1) (retry + 1) (pre, g, st1)
      else
        let cnt = buf_cnt (version_buffers pre ! p) in
        res_bind (IncreaseSize env cnt e (g, st1 row)) (\<lambda>(g1, h1).
        res_bind (FlushIntoNoLock pre p (vsize h1 - cnt) h1) (\<lambda>(pre1, h2).
        scan_pass env disable_trylock lk reset e rs (p + 1) retry (pre1, g1, st1(row := h2)))))"

text \<open>The passes are repeated while rows are left; after a pass that leaves one row the
  lock is waited for. \<open>lks\<close> lists the outcomes of \<open>TryLock\<close> in the passes.\<close>

fun ScanAndFinalize ::
  "env \<Rightarrow> bool \<Rightarrow> (nat \<Rightarrow> bool) list \<Rightarrow> bool \<Rightarrow> nat \<Rightarrow> u64 list \<Rightarrow> nat
   \<Rightarrow> version_prealloc \<times> gc \<times> row_store \<Rightarrow> (version_prealloc \<times> gc \<times> row_store) res option" where
  "ScanAndFinalize env disable_trylock [] reset e rs from s = None"
| "ScanAndFinalize env disable_trylock (lk # lks) reset e rs from s =
     (case scan_pass env disable_trylock lk reset e rs from 0 s of
        Inl err \<Rightarrow> Some (Inl err)
      | Inr (retry, s') \<Rightarrow>
          if retry > 0 then ScanAndFinalize env (disable_trylock \<or> retry = 1) lks reset e rs from s'
          else Some (Inr s'))"

section \<open>No two rows share a buffer\<close>

definition all_heads :: "contention_manager \<Rightarrow> buffer_head list" where
  "all_heads cm = concat (buffer_heads cm)"

definition zone_of :: "contention_manager \<Rightarrow> buffer_head \<Rightarrow> head_allocation" where
  "zone_of cm hh = g_alloc cm ! (owner_core hh div kNrCorePerNode)"

definition zone_end :: "head_allocation \<Rightarrow> nat" where
  "zone_end a = zone_base a + zone_pos a"

definition zones_ok :: "contention_manager \<Rightarrow> bool" where
  "zones_ok cm \<longleftrightarrow> (\<forall>z<length (g_alloc cm). kMaxPos dvd zone_base (g_alloc cm ! z) \<and> kMaxPos dvd zone_pos (g_alloc cm ! z))
     \<and> (\<forall>z z'. z < z' \<and> z' < length (g_alloc cm) \<longrightarrow>
          zone_end (g_alloc cm ! z) + heads_left (g_alloc cm ! z) * kMaxPos \<le> zone_base (g_alloc cm ! z'))"

definition head_ok :: "contention_manager \<Rightarrow> buffer_head \<Rightarrow> bool" where
  "head_ok cm hh \<longleftrightarrow> owner_core hh div kNrCorePerNode < length (g_alloc cm) \<and> kMaxPos dvd base_pos hh
     \<and> head_pos hh \<le> kMaxPos \<and> length (backrefs hh) = kMaxPos
     \<and> zone_base (zone_of cm hh) \<le> base_pos hh \<and> base_pos hh < zone_end (zone_of cm hh)"

definition cm_inv :: "contention_manager \<Rightarrow> row_store \<Rightarrow> bool" where
  "cm_inv cm st \<longleftrightarrow> zones_ok cm \<and> (\<forall>hh\<in>set (all_heads cm). head_ok cm hh) \<and> distinct (map base_pos (all_heads cm))
     \<and> (\<forall>row. buf_pos (st row) \<noteq> -1 \<longrightarrow>
          (\<exists>hh\<in>set (all_heads cm). \<exists>i<head_pos hh. backrefs hh ! i = row \<and> buf_pos (st row) = int (base_pos hh + i)))"

lemma base_offset_unique:
  assumes "kMaxPos dvd a" "kMaxPos dvd b" "i < kMaxPos" "j < kMaxPos" "a + i = b + j"
  shows "a = b" "i = j"
proof -
  have "(a + i) mod kMaxPos = i" "(b + j) mod kMaxPos = j" using assms(1-4) by (auto elim!: dvdE)
  then show "i = j" using assms(5) by simp
  then show "a = b" using assms(5) by simp
qed

lemma cm_inv_positions_unique:
  assumes "cm_inv cm st" "buf_pos (st r1) \<noteq> -1" "buf_pos (st r1) = buf_pos (st r2)"
  shows "r1 = r2"
proof -
  from assms obtain h1 i1 h2 i2 where
    h: "h1 \<in> set (all_heads cm)" "i1 < head_pos h1" "backrefs h1 ! i1 = r1" "buf_pos (st r1) = int (base_pos h1 + i1)"
       "h2 \<in> set (all_heads cm)" "i2 < head_pos h2" "backrefs h2 ! i2 = r2" "buf_pos (st r2) = int (base_pos h2 + i2)"
    unfolding cm_inv_def by metis
  have ok: "head_ok cm h1" "head_ok cm h2" "distinct (map base_pos (all_heads cm))" using assms(1) h by (auto simp: cm_inv_def)
  have "base_pos h1 + i1 = base_pos h2 + i2" using h(4,8) assms(3) by simp
  from base_offset_unique [OF _ _ _ _ this] have "base_pos h1 = base_pos h2" "i1 = i2"
    using ok h by (auto simp: head_ok_def)
  moreover have "h1 = h2" using ok(3) h(1,5) calculation(1) by (auto simp: distinct_map dest: inj_onD)
  ultimately show ?thesis using h by simp
qed

lemma concat_update_split:
  assumes "c < length qs"
  shows "concat (qs[c := ys]) = concat (take c qs) @ ys @ concat (drop (Suc c) qs)"
    "concat qs = concat (take c qs) @ qs ! c @ concat (drop (Suc c) qs)"
  using assms by (simp_all add: upd_conv_take_nth_drop) (metis concat.simps(2) concat_append id_take_nth_drop)

lemma IncrementPos_frame:
  "snd (IncrementPos cm hh) = hh\<lparr>head_pos := head_pos hh + 1\<rparr>"
  "g_alloc (fst (IncrementPos cm hh)) = g_alloc cm" "buffer_heads (fst (IncrementPos cm hh)) = buffer_heads cm"
  by (simp_all add: IncrementPos_def Let_def)

text \<open>Installing a row at the next position of a head that has room.\<close>

lemma install_inv:
  assumes inv: "cm_inv cm st" and free: "buf_pos (st row) = -1" and c: "core < length (buffer_heads cm)"
    and hs: "buffer_heads cm ! core = hh # rest" "head_pos hh < kMaxPos"
  shows "\<exists>cm' st' p. install cm st core row = Inr (cm', st', p) \<and> cm_inv cm' st' \<and> p = buf_pos (st' row) \<and> p \<noteq> -1
    \<and> (\<forall>r. r \<noteq> row \<longrightarrow> st' r = st r) \<and> length (buffer_heads cm') = length (buffer_heads cm)"
proof -
  define hh0 where "hh0 = hh\<lparr>backrefs := (backrefs hh)[head_pos hh := row]\<rparr>"
  obtain cm1 where inc: "IncrementPos cm hh0 = (cm1, hh0\<lparr>head_pos := head_pos hh + 1\<rparr>)"
    "g_alloc cm1 = g_alloc cm" "buffer_heads cm1 = buffer_heads cm"
    using IncrementPos_frame [of cm hh0] by (cases "IncrementPos cm hh0") (auto simp: hh0_def)
  define hh1 where "hh1 = hh0\<lparr>head_pos := head_pos hh + 1\<rparr>"
  define cm' where "cm' = cm1\<lparr>buffer_heads := (buffer_heads cm1)[core := hh1 # rest]\<rparr>"
  define st' where "st' = st(row := (st row)\<lparr>buf_pos := int (base_pos hh + head_pos hh)\<rparr>)"
  have eq: "install cm st core row = Inr (cm', st', int (base_pos hh + head_pos hh))"
    using hs inc by (simp add: install_def Let_def cm'_def hh1_def st'_def hh0_def)
  obtain pre post where heads: "all_heads cm = pre @ hh # post" "all_heads cm' = pre @ hh1 # post"
  proof
    show "all_heads cm = concat (take core (buffer_heads cm)) @ hh # (rest @ concat (drop (Suc core) (buffer_heads cm)))"
      using concat_update_split(2) [OF c] hs by (simp add: all_heads_def)
    show "all_heads cm' = concat (take core (buffer_heads cm)) @ hh1 # (rest @ concat (drop (Suc core) (buffer_heads cm)))"
      using concat_update_split(1) [OF c, of "hh1 # rest"] inc by (simp add: all_heads_def cm'_def)
  qed
  have ok: "head_ok cm hh" "length (backrefs hh) = kMaxPos" using inv heads(1) by (auto simp: cm_inv_def head_ok_def)
  have same: "head_ok cm' x = head_ok cm x" for x using inc(2) by (simp add: head_ok_def zone_of_def cm'_def)
  have ok1: "head_ok cm hh1" using ok hs(2) by (simp add: head_ok_def hh1_def hh0_def zone_of_def)
  have "zones_ok cm'" using inv inc(2) by (simp add: cm_inv_def zones_ok_def cm'_def)
  moreover have "\<forall>x\<in>set (all_heads cm'). head_ok cm' x" using inv ok1 heads same by (auto simp: cm_inv_def)
  moreover have "distinct (map base_pos (all_heads cm'))"
    using inv heads by (simp add: cm_inv_def hh1_def hh0_def)
  moreover have "\<exists>x\<in>set (all_heads cm'). \<exists>i<head_pos x. backrefs x ! i = r \<and> buf_pos (st' r) = int (base_pos x + i)"
    if r: "buf_pos (st' r) \<noteq> -1" for r
  proof (cases "r = row")
    case True
    then show ?thesis
      using heads ok hs(2) by (intro bexI [of _ hh1] exI [of _ "head_pos hh"]) (auto simp: hh1_def hh0_def st'_def)
  next
    case False
    then have "buf_pos (st r) \<noteq> -1" "st' r = st r" using r by (auto simp: st'_def)
    then obtain x i where x: "x \<in> set (all_heads cm)" "i < head_pos x" "backrefs x ! i = r" "buf_pos (st r) = int (base_pos x + i)"
      using inv by (auto simp: cm_inv_def)
    show ?thesis
    proof (cases "x = hh")
      case True
      then have "hh1 \<in> set (all_heads cm')" "i < head_pos hh1" "backrefs hh1 ! i = r" "base_pos hh1 = base_pos x"
        using x heads by (auto simp: hh1_def hh0_def)
      then show ?thesis using x(4) \<open>st' r = st r\<close> by (intro bexI [of _ hh1] exI [of _ i]) auto
    next
      case False
      then have "x \<in> set (all_heads cm')" using x(1) heads by auto
      then show ?thesis using x \<open>st' r = st r\<close> by (intro bexI [of _ x] exI [of _ i]) auto
    qed
  qed
  ultimately have "cm_inv cm' st'" by (simp add: cm_inv_def)
  moreover have "buf_pos (st' row) = int (base_pos hh + head_pos hh)" "\<forall>r. r \<noteq> row \<longrightarrow> st' r = st r"
    by (simp_all add: st'_def)
  moreover have "length (buffer_heads cm') = length (buffer_heads cm)" using inc(3) by (simp add: cm'_def)
  ultimately show ?thesis using eq by auto
qed

text \<open>A new head gets a range of positions that no other head has.\<close>

lemma AllocHead_inv:
  assumes inv: "cm_inv cm st" and c: "core < length (buffer_heads cm)" and z: "core div kNrCorePerNode < length (g_alloc cm)"
    and left: "heads_left (g_alloc cm ! (core div kNrCorePerNode)) \<noteq> 0"
  shows "\<exists>cm1 hh. AllocHead cm core = Inr (cm1, hh) \<and> head_pos hh = 0
    \<and> buffer_heads cm1 = buffer_heads cm
    \<and> cm_inv (cm1\<lparr>buffer_heads := (buffer_heads cm1)[core := hh # buffer_heads cm1 ! core]\<rparr>) st"
proof -
  let ?z = "core div kNrCorePerNode"
  let ?a = "g_alloc cm ! ?z"
  define a' where "a' = ?a\<lparr>zone_pos := zone_pos ?a + kMaxPos, heads_left := heads_left ?a - 1\<rparr>"
  define cm1 where "cm1 = cm\<lparr>g_alloc := (g_alloc cm)[?z := a']\<rparr>"
  define hh where "hh = \<lparr>base_pos = zone_end ?a, head_pos = 0, owner_core = core, backrefs = replicate kMaxPos 0\<rparr>"
  define cm' where "cm' = cm1\<lparr>buffer_heads := (buffer_heads cm1)[core := hh # buffer_heads cm1 ! core]\<rparr>"
  have eq: "AllocHead cm core = Inr (cm1, hh)"
    using left by (simp add: AllocHead_def Let_def cm1_def a'_def hh_def zone_end_def)
  have zo: "zones_ok cm" "\<forall>x\<in>set (all_heads cm). head_ok cm x" "distinct (map base_pos (all_heads cm))"
    using inv by (auto simp: cm_inv_def)
  have ga: "g_alloc cm' ! i = (if i = ?z then a' else g_alloc cm ! i)" if "i < length (g_alloc cm)" for i
    using that by (simp add: cm'_def cm1_def nth_list_update)
  have la: "length (g_alloc cm') = length (g_alloc cm)" by (simp add: cm'_def cm1_def)
  have ends: "zone_end a' + heads_left a' * kMaxPos = zone_end ?a + heads_left ?a * kMaxPos"
    "zone_base a' = zone_base ?a" "zone_end a' = zone_end ?a + kMaxPos"
  proof -
    obtain m where m: "heads_left ?a = Suc m" using left not0_implies_Suc by blast
    show "zone_end a' + heads_left a' * kMaxPos = zone_end ?a + heads_left ?a * kMaxPos"
      "zone_base a' = zone_base ?a" "zone_end a' = zone_end ?a + kMaxPos"
      by (simp_all add: a'_def zone_end_def m)
  qed
  have dv: "kMaxPos dvd zone_end ?a" using zo(1) z by (simp add: zones_ok_def zone_end_def)
  have zi: "zone_base (g_alloc cm' ! i) = zone_base (g_alloc cm ! i)"
    "zone_end (g_alloc cm' ! i) + heads_left (g_alloc cm' ! i) * kMaxPos = zone_end (g_alloc cm ! i) + heads_left (g_alloc cm ! i) * kMaxPos"
    "kMaxPos dvd zone_pos (g_alloc cm' ! i)"
    if "i < length (g_alloc cm)" for i
    using ga [OF that] ends zo(1) that by (cases "i = ?z"; simp add: zones_ok_def; simp add: a'_def)+
  have "zones_ok cm'" using zo(1) unfolding zones_ok_def la by (simp add: zi)
  moreover have mh: "mset (all_heads cm') = add_mset hh (mset (all_heads cm))"
    using mset_concat_push [of core "buffer_heads cm" hh] c by (simp add: all_heads_def cm'_def cm1_def)
  have sh: "set (all_heads cm') = insert hh (set (all_heads cm))"
    using mset_eq_setD [of "all_heads cm'" "hh # all_heads cm"] mh by simp
  have old: "head_ok cm' x \<and> base_pos x \<noteq> zone_end ?a" if "head_ok cm x" for x
  proof -
    have "head_ok cm' x" using that ga la ends by (auto simp: head_ok_def zone_of_def)
    moreover have "base_pos x \<noteq> zone_end ?a"
    proof (cases "owner_core x div kNrCorePerNode = ?z")
      case True
      then show ?thesis using that by (auto simp: head_ok_def zone_of_def)
    next
      case False
      let ?y = "owner_core x div kNrCorePerNode"
      have "zone_end (g_alloc cm ! ?y) \<le> zone_base ?a \<or> zone_end ?a + heads_left ?a * kMaxPos \<le> zone_base (g_alloc cm ! ?y)"
        using zo(1) that z False by (auto simp: zones_ok_def head_ok_def linorder_neq_iff intro: le_trans [OF le_add1])
      moreover have "0 < heads_left ?a * kMaxPos" using left by (simp add: kMaxPos_def)
      moreover have "zone_base (g_alloc cm ! ?y) \<le> base_pos x" "base_pos x < zone_end (g_alloc cm ! ?y)"
        "zone_base ?a \<le> zone_end ?a"
        using that by (auto simp: head_ok_def zone_of_def zone_end_def)
      ultimately show ?thesis by linarith
    qed
    ultimately show ?thesis ..
  qed
  moreover have new: "head_ok cm' hh"
    using ga [OF z] la z dv ends by (simp add: head_ok_def zone_of_def hh_def) (simp add: zone_end_def kMaxPos_def)
  ultimately have "\<forall>x\<in>set (all_heads cm'). head_ok cm' x" "zones_ok cm'"
    using zo(2) sh by auto
  moreover have "distinct (map base_pos (all_heads cm'))"
  proof -
    have "mset (map base_pos (all_heads cm')) = mset (base_pos hh # map base_pos (all_heads cm))" using mh by simp
    moreover have "base_pos hh \<notin> base_pos ` set (all_heads cm)" 
    proof
      assume "base_pos hh \<in> base_pos ` set (all_heads cm)"
      then obtain x where "x \<in> set (all_heads cm)" "base_pos x = zone_end ?a" by (auto simp: hh_def)
      then show False using old [of x] zo(2) by simp
    qed
    ultimately show ?thesis using mset_eq_imp_distinct_iff zo(3) by (metis distinct.simps(2) list.set_map)
  qed
  moreover have "set (all_heads cm) \<subseteq> set (all_heads cm')"
    using mset_eq_setD [of "all_heads cm'" "hh # all_heads cm"] mh by auto
  ultimately have "cm_inv cm' st" using inv unfolding cm_inv_def by blast
  then show ?thesis using eq by (auto simp: cm'_def hh_def cm1_def)
qed

lemma GetOrInstallBufferPos_inv:
  assumes inv: "cm_inv cm st" and c: "core < length (buffer_heads cm)" "buffer_heads cm ! core = hh # rest" "owner_core hh = core"
    and left: "heads_left (g_alloc cm ! (core div kNrCorePerNode)) \<noteq> 0"
  shows "\<exists>cm' st' p. GetOrInstallBufferPos cm st core row = Inr (cm', st', p) \<and> cm_inv cm' st'
    \<and> p = buf_pos (st' row) \<and> p \<noteq> -1 \<and> (\<forall>r. r \<noteq> row \<longrightarrow> st' r = st r)"
proof (cases "buf_pos (st row) \<noteq> -1")
  case True
  then show ?thesis using inv by (simp add: GetOrInstallBufferPos_def)
next
  case False
  then have free: "buf_pos (st row) = -1" by simp
  have "hh \<in> set (all_heads cm)"
    using concat_update_split(2) [OF c(1)] c(2) by (simp add: all_heads_def)
  then have z: "core div kNrCorePerNode < length (g_alloc cm)" using inv c(3) by (auto simp: cm_inv_def head_ok_def)
  show ?thesis
  proof (cases "head_pos hh \<ge> kMaxPos")
    case True
    obtain cm1 hh1 where a: "AllocHead cm core = Inr (cm1, hh1)" "head_pos hh1 = 0" "buffer_heads cm1 = buffer_heads cm"
      "cm_inv (cm1\<lparr>buffer_heads := (buffer_heads cm1)[core := hh1 # buffer_heads cm1 ! core]\<rparr>) st"
      using AllocHead_inv [OF inv c(1) z left] by blast
    let ?cm2 = "cm1\<lparr>buffer_heads := (buffer_heads cm1)[core := hh1 # buffer_heads cm1 ! core]\<rparr>"
    have "install ?cm2 st core row = GetOrInstallBufferPos cm st core row"
      using free c True a(1,3) by (simp add: GetOrInstallBufferPos_def)
    then show ?thesis
      using install_inv [OF a(4) free, of core hh1 "hh # rest"] a(2,3) c by (auto simp: kMaxPos_def)
  next
    case not_full: False
    then have "GetOrInstallBufferPos cm st core row = install cm st core row"
      using free c by (simp add: GetOrInstallBufferPos_def)
    then show ?thesis using install_inv [OF inv free c(1,2)] not_full by auto
  qed
qed

end
