(* ===== verification/Binpack.thy ===== *)
theory Binpack
  imports Felis_Prelude
begin

text \<open>
  The packing of contended rows onto a core, \<open>ContentionManager::BinPack\<close> of
  \<^verbatim>\<open>src/contention_manager.cc\<close>: a 0/1 knapsack table over the weights of the rows
  that are not packed yet (\<open>None\<close> is a null entry of the \<open>knapsacks\<close> array) and the walk
  back through the trace bits. It is shown equal to the recursive optimum, which is the
  largest load of a subset of the rows that stays below the limit.
\<close>

section \<open>The table\<close>

text \<open>One row of the table from the previous one, with its trace bits.\<close>

definition pack_cell :: "nat \<Rightarrow> nat list \<Rightarrow> nat \<Rightarrow> bool" where
  "pack_cell wi pf w \<longleftrightarrow> w \<ge> wi \<and> pf ! (w - wi) + wi > pf ! w"

definition pack_row :: "nat \<Rightarrow> nat list \<Rightarrow> nat list" where
  "pack_row wi pf = map (\<lambda>w. if pack_cell wi pf w then pf ! (w - wi) + wi else pf ! w) [0..<length pf]"

definition pack_trace :: "nat \<Rightarrow> nat list \<Rightarrow> bool list" where
  "pack_trace wi pf = map (pack_cell wi pf) [0..<length pf]"

fun pack_fill :: "nat option list \<Rightarrow> nat list \<Rightarrow> nat list \<times> bool list list" where
  "pack_fill [] pf = (pf, [])"
| "pack_fill (None # ks) pf = (let (pf', tr) = pack_fill ks pf in (pf', [] # tr))"
| "pack_fill (Some wi # ks) pf =
     (let (pf', tr) = pack_fill ks (pack_row wi pf) in (pf', pack_trace wi pf # tr))"

text \<open>The walk from the last row to the first; the list runs in that order.\<close>

fun pack_back :: "(nat option \<times> bool list) list \<Rightarrow> nat \<Rightarrow> bool list" where
  "pack_back [] w = []"
| "pack_back ((None, t) # r) w = False # pack_back r w"
| "pack_back ((Some wi, t) # r) w = (if t ! w then True # pack_back r (w - wi) else False # pack_back r w)"

text \<open>The load packed and, per row, whether it is packed.\<close>

definition pack_select :: "nat option list \<Rightarrow> nat \<Rightarrow> nat \<times> bool list" where
  "pack_select ks limit =
     (let (pf, tr) = pack_fill ks (replicate limit 0)
      in (pf ! (limit - 1), rev (pack_back (rev (zip ks tr)) (limit - 1))))"

section \<open>The optimum\<close>

text \<open>Rows in reverse order; a null entry changes nothing.\<close>

fun best :: "nat option list \<Rightarrow> nat \<Rightarrow> nat" where
  "best [] w = 0"
| "best (None # ks) w = best ks w"
| "best (Some wi # ks) w = (if wi \<le> w \<and> best ks (w - wi) + wi > best ks w then best ks (w - wi) + wi else best ks w)"

definition load :: "nat option list \<Rightarrow> bool list \<Rightarrow> nat" where
  "load ks bs = (\<Sum>(k, b)\<leftarrow>zip ks bs. if b then (case k of None \<Rightarrow> 0 | Some wi \<Rightarrow> wi) else 0)"

lemma load_simps [simp]:
  "load [] bs = 0" "load (None # ks) (b # bs) = load ks bs"
  "load (Some wi # ks) (b # bs) = (if b then wi else 0) + load ks bs"
  by (auto simp: load_def)

lemma load_rev: "length bs = length ks \<Longrightarrow> load (rev ks) (rev bs) = load ks bs"
  by (simp add: load_def zip_rev rev_map [symmetric] del: rev_map)

lemma best_le: "best ks w \<le> w"
  by (induction ks w rule: best.induct) auto

lemma best_upper: "length bs = length ks \<Longrightarrow> load ks bs \<le> w \<Longrightarrow> load ks bs \<le> best ks w"
proof (induction ks arbitrary: w bs)
  case (Cons k ks)
  then obtain b bs' where bs: "bs = b # bs'" "length bs' = length ks" by (cases bs) auto
  show ?case
  proof (cases k)
    case None
    then show ?thesis using Cons bs by simp
  next
    case (Some wi)
    show ?thesis
    proof (cases b)
      case True
      then have "wi \<le> w" "load ks bs' \<le> w - wi" using Cons.prems bs Some by auto
      then have "load ks bs' \<le> best ks (w - wi)" using Cons.IH [OF bs(2)] by simp
      then show ?thesis using True bs \<open>wi \<le> w\<close> Some by auto
    next
      case False
      then have "load ks bs' \<le> best ks w" using Cons.IH [OF bs(2)] Cons.prems bs Some by simp
      then show ?thesis using False bs Some by auto
    qed
  qed
qed simp

fun sel :: "nat option list \<Rightarrow> nat \<Rightarrow> bool list" where
  "sel [] w = []"
| "sel (None # ks) w = False # sel ks w"
| "sel (Some wi # ks) w =
     (if wi \<le> w \<and> best ks (w - wi) + wi > best ks w then True # sel ks (w - wi) else False # sel ks w)"

lemma length_sel [simp]: "length (sel ks w) = length ks"
  by (induction ks w rule: sel.induct) auto

lemma load_sel: "load ks (sel ks w) = best ks w"
  by (induction ks w rule: sel.induct) auto

section \<open>The table computes the optimum\<close>

lemma length_pack_row [simp]: "length (pack_row wi pf) = length pf"
  by (simp add: pack_row_def)

lemma pack_row_best:
  assumes "\<And>w. w < limit \<Longrightarrow> pf ! w = best ks w" "length pf = limit" "w < limit"
  shows "pack_row wi pf ! w = best (Some wi # ks) w"
    "pack_trace wi pf ! w \<longleftrightarrow> wi \<le> w \<and> best ks (w - wi) + wi > best ks w"
  using assms by (auto simp: pack_row_def pack_trace_def pack_cell_def)

lemma pack_fill_append:
  "pack_fill (ks @ [k]) pf =
     (let (pf', tr) = pack_fill ks pf in
      case k of None \<Rightarrow> (pf', tr @ [[]]) | Some wi \<Rightarrow> (pack_row wi pf', tr @ [pack_trace wi pf']))"
  by (induction ks pf rule: pack_fill.induct) (auto simp: split_beta Let_def split: option.splits)

lemma pack_fill_spec:
  "pack_fill ks (replicate limit 0) = (pf, tr) \<Longrightarrow>
   length tr = length ks \<and> length pf = limit \<and> (\<forall>w<limit. pf ! w = best (rev ks) w)
   \<and> (\<forall>w<limit. pack_back (rev (zip ks tr)) w = sel (rev ks) w)"
proof (induction ks arbitrary: pf tr rule: rev_induct)
  case (snoc k ks)
  obtain pf1 tr1 where f: "pack_fill ks (replicate limit 0) = (pf1, tr1)" by (cases "pack_fill ks (replicate limit 0)")
  note IH = snoc.IH [OF f]
  show ?case
  proof (cases k)
    case None
    then show ?thesis using IH snoc.prems f by (auto simp: pack_fill_append)
  next
    case (Some wi)
    then have pf: "pf = pack_row wi pf1" "tr = tr1 @ [pack_trace wi pf1]"
      using snoc.prems f by (auto simp: pack_fill_append)
    have l: "length pf1 = limit" and b: "\<And>w. w < limit \<Longrightarrow> pf1 ! w = best (rev ks) w" using IH by auto
    have "pack_back (rev (zip (ks @ [k]) tr)) w = sel (rev (ks @ [k])) w" if "w < limit" for w
      using pack_row_best(2) [OF b l that, of wi] IH that by (simp add: pf Some)
    moreover have "pf ! w = best (rev (ks @ [k])) w" if "w < limit" for w
      using pack_row_best(1) [OF b l that, of wi] by (simp add: pf Some)
    ultimately show ?thesis using IH by (simp add: pf)
  qed
qed auto

text \<open>
  The packed load is what the packed rows weigh, it stays below the limit, and no other
  choice of rows below the limit weighs more.
\<close>

lemma pack_select_optimal:
  assumes "0 < limit" "pack_select ks limit = (c, bs)"
  shows "length bs = length ks \<and> load ks bs = c \<and> c < limit
    \<and> (\<forall>bs'. length bs' = length ks \<and> load ks bs' < limit \<longrightarrow> load ks bs' \<le> c)"
proof -
  obtain pf tr where f: "pack_fill ks (replicate limit 0) = (pf, tr)" by (cases "pack_fill ks (replicate limit 0)")
  let ?w = "limit - 1"
  have w: "?w < limit" using assms(1) by simp
  note sp = pack_fill_spec [OF f]
  have c: "c = best (rev ks) ?w" and bs: "bs = rev (sel (rev ks) ?w)"
    using assms(2) sp w by (auto simp: pack_select_def f)
  have "load ks bs = load (rev ks) (sel (rev ks) ?w)"
    using load_rev [of "sel (rev ks) ?w" "rev ks"] by (simp add: bs)
  then have "load ks bs = c" by (simp add: load_sel c)
  moreover have "c < limit" using best_le [of "rev ks" ?w] w by (simp add: c)
  moreover have "load ks bs' \<le> c" if "length bs' = length ks" "load ks bs' < limit" for bs'
    using best_upper [of "rev bs'" "rev ks" ?w] load_rev [OF that(1)] that by (simp add: c)
  ultimately show ?thesis by (simp add: bs)
qed

end
