(* ===== verification/Contention_Reset.thy ===== *)
theory Contention_Reset
  imports Contention Binpack
begin

text \<open>
  The end of an epoch in \<^verbatim>\<open>src/contention_manager.cc\<close> (\<open>FinalizeFlush\<close>, \<open>Reset\<close>,
  \<open>BinPack\<close> on rows, \<open>PackLeftOver\<close>) and the entry point of a row that decides between a
  direct and a buffered append (\<open>SortedArrayVHandle::AppendNewVersion\<close>,
  \<^verbatim>\<open>src/vhandle.cc\<close>).
\<close>

section \<open>Appending through the manager\<close>

record append_opts =
  g_lock_elision :: bool
  kVHandleBatchAppend :: bool
  kOnDemandSplitting :: bool
  g_splitting_threshold :: int

text \<open>
  \<open>try1\<close> and \<open>try2\<close> are the outcomes of \<open>TryLock\<close> on the row, before the direct append
  and before the flush of a buffer that is half full.
\<close>

definition append_locked ::
  "env \<Rightarrow> u64 \<Rightarrow> nat \<Rightarrow> int \<Rightarrow> contention_manager \<Rightarrow> gc \<Rightarrow> row_store \<Rightarrow> u64
   \<Rightarrow> (contention_manager \<times> gc \<times> row_store) res" where
  "append_locked env sid e w cm g st row =
     res_bind (AppendNewVersionNoLock env sid e w (g, st row)) (\<lambda>(g', h'). Inr (cm, g', st(row := h')))"

definition AppendNewVersion ::
  "env \<Rightarrow> append_opts \<Rightarrow> bool \<Rightarrow> bool \<Rightarrow> u64 \<Rightarrow> nat \<Rightarrow> int \<Rightarrow> contention_manager \<Rightarrow> gc \<Rightarrow> row_store \<Rightarrow> u64
   \<Rightarrow> (contention_manager \<times> gc \<times> row_store) res" where
  "AppendNewVersion env opts try1 try2 sid e w cm g st row =
     (let h = st row; core = env_core env;
          pending = int (u32_of (int (vsize h) - int (cur_start h))) in
      if g_lock_elision opts \<or> sid = 0 then append_locked env sid e w cm g st row
      else if kVHandleBatchAppend opts then
        if buf_pos h = -1 \<and> pending < g_splitting_threshold opts \<and> try1
        then append_locked env sid e w cm g st row
        else
          res_bind (GetOrInstallBufferPos cm st core row) (\<lambda>(cm1, st1, p).
            if p \<noteq> -1 then
              res_bind (buffer_Append env try2 (nat p) sid e (w \<noteq> 0) (preallocs cm1 ! core) (g, st1 row)) (\<lambda>(pre, g2, h2).
                Inr (cm1\<lparr>preallocs := (preallocs cm1)[core := pre]\<rparr>, g2, st1(row := h2)))
            else append_locked env sid e w cm1 g st1 row)
      else if kOnDemandSplitting opts \<and> buf_pos h = -1 \<and> pending \<ge> g_splitting_threshold opts then
        res_bind (GetOrInstallBufferPos cm st core row) (\<lambda>(cm1, st1, p). append_locked env sid e w cm1 g st1 row)
      else append_locked env sid e w cm g st row)"

section \<open>FinalizeFlush\<close>

text \<open>
  Core \<open>core\<close> flushes its own buffers for the rows of all heads; \<open>lks\<close> are the lock
  outcomes of the passes per head.
\<close>

fun finalize_heads ::
  "env \<Rightarrow> (nat \<Rightarrow> bool) list \<Rightarrow> nat \<Rightarrow> buffer_head list \<Rightarrow> version_prealloc \<times> gc \<times> row_store
   \<Rightarrow> (version_prealloc \<times> gc \<times> row_store) res option" where
  "finalize_heads env lks e [] s = Some (Inr s)"
| "finalize_heads env lks e (hh # hs) s =
     (case ScanAndFinalize env False lks False e (take (head_pos hh) (backrefs hh)) (base_pos hh) s of
        Some (Inr s') \<Rightarrow> finalize_heads env lks e hs s'
      | r \<Rightarrow> r)"

definition FinalizeFlush ::
  "env \<Rightarrow> (nat \<Rightarrow> bool) list \<Rightarrow> nat \<Rightarrow> contention_manager \<Rightarrow> gc \<Rightarrow> row_store
   \<Rightarrow> (version_prealloc \<times> gc \<times> row_store) res option" where
  "FinalizeFlush env lks e cm g st =
     finalize_heads env lks e (concat (buffer_heads cm)) (preallocs cm ! env_core env, g, st)"

section \<open>Reset\<close>

definition contended :: "int \<Rightarrow> vhandle \<Rightarrow> bool" where
  "contended threshold h \<longleftrightarrow> \<not> int (u32_of (int (vsize h) - int (nr_updated h))) \<le> threshold"

text \<open>The rows of all heads, in the order of the loops.\<close>

definition manager_rows :: "nat \<Rightarrow> contention_manager \<Rightarrow> u64 list" where
  "manager_rows nr_threads cm =
     concat (map (\<lambda>hh. take (head_pos hh) (backrefs hh)) (concat (take nr_threads (buffer_heads cm))))"

text \<open>The first loop: the sum of the split weights of the contended rows, an \<open>unsigned int\<close>.\<close>

fun clear_rows :: "append_opts \<Rightarrow> u64 list \<Rightarrow> nat \<Rightarrow> row_store \<Rightarrow> nat \<times> row_store" where
  "clear_rows opts [] sm st = (sm, st)"
| "clear_rows opts (r # rs) sm st =
     (let st' = st(r := (st r)\<lparr>buf_pos := -1\<rparr>);
          sm' = (if kOnDemandSplitting opts \<and> contended (g_splitting_threshold opts) (st' r)
                 then u32_of (int sm + nr_ondsplt (st' r)) else sm)
      in clear_rows opts rs sm' st')"

text \<open>The second loop: \<open>s\<close> is the weight of the rows before; the contended rows are
  returned in the order in which \<open>knapsacks\<close> lists them. \<open>cont_affinity\<close> is an \<open>int8_t\<close>.\<close>

definition i8_of :: "nat \<Rightarrow> int" where
  "i8_of n = (int n + 128) mod 256 - 128"

fun assign_affinity :: "nat \<Rightarrow> nat \<Rightarrow> int \<Rightarrow> u64 list \<Rightarrow> nat \<Rightarrow> row_store \<Rightarrow> row_store \<times> u64 list" where
  "assign_affinity nr_threads sm threshold [] s st = (st, [])"
| "assign_affinity nr_threads sm threshold (r # rs) s st =
     (if \<not> contended threshold (st r) then assign_affinity nr_threads sm threshold rs s st
      else
        let w = nr_ondsplt (st r);
            st' = st(r := (st r)\<lparr>cont_affinity := i8_of (nr_threads * u32_of (int s + w div 2) div sm)\<rparr>);
            (st'', ks) = assign_affinity nr_threads sm threshold rs (u32_of (int s + w)) st'
        in (st'', r # ks))"

text \<open>\<open>BinPack\<close> and \<open>PackLeftOver\<close> on the array of rows; a row is packed at most once.\<close>

fun set_affinity :: "int \<Rightarrow> u64 option list \<Rightarrow> bool list \<Rightarrow> row_store \<Rightarrow> row_store" where
  "set_affinity label [] bs st = st"
| "set_affinity label (k # ks) [] st = st"
| "set_affinity label (k # ks) (b # bs) st =
     set_affinity label ks bs (case k of Some r \<Rightarrow> if b then st(r := (st r)\<lparr>cont_affinity := label\<rparr>) else st | None \<Rightarrow> st)"

definition knap_weights :: "row_store \<Rightarrow> u64 option list \<Rightarrow> nat option list" where
  "knap_weights st ks = map (map_option (\<lambda>r. nat (nr_ondsplt (st r)))) ks"

definition unpacked :: "u64 option list \<Rightarrow> bool list \<Rightarrow> u64 option list" where
  "unpacked ks bs = map2 (\<lambda>k b. if b then None else k) ks bs"

definition BinPack :: "row_store \<Rightarrow> u64 option list \<Rightarrow> int \<Rightarrow> nat \<Rightarrow> row_store \<times> u64 option list \<times> nat" where
  "BinPack st ks label limit =
     (if limit = 0 then (st, ks, 0)
      else
        let (maxcap, bs) = pack_select (knap_weights st ks) limit
        in (set_affinity label ks bs st, unpacked ks bs, maxcap))"

definition PackLeftOver :: "row_store \<Rightarrow> u64 option list \<Rightarrow> int \<Rightarrow> row_store" where
  "PackLeftOver st ks label = set_affinity label ks (replicate (length ks) True) st"

text \<open>One core after the other is filled up to its share; \<open>delta\<close> carries over what the
  cores before left free. The result lists the load of each core.\<close>

fun pack_cores :: "nat list \<Rightarrow> nat \<Rightarrow> nat \<Rightarrow> row_store \<Rightarrow> u64 option list \<Rightarrow> row_store \<times> u64 option list \<times> nat list" where
  "pack_cores [] hard_limit delta st ks = (st, ks, [])"
| "pack_cores (c # cs) hard_limit delta st ks =
     (let (st', ks', n) = BinPack st ks (int c) (hard_limit + 1 + delta);
          (st'', ks'', ls) = pack_cores cs hard_limit (hard_limit + delta - n) st' ks'
      in (st'', ks'', n # ls))"

text \<open>Freeing the heads of core after core, and resetting the zones.\<close>

definition free_heads :: "nat \<Rightarrow> contention_manager \<Rightarrow> contention_manager" where
  "free_heads nr_threads cm =
     fold (\<lambda>core cm. let z = core div kNrCorePerNode; a = g_alloc cm ! z in
             cm\<lparr>g_alloc := (g_alloc cm)[z := a\<lparr>heads_left := heads_left a + length (buffer_heads cm ! core)\<rparr>]\<rparr>)
       [0..<nr_threads] cm"

definition rewind_zones :: "nat \<Rightarrow> contention_manager \<Rightarrow> contention_manager" where
  "rewind_zones nr_threads cm =
     fold (\<lambda>n cm. cm\<lparr>g_alloc := (g_alloc cm)[n := (g_alloc cm ! n)\<lparr>zone_pos := 0\<rparr>]\<rparr>) [0..<nr_threads div kNrCorePerNode] cm"

fun reset_heads :: "nat list \<Rightarrow> contention_manager \<Rightarrow> contention_manager res" where
  "reset_heads [] cm = Inr cm"
| "reset_heads (c # cs) cm =
     res_bind (AllocHead cm c) (\<lambda>(cm', hh).
       reset_heads cs (cm'\<lparr>buffer_heads := (buffer_heads cm')[c := [hh]]\<rparr>))"

text \<open>The last component of the result lists the \<open>PlanLoad\<close> calls on the contention
  locality manager.\<close>

definition Reset_cm ::
  "append_opts \<Rightarrow> bool \<Rightarrow> nat \<Rightarrow> contention_manager \<Rightarrow> row_store \<Rightarrow> (contention_manager \<times> row_store \<times> (int \<times> int) list) res" where
  "Reset_cm opts kBinpackSplitting nr_threads cm st =
     (let rs = manager_rows nr_threads cm;
          (sm0, st1) = clear_rows opts rs 0 st;
          sm = (if sm0 < nr_threads then 0 else sm0);
          (st2, ks) = (if sm = 0 then (st1, [])
                       else assign_affinity nr_threads sm (g_splitting_threshold opts) rs 0 st1);
          planned = (if kBinpackSplitting then [] else map (\<lambda>r. (cont_affinity (st2 r), nr_ondsplt (st2 r))) ks);
          st3 = (if kBinpackSplitting \<and> sm > 0
                 then let (st', ks', ls) = pack_cores [0..<nr_threads - 1] (sm div nr_threads) 0 st2 (map Some ks)
                      in PackLeftOver st' ks' (int nr_threads - 1)
                 else st2);
          cm1 = rewind_zones nr_threads (free_heads nr_threads (cm\<lparr>est_split := sm\<rparr>))
      in res_bind (reset_heads [0..<nr_threads] cm1) (\<lambda>cm'. Inr (cm', st3, planned)))"

text \<open>The constructor: \<open>pre\<close> is the memory of the buffers of each core.\<close>

definition ContentionManager ::
  "append_opts \<Rightarrow> bool \<Rightarrow> nat \<Rightarrow> nat \<Rightarrow> version_prealloc list \<Rightarrow> row_store
   \<Rightarrow> (contention_manager \<times> row_store \<times> (int \<times> int) list) res" where
  "ContentionManager opts kBinpackSplitting nr_threads g_prealloc_count pre st =
     (let nr_numa_zone = nr_threads div kNrCorePerNode in
      if nr_numa_zone = 0 then Inl (Abort ''division by zero'')
      else
        let cap = g_prealloc_count div nr_numa_zone div kMaxPos;
            al = map (\<lambda>i. \<lparr>zone_base = g_prealloc_count div nr_numa_zone * i, zone_pos = 0, heads_left = cap\<rparr>) [0..<nr_numa_zone]
        in Reset_cm opts kBinpackSplitting nr_threads
             \<lparr>preallocs = pre, buffer_heads = replicate nr_threads [], g_alloc = al, est_split = 0\<rparr> st)"

section \<open>Buffered appends refine the abstract store\<close>

definition buffered :: "version_prealloc \<Rightarrow> nat \<Rightarrow> u64 list" where
  "buffered p pos = take (buf_cnt (version_buffers p ! pos)) (buf_versions (version_buffers p ! pos))"

definition buf_ok :: "version_prealloc \<Rightarrow> nat \<Rightarrow> bool" where
  "buf_ok p pos \<longleftrightarrow> pos < length (version_buffers p) \<and> length (buf_versions (version_buffers p ! pos)) = kMaxBatch
     \<and> buf_cnt (version_buffers p ! pos) \<le> kMaxBatch"

abbreviation pending :: "u64 list \<Rightarrow> (u64 \<times> u64) list" where
  "pending bs \<equiv> map (\<lambda>b. (b, kPendingValue)) bs"

definition with_buffer :: "nat \<Rightarrow> version_prealloc \<Rightarrow> nat \<Rightarrow> vhandle \<Rightarrow> epoch_store" where
  "with_buffer e p pos h = put_all (abs_row e h) (pending (buffered p pos))"

lemma length_buffered: "buf_ok p pos \<Longrightarrow> length (buffered p pos) = buf_cnt (version_buffers p ! pos)"
  by (simp add: buf_ok_def buffered_def)

lemma vh_init_ondsplt [simp]:
  "vh_init e (h\<lparr>nr_ondsplt := x\<rparr>) = vh_init e h" "abs_row e (h\<lparr>nr_ondsplt := x\<rparr>) = abs_row e h"
  "ver (h\<lparr>nr_ondsplt := x\<rparr>) = ver h"
  by (simp_all add: vh_init_def vh_inv_def vh_shape_def ver_def obj_def nold_def abs_row_def)

lemma FlushIntoNoLock_empties:
  assumes "buf_ok p pos" "FlushIntoNoLock p pos x h = Inr (p', h')"
  shows "buffered p' pos = [] \<and> buf_ok p' pos"
  using assms by (auto simp: FlushIntoNoLock_def Let_def res_bind_Inr_iff buffered_def buf_ok_def set_buf_def clear_pos_bit_def)

text \<open>Growing a row by the size of a buffer and flushing the buffer into it.\<close>

lemma flush_refines:
  assumes init: "vh_init e h" and ok: "buf_ok p pos" and sz: "vsize h + kMaxBatch \<le> 2 ^ 29" and al: "alloc_ok env"
    and bs: "\<forall>b\<in>set (buffered p pos). epoch_of b = e \<and> b \<notin> set (ver h)" "distinct (buffered p pos)"
    and inc: "IncreaseSize env (buf_cnt (version_buffers p ! pos)) e (g, h) = Inr (g1, h1)"
    and fl: "FlushIntoNoLock p pos (vsize h1 - buf_cnt (version_buffers p ! pos)) h1 = Inr (p', h')"
  shows "vh_init e h' \<and> with_buffer e p' pos h' = with_buffer e p pos h \<and> buffered p' pos = [] \<and> buf_ok p' pos"
proof -
  let ?c = "buf_cnt (version_buffers p ! pos)"
  have c: "?c \<le> kMaxBatch" "?c \<le> length (buf_versions (version_buffers p ! pos))" using ok by (auto simp: buf_ok_def)
  have sz': "vsize h + ?c \<le> 2 ^ 29" "?c < 524288" using c(1) sz by (simp_all add: kMaxBatch_def)
  from IncreaseSize_spec [OF init sz' al inc] obtain k where
    r: "renewed ?c k (nold e h) h h1" by blast
  then have gr: "grown ?c k h h1" and k: "k = 0 \<or> k < nold e h" "k \<le> vsize h" and cs: "cur_start h1 = nold e h - k"
    by (auto simp: renewed_def grown_def)
  have g: "vh_shape h1" "take (vsize h - k) (versions h1) = drop k (ver h)" "vsize h1 = (vsize h - k) + ?c"
    "obj h1 = drop k (obj h) @ replicate ?c kPendingValue" "latest_version h1 = latest_version h - int k"
    using gr by (auto simp: grown_def)
  have "sorted (take (vsize h - k) (versions h1))"
    using init unfolding g(2) by (simp add: vh_init_def vh_inv_def sorted_wrt_drop)
  from FlushIntoNoLock_spec [OF g(1) this g(3) c(2)] fl have
    f: "ver h' = sort (drop k (ver h) @ buffered p pos)" "obj h' = obj h1" "vh_shape h'" "vsize h' = vsize h1"
      "latest_version h' = latest_version h1" "cur_start h' = cur_start h1"
    unfolding g(2) buffered_def by auto
  have "vsize h' = vsize h - k + length (buffered p pos)" using f(4) g(3) length_buffered [OF ok] by simp
  from merge_refines [OF init k f(3) this f(1)] have
    "vh_init e h' \<and> abs_row e h' = put_all (abs_row e h) (pending (buffered p pos))"
    using f g cs bs length_buffered [OF ok] by simp
  then show ?thesis using FlushIntoNoLock_empties [OF ok fl] by (simp add: with_buffer_def)
qed

text \<open>
  \<open>VersionBufferHandle::Append\<close> adds the version to the row together with its buffer,
  whichever way it takes: buffered, buffered and flushed, or appended directly when the
  buffer is full.
\<close>

lemma buffer_Append_refines:
  assumes init: "vh_init e h" and ok: "buf_ok p pos" and sz: "vsize h + 1 + kMaxBatch \<le> 2 ^ 29" and al: "alloc_ok env"
    and bs: "\<forall>b\<in>set (sid # buffered p pos). epoch_of b = e \<and> b \<notin> set (ver h)" "distinct (sid # buffered p pos)"
    and res: "buffer_Append env tlk pos sid e od p (g, h) = Inr (p', g', h')"
  shows "vh_init e h' \<and> with_buffer e p' pos h' = put (with_buffer e p pos h) sid kPendingValue \<and> buf_ok p' pos"
proof (cases "buf_cnt (version_buffers p ! pos) = kMaxBatch")
  case True
  let ?c = "buf_cnt (version_buffers p ! pos)"
  from res True obtain g1 h1 h2 g3 h3 where
    s: "AppendNewVersionNoLock env sid e (if od then 1 else 0) (g, h) = Inr (g1, h1)"
      "h2 = (if od then h1\<lparr>nr_ondsplt := nr_ondsplt h1 + 1\<rparr> else h1)"
      "IncreaseSize env ?c e (g1, h2) = Inr (g3, h3)"
      "FlushIntoNoLock p pos (vsize h3 - ?c) h3 = Inr (p', h')"
    by (fastforce simp: buffer_Append_def Let_def res_bind_Inr_iff)
  have sz1: "vsize h + 1 \<le> 2 ^ 29" using sz by simp
  have e: "epoch_of sid = e" "sid \<notin> set (ver h)" using bs(1) by auto
  note a = AppendNewVersionNoLock_refines [OF init sz1 al e s(1)]
  have i2: "vh_init e h2" "abs_row e h2 = put (abs_row e h) sid kPendingValue" using a s(2) by auto
  from AppendNewVersionNoLock_versions [OF init sz1 al s(1)] obtain k where
    "vsize h1 = vsize h - k + 1" "ver h1 = sort (drop k (ver h) @ [sid])" by blast
  then have v: "vsize h2 + kMaxBatch \<le> 2 ^ 29" "set (ver h2) \<subseteq> insert sid (set (ver h))"
    using sz s(2) by (auto dest: in_set_dropD)
  have "\<forall>b\<in>set (buffered p pos). epoch_of b = e \<and> b \<notin> set (ver h2)" "distinct (buffered p pos)" using bs v(2) by auto
  from flush_refines [OF i2(1) ok v(1) al this s(3,4)]
  have "vh_init e h' \<and> with_buffer e p' pos h' = put_all (put (abs_row e h) sid kPendingValue) (pending (buffered p pos)) \<and> buf_ok p' pos"
    unfolding with_buffer_def i2(2) by blast
  moreover have "sid \<notin> fst ` set (pending (buffered p pos))" using bs(2) by auto
  ultimately show ?thesis using put_all_put [of sid "pending (buffered p pos)"] by (simp add: with_buffer_def)
next
  case False
  let ?b = "version_buffers p ! pos"
  define p1 where "p1 = (if buf_cnt ?b = 0 then set_pos_bit pos p else p)"
  define b1 where "b1 = ?b\<lparr>buf_cnt := buf_cnt ?b + 1, ondsplt_cnt := ondsplt_cnt ?b + (if od then 1 else 0),
                      buf_versions := (buf_versions ?b)[buf_cnt ?b := sid]\<rparr>"
  define p2 where "p2 = set_buf pos b1 p1"
  have l: "buf_cnt ?b < kMaxBatch" "length (buf_versions ?b) = kMaxBatch" "pos < length (version_buffers p)"
    using ok False by (auto simp: buf_ok_def)
  have vb: "version_buffers p2 ! pos = b1" "buf_ok p2 pos"
    using l by (auto simp: p2_def p1_def set_buf_def set_pos_bit_def buf_ok_def b1_def)
  have bf: "buffered p2 pos = buffered p pos @ [sid]"
    using l by (simp add: buffered_def vb(1)) (simp add: b1_def take_Suc_conv_app_nth)
  have w2: "with_buffer e p2 pos h = put (with_buffer e p pos h) sid kPendingValue"
  proof -
    have "put_all s (ws @ [(sid, x)]) = put (put_all s ws) sid x" for s ws x
      by (induction s ws rule: put_all.induct) auto
    then show ?thesis by (simp add: with_buffer_def bf)
  qed
  have res': "(if buf_cnt b1 > kMaxBatch div 2 \<and> tlk then
            res_bind (IncreaseSize env (buf_cnt b1) e (g, h)) (\<lambda>(g1, h1).
            res_bind (FlushIntoNoLock p2 pos (vsize h1 - buf_cnt b1) h1) (\<lambda>(p', h2). Inr (p', g1, h2)))
          else Inr (p2, g, h)) = Inr (p', g', h')"
    using res False by (auto simp: buffer_Append_def Let_def p1_def [symmetric] b1_def [symmetric] p2_def simp del: One_nat_def split: if_splits)
  show ?thesis
  proof (cases "buf_cnt b1 > kMaxBatch div 2 \<and> tlk")
    case True
    then obtain g1 h1 where f: "IncreaseSize env (buf_cnt b1) e (g, h) = Inr (g1, h1)"
      "FlushIntoNoLock p2 pos (vsize h1 - buf_cnt b1) h1 = Inr (p', h')"
      using res' by (fastforce simp: res_bind_Inr_iff)
    have b2: "\<forall>b\<in>set (buffered p2 pos). epoch_of b = e \<and> b \<notin> set (ver h)" "distinct (buffered p2 pos)"
      using bs by (auto simp: bf)
    have "vsize h + kMaxBatch \<le> 2 ^ 29" using sz by simp
    from flush_refines [OF init vb(2) this al b2] show ?thesis using f w2 vb(1) by simp
  next
    case False
    then have "p' = p2" "h' = h" using res' by auto
    then show ?thesis using init w2 vb(2) by simp
  qed
qed

section \<open>Affinities\<close>

definition wt :: "row_store \<Rightarrow> u64 \<Rightarrow> nat" where
  "wt st r = nat (nr_ondsplt (st r))"

definition same_but_affinity :: "row_store \<Rightarrow> row_store \<Rightarrow> bool" where
  "same_but_affinity st st' \<longleftrightarrow> (\<forall>r. \<exists>a. st' r = (st r)\<lparr>cont_affinity := a\<rparr>)"

lemma affinity_self: "\<exists>a. h = h\<lparr>cont_affinity := a\<rparr>"
  by (intro exI [of _ "cont_affinity h"]) simp

lemma same_but_affinity_refl [simp]: "same_but_affinity st st"
  by (simp add: same_but_affinity_def affinity_self)

lemma same_but_affinity_trans:
  "same_but_affinity a b \<Longrightarrow> same_but_affinity b c \<Longrightarrow> same_but_affinity a c"
  unfolding same_but_affinity_def
proof (intro allI)
  fix r assume "\<forall>r. \<exists>x. b r = (a r)\<lparr>cont_affinity := x\<rparr>" "\<forall>r. \<exists>x. c r = (b r)\<lparr>cont_affinity := x\<rparr>"
  then obtain x y where "b r = (a r)\<lparr>cont_affinity := x\<rparr>" "c r = (b r)\<lparr>cont_affinity := y\<rparr>" by blast
  then show "\<exists>x. c r = (a r)\<lparr>cont_affinity := x\<rparr>" by (intro exI [of _ y]) simp
qed

lemma same_but_affinity_upd [simp]: "same_but_affinity st (st(r := (st r)\<lparr>cont_affinity := a\<rparr>))"
  by (auto simp: same_but_affinity_def affinity_self)

lemma same_but_affinityD:
  assumes "same_but_affinity st st'"
  shows "wt st' r = wt st r" "contended thr (st' r) = contended thr (st r)" "nr_ondsplt (st' r) = nr_ondsplt (st r)"
  using assms spec [of _ r] unfolding same_but_affinity_def
  by (auto dest!: spec [of _ r] simp: wt_def contended_def nr_updated_def)

lemma i8_of_small: "n < 128 \<Longrightarrow> i8_of n = int n"
  by (simp add: i8_of_def)

text \<open>
  The \<open>i\<close>-th contended row gets the core in whose share of the total weight the middle
  of its own interval of weights lies.
\<close>

lemma assign_affinity_spec:
  assumes "distinct rs" "\<forall>r\<in>set rs. 0 \<le> nr_ondsplt (st r)"
    and "s + (\<Sum>r\<leftarrow>filter (\<lambda>r. contended thr (st r)) rs. wt st r) < 2 ^ 32"
    and "assign_affinity nr sm thr rs s st = (st', ks)"
  shows "ks = filter (\<lambda>r. contended thr (st r)) rs \<and> same_but_affinity st st' \<and> (\<forall>r. r \<notin> set rs \<longrightarrow> st' r = st r)
    \<and> (\<forall>i<length ks. cont_affinity (st' (ks ! i)) =
         i8_of (nr * (s + (\<Sum>r\<leftarrow>take i ks. wt st r) + wt st (ks ! i) div 2) div sm))"
  using assms
proof (induction rs arbitrary: s st st' ks)
  case (Cons r rs)
  show ?case
  proof (cases "contended thr (st r)")
    case False
    then show ?thesis using Cons.IH [of st s st' ks] Cons.prems by auto
  next
    case True
    let ?w = "wt st r"
    let ?st = "st(r := (st r)\<lparr>cont_affinity := i8_of (nr * (s + ?w div 2) div sm)\<rparr>)"
    have w: "nr_ondsplt (st r) = int ?w" using Cons.prems(2) by (simp add: wt_def)
    have b: "s + ?w < 2 ^ 32" "s + ?w div 2 < 2 ^ 32"
      using Cons.prems(3) True div_le_dividend [of ?w 2] by simp_all
    have "u32_of (int s + nr_ondsplt (st r)) = s + ?w" "u32_of (int s + nr_ondsplt (st r) div 2) = s + ?w div 2"
      using b unfolding w u32_of_def by (simp_all add: nat_add_distrib zdiv_int [symmetric] flip: of_nat_add)
    then obtain ks' where r: "assign_affinity nr sm thr rs (s + ?w) ?st = (st', ks')" "ks = r # ks'"
      using Cons.prems(4) True by (auto simp: Let_def split: prod.splits)
    have ne: "r \<notin> set rs" using Cons.prems(1) by simp
    have e: "wt ?st = wt st" "\<And>x. contended thr (?st x) = contended thr (st x)"
      "\<And>x. nr_ondsplt (?st x) = nr_ondsplt (st x)"
      using same_but_affinityD [OF same_but_affinity_upd] by (blast intro: ext)+
    have lt: "s + ?w + (\<Sum>r\<leftarrow>filter (\<lambda>r. contended thr (?st r)) rs. wt ?st r) < 2 ^ 32"
      using Cons.prems(3) True unfolding e by simp
    have nn: "\<forall>r\<in>set rs. 0 \<le> nr_ondsplt (?st r)" using Cons.prems(2) unfolding e by simp
    have "distinct rs" using Cons.prems(1) by simp
    from Cons.IH [OF this nn lt r(1), unfolded e] have IH: "ks' = filter (\<lambda>r. contended thr (st r)) rs" "same_but_affinity ?st st'"
      "\<And>x. x \<notin> set rs \<Longrightarrow> st' x = ?st x"
      "\<And>i. i < length ks' \<Longrightarrow> cont_affinity (st' (ks' ! i)) =
         i8_of (nr * (s + ?w + (\<Sum>r\<leftarrow>take i ks'. wt st r) + wt st (ks' ! i) div 2) div sm)"
      by blast+
    have "cont_affinity (st' (ks ! i)) = i8_of (nr * (s + (\<Sum>r\<leftarrow>take i ks. wt st r) + wt st (ks ! i) div 2) div sm)"
      if "i < length ks" for i
    proof (cases i)
      case 0
      then show ?thesis using IH(3) [OF ne] by (simp add: r(2))
    next
      case (Suc j)
      then show ?thesis using IH(4) [of j] that by (simp add: r(2) add.assoc)
    qed
    moreover have "same_but_affinity st st'" by (rule same_but_affinity_trans [OF same_but_affinity_upd IH(2)])
    moreover have "ks = filter (\<lambda>r. contended thr (st r)) (r # rs)" using IH(1) True by (simp add: r(2))
    moreover have "\<forall>x. x \<notin> set (r # rs) \<longrightarrow> st' x = st x" using IH(3) by simp
    ultimately show ?thesis by blast
  qed
qed simp

text \<open>Every contended row of positive weight gets one of the cores.\<close>

lemma assign_affinity_core:
  assumes "distinct rs" "\<forall>r\<in>set rs. 0 \<le> nr_ondsplt (st r)" "sm < 2 ^ 32" "0 < nr" "nr < 128"
    and "sm = (\<Sum>r\<leftarrow>filter (\<lambda>r. contended thr (st r)) rs. wt st r)"
    and "assign_affinity nr sm thr rs 0 st = (st', ks)" "r \<in> set ks" "0 < nr_ondsplt (st r)"
  shows "0 \<le> cont_affinity (st' r) \<and> cont_affinity (st' r) < int nr"
proof -
  have lt: "0 + (\<Sum>r\<leftarrow>filter (\<lambda>r. contended thr (st r)) rs. wt st r) < 2 ^ 32" using assms(3,6) by simp
  note sp = assign_affinity_spec [OF assms(1,2) lt assms(7)]
  obtain i where i: "i < length ks" "r = ks ! i" using assms(8) by (auto simp: in_set_conv_nth)
  let ?m = "(\<Sum>r\<leftarrow>take i ks. wt st r) + wt st r div 2"
  have "sum_list (map (wt st) ks) = (\<Sum>r\<leftarrow>take i ks. wt st r) + sum_list (map (wt st) (ks ! i # drop (Suc i) ks))"
    by (subst id_take_nth_drop [OF i(1)]) (simp del: append_take_drop_id)
  moreover have "sum_list (map (wt st) ks) = sm" using sp assms(6) by simp
  moreover have "0 < wt st r" using assms(9) by (simp add: wt_def)
  ultimately have m: "?m < sm" using i(2) by simp
  have d: "nr * ?m div sm < nr"
  proof (rule div_less_iff_less_mult [THEN iffD2])
    show "0 < sm" using m by simp
    show "nr * ?m < nr * sm" using m assms(4) by simp
  qed
  have "cont_affinity (st' (ks ! i)) = i8_of (nr * (0 + (\<Sum>r\<leftarrow>take i ks. wt st r) + wt st (ks ! i) div 2) div sm)"
    using sp i(1) by blast
  then have "cont_affinity (st' r) = i8_of (nr * ?m div sm)" by (simp add: i(2))
  also have "\<dots> = int (nr * ?m div sm)" using d assms(5) by (intro i8_of_small) simp
  finally show ?thesis using d by simp
qed

section \<open>Packing all cores\<close>

lemma set_affinity_same: "same_but_affinity st (set_affinity label ks bs st)"
proof (induction label ks bs st rule: set_affinity.induct)
  case (3 label k ks b bs st)
  then show ?case
    by (auto split: option.splits if_splits intro: same_but_affinity_trans [OF same_but_affinity_upd])
qed simp_all

lemma set_affinity_other: "r \<notin> {x. Some x \<in> set ks} \<Longrightarrow> set_affinity label ks bs st r = st r"
  by (induction label ks bs st rule: set_affinity.induct) (auto split: option.splits)

lemma set_affinity_keeps:
  "cont_affinity (st r) = label \<Longrightarrow> cont_affinity (set_affinity label ks bs st r) = label"
  by (induction label ks bs st rule: set_affinity.induct) (auto split: option.splits)

lemma set_affinity_label:
  "length bs = length ks \<Longrightarrow> i < length ks \<Longrightarrow> bs ! i \<Longrightarrow> ks ! i = Some r \<Longrightarrow>
   cont_affinity (set_affinity label ks bs st r) = label"
proof (induction label ks bs st arbitrary: i rule: set_affinity.induct)
  case (3 label k ks b bs st)
  then show ?case by (cases i) (auto intro: set_affinity_keeps)
qed simp_all

lemma Some_in_unpacked:
  assumes "length bs = length ks"
  shows "Some r \<in> set (unpacked ks bs) \<longleftrightarrow> (\<exists>i<length ks. ks ! i = Some r \<and> \<not> bs ! i)"
  unfolding in_set_conv_nth [of _ "unpacked ks bs"] using assms by (auto simp: unpacked_def split: if_splits)

text \<open>
  What one \<open>BinPack\<close> call does: it packs a load below the limit, labels exactly the
  packed rows and leaves the others in the array.
\<close>

lemma BinPack_spec:
  assumes "BinPack st ks label limit = (st', ks', n)" "0 < limit"
  shows "n < limit \<and> length ks' = length ks \<and> same_but_affinity st st'
    \<and> (\<forall>r. Some r \<in> set ks' \<longrightarrow> Some r \<in> set ks)
    \<and> (\<forall>r. Some r \<in> set ks \<and> Some r \<notin> set ks' \<longrightarrow> cont_affinity (st' r) = label)
    \<and> (\<forall>r. Some r \<notin> set ks \<longrightarrow> st' r = st r)"
proof -
  obtain c bs where p: "pack_select (knap_weights st ks) limit = (c, bs)" by fastforce
  note o = pack_select_optimal [OF assms(2) p]
  have l: "length bs = length ks" using o by (simp add: knap_weights_def)
  have e: "st' = set_affinity label ks bs st" "ks' = unpacked ks bs" "n = c"
    using assms p by (auto simp: BinPack_def)
  have "cont_affinity (st' r) = label" if m: "Some r \<in> set ks" "Some r \<notin> set ks'" for r
  proof -
    obtain i where "i < length ks" "ks ! i = Some r" using m(1) unfolding in_set_conv_nth by blast
    then show ?thesis using m(2) Some_in_unpacked [OF l] set_affinity_label [OF l] unfolding e by blast
  qed
  then show ?thesis
    using o l set_affinity_same set_affinity_other [of _ ks] Some_in_unpacked [OF l]
    unfolding e by (auto simp: unpacked_def in_set_conv_nth)
qed

text \<open>
  After the loop over the cores the load of the first \<open>c + 1\<close> cores is at most \<open>c + 1\<close>
  shares, and every row is either labelled with one of the cores or still in the array.
\<close>

lemma pack_cores_spec:
  assumes "pack_cores cs hard delta st ks = (st', ks', ls)"
  shows "length ls = length cs \<and> same_but_affinity st st'
    \<and> (\<forall>c<length cs. sum_list (take (c + 1) ls) \<le> (c + 1) * hard + delta)
    \<and> (\<forall>r. Some r \<in> set ks' \<longrightarrow> Some r \<in> set ks)
    \<and> (\<forall>r. Some r \<in> set ks \<and> Some r \<notin> set ks' \<longrightarrow> cont_affinity (st' r) \<in> int ` set cs)
    \<and> (\<forall>r. Some r \<notin> set ks \<longrightarrow> st' r = st r)"
  using assms
proof (induction cs arbitrary: delta st ks st' ks' ls)
  case (Cons c cs)
  obtain st1 ks1 n where b: "BinPack st ks (int c) (hard + 1 + delta) = (st1, ks1, n)" by (metis surj_pair)
  obtain ls' where r: "pack_cores cs hard (hard + delta - n) st1 ks1 = (st', ks', ls')" "ls = n # ls'"
    using Cons.prems b by (auto split: prod.splits)
  have "0 < hard + 1 + delta" by simp
  note B = BinPack_spec [OF b this] and I = Cons.IH [OF r(1)]
  have B1: "n \<le> hard + delta" "same_but_affinity st st1" and I1: "same_but_affinity st1 st'" using B I by simp_all
  have "sum_list (take (j + 1) ls) \<le> (j + 1) * hard + delta" if "j < length (c # cs)" for j
  proof (cases j)
    case 0
    then show ?thesis using B1(1) by (simp add: r(2))
  next
    case (Suc i)
    then have "sum_list (take (i + 1) ls') \<le> (i + 1) * hard + (hard + delta - n)" using I that by simp
    then show ?thesis using Suc B1(1) by (simp add: r(2))
  qed
  moreover have "same_but_affinity st st'" by (rule same_but_affinity_trans [OF B1(2) I1])
  moreover have "cont_affinity (st' r) \<in> int ` set (c # cs)" if "Some r \<in> set ks" "Some r \<notin> set ks'" for r
    using that B I by (cases "Some r \<in> set ks1") auto
  moreover have "st' r = st r" if "Some r \<notin> set ks" for r using that B I by metis
  moreover have "length ls = length (c # cs)" using I by (simp add: r(2))
  moreover have "\<forall>r. Some r \<in> set ks' \<longrightarrow> Some r \<in> set ks" using B I by blast
  ultimately show ?case by blast
qed simp

lemma PackLeftOver_label: "Some r \<in> set ks \<Longrightarrow> cont_affinity (PackLeftOver st ks label r) = label"
  by (auto simp: PackLeftOver_def in_set_conv_nth intro!: set_affinity_label)

text \<open>Packing gives every contended row a core.\<close>

lemma packing_assigns_cores:
  assumes "pack_cores [0..<nr - 1] hard 0 st (map Some ks) = (st', ks', ls)" "0 < nr" "r \<in> set ks"
  shows "0 \<le> cont_affinity (PackLeftOver st' ks' (int nr - 1) r)
    \<and> cont_affinity (PackLeftOver st' ks' (int nr - 1) r) < int nr"
proof (cases "Some r \<in> set ks'")
  case True
  then show ?thesis using PackLeftOver_label assms(2) by simp
next
  case False
  have "cont_affinity (st' r) \<in> int ` set [0..<nr - 1]" using pack_cores_spec [OF assms(1)] assms(3) False by auto
  moreover have "PackLeftOver st' ks' (int nr - 1) r = st' r"
    unfolding PackLeftOver_def by (rule set_affinity_other) (use False in simp)
  ultimately show ?thesis by auto
qed

end
