(* ===== verification/Locality.thy ===== *)
theory Locality
  imports Lower_Bound
begin

text \<open>
  Spreading the load of hot rows over the cores: \<open>LocalityManager\<close> of
  \<^verbatim>\<open>src/locality_manager.cc\<close>. Every core plans the load it wants to put on the others
  (\<open>PlanLoad\<close>); at the end of an epoch \<open>Balance\<close> cuts every core down to the average and
  moves the rest to cores that are below it (\<open>OffloadCore\<close>). A core's entry then holds a
  cumulative distribution from which \<open>GetScheduleCore\<close> draws. Values of type \<open>long\<close> are
  integers here; the sums stay far below \<open>2 ^ 63\<close>.
\<close>

section \<open>The manager\<close>

record weight_dist =
  weight :: int
  dist :: "int list"
  dcores :: "nat list"
  wload :: int
  weights_per_core :: "int list"

definition kPrealloc :: nat where "kPrealloc = 1024"

definition LocalityManager :: "nat \<Rightarrow> weight_dist list" where
  "LocalityManager n =
     replicate n \<lparr>weight = 0, dist = [], dcores = [], wload = 0, weights_per_core = replicate n 0\<rparr>"

text \<open>\<open>Reset\<close> clears the structures but not the array of planned loads behind them.\<close>

definition Reset_lm :: "weight_dist list \<Rightarrow> weight_dist list" where
  "Reset_lm lm = map (\<lambda>w. w\<lparr>weight := 0, dist := [], dcores := [], wload := 0\<rparr>) lm"

definition PlanLoad :: "weight_dist list \<Rightarrow> nat \<Rightarrow> nat \<Rightarrow> int \<Rightarrow> weight_dist list res" where
  "PlanLoad lm current_core core delta =
     (if current_core < length lm \<and> core < length (weights_per_core (lm ! current_core))
      then let w = lm ! current_core in
           Inr (lm[current_core := w\<lparr>weights_per_core := (weights_per_core w)[core := weights_per_core w ! core + delta]\<rparr>])
      else Inl OutOfBounds)"

text \<open>The cores that can take load from \<open>core\<close>, those of its own NUMA node first.\<close>

definition walk_cores :: "nat \<Rightarrow> nat \<Rightarrow> int \<Rightarrow> weight_dist list \<Rightarrow> nat list" where
  "walk_cores n core limit lm =
     (let numa_node = core div kNrCorePerNode in
      filter (\<lambda>i. i \<noteq> core \<and> \<not> wload (lm ! i) \<ge> limit) [numa_node * kNrCorePerNode..<min ((numa_node + 1) * kNrCorePerNode) n]
      @ filter (\<lambda>i. i div kNrCorePerNode \<noteq> numa_node \<and> \<not> wload (lm ! i) \<ge> limit) [0..<n])"

text \<open>The loop of \<open>OffloadCore\<close>: the list is what of \<open>walk_cores\<close> is left.\<close>

fun offload_loop :: "nat list \<Rightarrow> nat \<Rightarrow> int \<Rightarrow> int \<Rightarrow> weight_dist list \<Rightarrow> weight_dist list" where
  "offload_loop [] core limit load_cdf lm = lm"
| "offload_loop (cur # ws) core limit load_cdf lm =
     (if load_cdf < weight (lm ! core) then
        let delta = min (weight (lm ! core) - load_cdf) (limit - wload (lm ! cur));
            cdf = load_cdf + delta;
            w = lm ! core;
            lm1 = lm[core := w\<lparr>dist := dist w @ [cdf], dcores := dcores w @ [cur]\<rparr>];
            lm2 = lm1[cur := (lm1 ! cur)\<lparr>wload := wload (lm1 ! cur) + delta\<rparr>]
        in offload_loop ws core limit cdf lm2
      else lm)"

definition OffloadCore :: "nat \<Rightarrow> nat \<Rightarrow> int \<Rightarrow> weight_dist list \<Rightarrow> weight_dist list" where
  "OffloadCore n core limit lm = offload_loop (walk_cores n core limit lm) core limit limit lm"

text \<open>\<open>Balance\<close>: collect what all cores planned for \<open>core\<close>.\<close>

definition take_plan :: "nat \<Rightarrow> nat \<Rightarrow> weight_dist list \<Rightarrow> weight_dist list" where
  "take_plan core j lm =
     (let lm1 = lm[core := (lm ! core)\<lparr>weight := weight (lm ! core) + weights_per_core (lm ! j) ! core\<rparr>]
      in lm1[j := (lm1 ! j)\<lparr>weights_per_core := (weights_per_core (lm1 ! j))[core := 0]\<rparr>])"

definition gather :: "nat \<Rightarrow> weight_dist list \<Rightarrow> nat \<Rightarrow> weight_dist list" where
  "gather n lm core =
     (let lm1 = fold (take_plan core) [0..<n] lm
      in lm1[core := (lm1 ! core)\<lparr>wload := weight (lm1 ! core)\<rparr>])"

definition spread_core :: "nat \<Rightarrow> int \<Rightarrow> nat \<Rightarrow> weight_dist list \<Rightarrow> weight_dist list" where
  "spread_core n average core lm =
     (let w = lm ! core in
      if weight w > average
      then OffloadCore n core average (lm[core := w\<lparr>dist := [average], dcores := [core], wload := average\<rparr>])
      else lm[core := w\<lparr>dist := [weight w], dcores := [core]\<rparr>])"

fun spread :: "nat \<Rightarrow> int \<Rightarrow> nat list \<Rightarrow> nat \<Rightarrow> weight_dist list \<Rightarrow> weight_dist list res" where
  "spread n average [] nr_prealloc lm = Inr lm"
| "spread n average (core # cs) nr_prealloc lm =
     (let lm' = spread_core n average core lm;
          nr = nr_prealloc + length (dist (lm' ! core))
      in if nr > kPrealloc then Inl (Abort ''is too small inside Locality Manager'')
         else spread n average cs nr lm')"

text \<open>\<open>tot / tot_cores\<close> divides a \<open>long\<close> by a \<open>size_t\<close>: the dividend is read as unsigned.\<close>

definition average_of :: "nat \<Rightarrow> int \<Rightarrow> int" where
  "average_of n tot = ((tot mod 2 ^ 64) div int n + 2 ^ 63) mod 2 ^ 64 - 2 ^ 63"

definition Balance :: "weight_dist list \<Rightarrow> weight_dist list res" where
  "Balance lm =
     (let n = length lm;
          lm1 = foldl (gather n) lm [0..<n];
          tot = (\<Sum>w\<leftarrow>lm1. weight w)
      in spread n (average_of n tot) [0..<n] 0 lm1)"

text \<open>
  \<open>GetScheduleCore\<close>; \<open>rnd\<close> is the next number of the random generator. The source reads
  the last entry of the distribution before it tests for an empty one.
\<close>

definition GetScheduleCore :: "weight_dist list \<Rightarrow> nat \<Rightarrow> u64 \<Rightarrow> nat res" where
  "GetScheduleCore lm core rnd =
     (let w = lm ! core; nr = length (dist w) in
      if nr = 0 then Inl OutOfBounds
      else if nr = 1 then Inr (dcores w ! 0)
      else if last (dist w) = 0 then Inl (Abort ''division by zero'')
      else let seed = int (unat rnd mod nat (last (dist w)))
           in rd (dcores w) (std_upper_bound (dist w) 0 nr seed))"

text \<open>\<open>SelectRow\<close>: \<open>pos\<close> is the offset of the iterator.\<close>

function select_loop :: "u64 \<Rightarrow> nat \<Rightarrow> nat \<Rightarrow> 'a list \<Rightarrow> 'a res" where
  "select_loop bitmap sel pos rs =
     (if bitmap = 0 then Inl (Abort ''abort'')
      else let skip = ctz bitmap in
           if sel = 0 then rd rs (pos + skip)
           else if skip = 63 then Inl OutOfBounds
           else select_loop (drop_bit (skip + 1) bitmap) (sel - 1) (pos + skip + 1) rs)"
  by auto

lemma drop_bit_less: "w \<noteq> 0 \<Longrightarrow> unat (drop_bit (Suc k) w) < unat w" for w :: "'a::len word"
proof -
  assume "w \<noteq> 0"
  then have "0 < unat w" by (simp add: unat_gt_0)
  moreover have "unat (drop_bit (Suc k) w) = unat w div 2 ^ Suc k"
    unfolding unat_drop_bit_eq by (simp only: drop_bit_eq_div)
  moreover have "1 < (2::nat) ^ Suc k" using one_less_power [of "2::nat" "Suc k"] by simp
  ultimately show ?thesis using div_less_dividend by metis
qed

termination select_loop
  by (relation "measure (\<lambda>(b, s, p, rs). unat b)") (auto simp: drop_bit_less simp del: drop_bit_Suc)

declare select_loop.simps [simp del]

definition SelectRow :: "u64 \<Rightarrow> 'a list \<Rightarrow> u64 \<Rightarrow> 'a option res" where
  "SelectRow bitmap rs rnd =
     (if bitmap = 0 then Inr None
      else res_bind (select_loop bitmap (unat rnd mod popcount bitmap) 0 rs) (\<lambda>r. Inr (Some r)))"

section \<open>What a core gives away\<close>

text \<open>The cores that take load from an overloaded core, each with the amount it takes.\<close>

fun shares :: "nat list \<Rightarrow> int \<Rightarrow> int \<Rightarrow> int \<Rightarrow> (nat \<Rightarrow> int) \<Rightarrow> (nat \<times> int) list" where
  "shares [] limit target cdf ld = []"
| "shares (c # ws) limit target cdf ld =
     (if cdf < target
      then let d = min (target - cdf) (limit - ld c) in (c, d) # shares ws limit target (cdf + d) ld
      else [])"

fun cdfs :: "int \<Rightarrow> (nat \<times> int) list \<Rightarrow> int list" where
  "cdfs cdf [] = []"
| "cdfs cdf ((c, d) # sh) = (cdf + d) # cdfs (cdf + d) sh"

definition amount :: "(nat \<times> int) list \<Rightarrow> nat \<Rightarrow> int" where
  "amount sh i = (case map_of sh i of None \<Rightarrow> 0 | Some d \<Rightarrow> d)"

lemma length_cdfs [simp]: "length (cdfs cdf sh) = length sh"
  by (induction cdf sh rule: cdfs.induct) auto

lemma last_cdfs: "last (cdf # cdfs cdf sh) = cdf + sum_list (map snd sh)"
  by (induction cdf sh rule: cdfs.induct) auto

lemma sorted_cdfs: "\<forall>(c, d)\<in>set sh. 0 < d \<Longrightarrow> sorted_wrt (<) (cdf # cdfs cdf sh)"
proof (induction cdf sh rule: cdfs.induct)
  case (2 cdf c d sh)
  then have "sorted_wrt (<) ((cdf + d) # cdfs (cdf + d) sh)" "0 < d" by auto
  then show ?case by auto
qed simp

lemma fst_shares: "set (map fst (shares ws limit target cdf ld)) \<subseteq> set ws"
  by (induction ws limit target cdf ld rule: shares.induct) (auto simp: Let_def)

lemma distinct_shares: "distinct ws \<Longrightarrow> distinct (map fst (shares ws limit target cdf ld))"
proof (induction ws limit target cdf ld rule: shares.induct)
  case (2 c ws limit target cdf ld)
  then show ?case using fst_shares [of ws limit target "cdf + min (target - cdf) (limit - ld c)" ld] by (auto simp: Let_def)
qed simp

lemma shares_bounds:
  "\<forall>c\<in>set ws. ld c < limit \<Longrightarrow> (c, d) \<in> set (shares ws limit target cdf ld) \<Longrightarrow> 0 < d \<and> d \<le> limit - ld c"
  by (induction ws limit target cdf ld rule: shares.induct) (auto simp: Let_def split: if_splits)

lemma shares_total:
  "cdf \<le> target \<Longrightarrow>
   cdf + sum_list (map snd (shares ws limit target cdf ld)) = target
   \<or> (map fst (shares ws limit target cdf ld) = ws \<and> (\<forall>(c, d)\<in>set (shares ws limit target cdf ld). d = limit - ld c))"
proof (induction ws limit target cdf ld rule: shares.induct)
  case (2 c ws limit target cdf ld)
  let ?d = "min (target - cdf) (limit - ld c)"
  have stop: "shares ws limit target target ld = []" by (cases ws) auto
  show ?case
  proof (cases "cdf < target")
    case lt: True
    have "cdf + ?d \<le> target" by simp
    note IH = "2.IH" [OF lt refl this]
    show ?thesis
    proof (cases "?d = limit - ld c")
      case True
      then show ?thesis using IH lt by (auto simp: Let_def add.assoc)
    next
      case False
      then have "?d = target - cdf" by (auto simp: min_def split: if_splits)
      then show ?thesis using lt stop by (simp add: Let_def)
    qed
  qed (use 2 in simp)
qed simp

lemma shares_le: "cdf \<le> target \<Longrightarrow> cdf + sum_list (map snd (shares ws limit target cdf ld)) \<le> target"
proof (induction ws limit target cdf ld rule: shares.induct)
  case (2 c ws limit target cdf ld)
  then show ?case
  proof (cases "cdf < target")
    case True
    have "cdf + min (target - cdf) (limit - ld c) \<le> target" by simp
    from "2.IH" [OF True refl this] show ?thesis using True by (simp add: Let_def add.assoc)
  qed simp
qed simp

text \<open>All cores but the last one that takes load are filled up to the limit.\<close>

lemma shares_filled:
  "length (shares ws limit target cdf ld)
     \<le> Suc (length (filter (\<lambda>(c, d). d = limit - ld c) (shares ws limit target cdf ld)))"
proof (induction ws limit target cdf ld rule: shares.induct)
  case (2 c ws limit target cdf ld)
  have "shares ws limit target target ld = []" by (cases ws) auto
  then show ?case using 2 by (auto simp: Let_def min_def)
qed simp

lemma shares_cong:
  "\<forall>i\<in>set ws. ld i = ld' i \<Longrightarrow> shares ws limit target cdf ld = shares ws limit target cdf ld'"
  by (induction ws arbitrary: cdf) (auto simp: Let_def)

lemma offload_loop_shares:
  assumes "core < length lm" "distinct ws" "core \<notin> set ws" "\<forall>i\<in>set ws. i < length lm"
    and "sh = shares ws limit (weight (lm ! core)) cdf (\<lambda>i. wload (lm ! i))"
  shows "length (offload_loop ws core limit cdf lm) = length lm
    \<and> offload_loop ws core limit cdf lm ! core =
       (lm ! core)\<lparr>dist := dist (lm ! core) @ cdfs cdf sh, dcores := dcores (lm ! core) @ map fst sh\<rparr>
    \<and> (\<forall>i<length lm. i \<noteq> core \<longrightarrow>
       offload_loop ws core limit cdf lm ! i = (lm ! i)\<lparr>wload := wload (lm ! i) + amount sh i\<rparr>)"
  using assms
proof (induction ws arbitrary: cdf lm sh)
  case (Cons c ws)
  show ?case
  proof (cases "cdf < weight (lm ! core)")
    case True
    define d where "d = min (weight (lm ! core) - cdf) (limit - wload (lm ! c))"
    define lm2 where "lm2 = (lm[core := (lm ! core)\<lparr>dist := dist (lm ! core) @ [cdf + d], dcores := dcores (lm ! core) @ [c]\<rparr>])
       [c := (lm ! c)\<lparr>wload := wload (lm ! c) + d\<rparr>]"
    have c: "c < length lm" "c \<noteq> core" "c \<notin> set ws" using Cons.prems by auto
    have run: "offload_loop (c # ws) core limit cdf lm = offload_loop ws core limit (cdf + d) lm2"
      using True c by (simp add: Let_def d_def lm2_def)
    have l2: "length lm2 = length lm" "lm2 ! c = (lm ! c)\<lparr>wload := wload (lm ! c) + d\<rparr>"
      "lm2 ! core = (lm ! core)\<lparr>dist := dist (lm ! core) @ [cdf + d], dcores := dcores (lm ! core) @ [c]\<rparr>"
      "\<And>i. i \<noteq> c \<Longrightarrow> i \<noteq> core \<Longrightarrow> lm2 ! i = lm ! i"
      using c Cons.prems(1) by (auto simp: lm2_def)
    define sh' where "sh' = shares ws limit (weight (lm ! core)) (cdf + d) (\<lambda>i. wload (lm ! i))"
    have "\<forall>i\<in>set ws. wload (lm ! i) = wload (lm2 ! i)" using l2(4) Cons.prems(2,3) by (metis c(3) list.set_intros(2))
    then have "sh' = shares ws limit (weight (lm2 ! core)) (cdf + d) (\<lambda>i. wload (lm2 ! i))"
      using shares_cong by (simp add: sh'_def l2(3))
    note IH = Cons.IH [OF _ _ _ _ this]
    have sh: "sh = (c, d) # sh'" using Cons.prems(5) True by (simp add: Let_def d_def sh'_def)
    have none: "map_of sh' c = None"
      using fst_shares [of ws limit "weight (lm ! core)" "cdf + d"] c(3) by (auto simp: map_of_eq_None_iff sh'_def)
    have I: "length (offload_loop ws core limit (cdf + d) lm2) = length lm2"
      "offload_loop ws core limit (cdf + d) lm2 ! core =
         (lm2 ! core)\<lparr>dist := dist (lm2 ! core) @ cdfs (cdf + d) sh', dcores := dcores (lm2 ! core) @ map fst sh'\<rparr>"
      "\<And>i. i < length lm2 \<Longrightarrow> i \<noteq> core \<Longrightarrow>
         offload_loop ws core limit (cdf + d) lm2 ! i = (lm2 ! i)\<lparr>wload := wload (lm2 ! i) + amount sh' i\<rparr>"
      using IH Cons.prems l2(1) by auto
    have "offload_loop ws core limit (cdf + d) lm2 ! i = (lm ! i)\<lparr>wload := wload (lm ! i) + amount sh i\<rparr>"
      if "i < length lm" "i \<noteq> core" for i
      using that I(3) l2 none by (cases "i = c") (simp_all add: sh amount_def)
    then show ?thesis using I(1,2) l2(1,3) unfolding run by (simp add: sh)
  next
    case False
    then show ?thesis using Cons.prems(5) by (simp add: amount_def)
  qed
qed (simp add: amount_def)

section \<open>Balance gives every core the average\<close>

lemma amount_simps [simp]:
  "amount [] i = 0" "amount ((c, d) # sh) i = (if i = c then d else amount sh i)"
  by (simp_all add: amount_def)

lemma amount_not_in: "i \<notin> set (map fst sh) \<Longrightarrow> amount sh i = 0"
  by (induction sh) auto

lemma amount_in: "distinct (map fst sh) \<Longrightarrow> (i, d) \<in> set sh \<Longrightarrow> amount sh i = d"
  by (simp add: amount_def map_of_is_SomeI)

lemma sum_amount:
  "distinct (map fst sh) \<Longrightarrow> set (map fst sh) \<subseteq> {..<n} \<Longrightarrow> (\<Sum>i<n. amount sh i) = sum_list (map snd sh)"
proof (induction sh)
  case (Cons x sh)
  obtain c d where x: "x = (c, d)" by (cases x)
  have "(\<Sum>i<n. amount (x # sh) i) = (\<Sum>i<n. (if i = c then d else 0) + amount sh i)"
    using Cons.prems x amount_not_in [of c sh] by (intro sum.cong) auto
  also have "\<dots> = d + (\<Sum>i<n. amount sh i)" using Cons.prems x by (simp add: sum.distrib)
  finally show ?case using Cons x by simp
qed simp

lemma node_range: "q * 8 \<le> i \<and> i < (q + 1) * 8 \<longleftrightarrow> i div 8 = q" for q i :: nat
proof
  assume "q * 8 \<le> i \<and> i < (q + 1) * 8"
  then show "i div 8 = q" by (intro div_nat_eqI) simp_all
next
  assume "i div 8 = q"
  then show "q * 8 \<le> i \<and> i < (q + 1) * 8" using div_mult_mod_eq [of i 8] mod_less_divisor [of 8 i] by simp
qed

lemma walk_cores_set:
  assumes "core < n"
  shows "set (walk_cores n core limit lm) = {i. i < n \<and> i \<noteq> core \<and> wload (lm ! i) < limit}"
    "distinct (walk_cores n core limit lm)"
proof -
  have node: "core div 8 * 8 \<le> i \<and> i < (core div 8 + 1) * 8 \<longleftrightarrow> i div 8 = core div 8" for i :: nat
    by (rule node_range)
  have w: "walk_cores n core limit lm =
      filter (\<lambda>i. i \<noteq> core \<and> wload (lm ! i) < limit) [core div 8 * 8..<min ((core div 8 + 1) * 8) n]
      @ filter (\<lambda>i. i div 8 \<noteq> core div 8 \<and> wload (lm ! i) < limit) [0..<n]"
    by (simp add: walk_cores_def Let_def kNrCorePerNode_def not_le)
  have own: "i \<in> set [core div 8 * 8..<min ((core div 8 + 1) * 8) n] \<longleftrightarrow> i < n \<and> i div 8 = core div 8" for i
    using node [of i] unfolding set_upt by auto
  show "set (walk_cores n core limit lm) = {i. i < n \<and> i \<noteq> core \<and> wload (lm ! i) < limit}"
    unfolding w set_append set_filter own by auto
  have "set (filter (\<lambda>i. i \<noteq> core \<and> wload (lm ! i) < limit) [core div 8 * 8..<min ((core div 8 + 1) * 8) n])
      \<inter> set (filter (\<lambda>i. i div 8 \<noteq> core div 8 \<and> wload (lm ! i) < limit) [0..<n]) = {}"
    unfolding set_filter own by auto
  then show "distinct (walk_cores n core limit lm)" unfolding w by (simp only: distinct_append distinct_filter distinct_upt)
qed

text \<open>One overloaded core, in terms of the shares it gives away.\<close>

definition given :: "nat \<Rightarrow> int \<Rightarrow> nat \<Rightarrow> weight_dist list \<Rightarrow> (nat \<times> int) list" where
  "given n average core lm =
     shares (walk_cores n core average (lm[core := (lm ! core)\<lparr>dist := [average], dcores := [core], wload := average\<rparr>]))
       average (weight (lm ! core)) average (\<lambda>i. wload (lm ! i))"

lemma given_facts:
  assumes "core < n" "length lm = n" "average < weight (lm ! core)"
  defines "sh \<equiv> given n average core lm"
  shows "distinct (map fst sh)" "set (map fst sh) \<subseteq> {i. i < n \<and> i \<noteq> core \<and> wload (lm ! i) < average}"
    "\<And>c d. (c, d) \<in> set sh \<Longrightarrow> 0 < d \<and> d \<le> average - wload (lm ! c)"
    "average + sum_list (map snd sh) = weight (lm ! core)
     \<or> (\<forall>i<n. i \<noteq> core \<and> wload (lm ! i) < average \<longrightarrow> amount sh i = average - wload (lm ! i))"
    "length sh \<le> Suc (length (filter (\<lambda>(c, d). d = average - wload (lm ! c)) sh))"
    "average + sum_list (map snd sh) \<le> weight (lm ! core)"
proof -
  let ?lm = "lm[core := (lm ! core)\<lparr>dist := [average], dcores := [core], wload := average\<rparr>]"
  let ?ws = "walk_cores n core average ?lm"
  have ws: "set ?ws = {i. i < n \<and> i \<noteq> core \<and> wload (lm ! i) < average}" "distinct ?ws"
    using walk_cores_set [OF assms(1), of average ?lm] assms(1,2) by (auto simp: nth_list_update)
  show d: "distinct (map fst sh)" using ws(2) by (simp add: sh_def given_def distinct_shares)
  show "set (map fst sh) \<subseteq> {i. i < n \<and> i \<noteq> core \<and> wload (lm ! i) < average}"
    using fst_shares [of ?ws] ws(1) unfolding sh_def given_def by blast
  show "0 < d \<and> d \<le> average - wload (lm ! c)" if "(c, d) \<in> set sh" for c d
    using shares_bounds [of ?ws "\<lambda>i. wload (lm ! i)" average] that ws(1) unfolding sh_def given_def by auto
  show "length sh \<le> Suc (length (filter (\<lambda>(c, d). d = average - wload (lm ! c)) sh))"
    unfolding sh_def given_def by (rule shares_filled)
  show "average + sum_list (map snd sh) \<le> weight (lm ! core)"
    unfolding sh_def given_def using assms(3) by (intro shares_le) simp
  have "amount sh i = average - wload (lm ! i)"
    if all: "map fst sh = ?ws" "\<forall>(c, d)\<in>set sh. d = average - wload (lm ! c)" and i: "i < n" "i \<noteq> core" "wload (lm ! i) < average" for i
  proof -
    have "i \<in> set (map fst sh)" using all(1) ws(1) i by simp
    then obtain x where "(i, x) \<in> set sh" by auto
    then show ?thesis using amount_in [OF d] all(2) by fastforce
  qed
  then show "average + sum_list (map snd sh) = weight (lm ! core)
     \<or> (\<forall>i<n. i \<noteq> core \<and> wload (lm ! i) < average \<longrightarrow> amount sh i = average - wload (lm ! i))"
    using shares_total [of average "weight (lm ! core)" ?ws average "\<lambda>i. wload (lm ! i)"] assms(3)
    unfolding sh_def given_def by fastforce
qed

lemma spread_core_heavy:
  assumes "core < n" "length lm = n" "average < weight (lm ! core)"
  shows "length (spread_core n average core lm) = n"
    "spread_core n average core lm ! core = (lm ! core)\<lparr>dist := average # cdfs average (given n average core lm),
       dcores := core # map fst (given n average core lm), wload := average\<rparr>"
    "i < n \<Longrightarrow> i \<noteq> core \<Longrightarrow> spread_core n average core lm ! i =
       (lm ! i)\<lparr>wload := wload (lm ! i) + amount (given n average core lm) i\<rparr>"
proof -
  let ?lm = "lm[core := (lm ! core)\<lparr>dist := [average], dcores := [core], wload := average\<rparr>]"
  let ?ws = "walk_cores n core average ?lm"
  note ws = walk_cores_set [OF assms(1), of average ?lm]
  have "shares ?ws average (weight (?lm ! core)) average (\<lambda>i. wload (?lm ! i)) = given n average core lm"
    unfolding given_def using assms(1,2) ws(1) by (simp, intro shares_cong) auto
  from offload_loop_shares [OF _ ws(2) _ _ this [symmetric]]
  have o: "length (OffloadCore n core average ?lm) = n"
    "OffloadCore n core average ?lm ! core = (?lm ! core)\<lparr>dist := dist (?lm ! core) @ cdfs average (given n average core lm),
       dcores := dcores (?lm ! core) @ map fst (given n average core lm)\<rparr>"
    "\<forall>i<n. i \<noteq> core \<longrightarrow> OffloadCore n core average ?lm ! i = (?lm ! i)\<lparr>wload := wload (?lm ! i) + amount (given n average core lm) i\<rparr>"
    using assms(1,2) ws(1) unfolding OffloadCore_def by auto
  have e: "spread_core n average core lm = OffloadCore n core average ?lm" using assms(3) by (simp add: spread_core_def Let_def)
  show "length (spread_core n average core lm) = n" using o(1) e by simp
  show "spread_core n average core lm ! core = (lm ! core)\<lparr>dist := average # cdfs average (given n average core lm),
       dcores := core # map fst (given n average core lm), wload := average\<rparr>"
    unfolding e o(2) using assms(1,2) by simp
  show "spread_core n average core lm ! i = (lm ! i)\<lparr>wload := wload (lm ! i) + amount (given n average core lm) i\<rparr>"
    if "i < n" "i \<noteq> core" using o(3) that unfolding e by simp
qed

definition dist_ok :: "nat \<Rightarrow> weight_dist \<Rightarrow> bool" where
  "dist_ok n w \<longleftrightarrow> dist w \<noteq> [] \<and> length (dcores w) = length (dist w) \<and> sorted_wrt (<) (dist w)
     \<and> set (dcores w) \<subseteq> {..<n} \<and> last (dist w) \<le> weight w \<and> (1 < length (dist w) \<longrightarrow> 0 \<le> hd (dist w))"

definition open_cores :: "nat \<Rightarrow> int \<Rightarrow> weight_dist list \<Rightarrow> nat set" where
  "open_cores n average lm = {i. i < n \<and> wload (lm ! i) < average}"

definition spread_inv :: "nat \<Rightarrow> int \<Rightarrow> int \<Rightarrow> nat \<Rightarrow> nat \<Rightarrow> weight_dist list \<Rightarrow> bool" where
  "spread_inv n average tot c nr lm \<longleftrightarrow> length lm = n
     \<and> (\<forall>i<n. (i < c \<or> weight (lm ! i) \<le> average \<longrightarrow> wload (lm ! i) \<le> average)
             \<and> (c \<le> i \<and> average < weight (lm ! i) \<longrightarrow> wload (lm ! i) = weight (lm ! i)))
     \<and> ((\<Sum>i<n. wload (lm ! i)) = tot \<or> (\<forall>i<n. average \<le> wload (lm ! i)))
     \<and> (\<forall>i<c. dist_ok n (lm ! i))
     \<and> nr + card (open_cores n average lm) \<le> n + 2 * c"

lemma finite_open [simp]: "finite (open_cores n average lm)"
  by (simp add: open_cores_def)

lemma spread_light:
  assumes "spread_inv n average tot c nr lm" "c < n" "\<not> average < weight (lm ! c)"
  shows "spread_inv n average tot (c + 1) (nr + length (dist (spread_core n average c lm ! c))) (spread_core n average c lm)"
proof -
  let ?lm = "lm[c := (lm ! c)\<lparr>dist := [weight (lm ! c)], dcores := [c]\<rparr>]"
  have e: "spread_core n average c lm = ?lm" and len: "length lm = n"
    using assms by (auto simp: spread_core_def Let_def spread_inv_def)
  have w: "wload (?lm ! i) = wload (lm ! i)" "weight (?lm ! i) = weight (lm ! i)" if "i < n" for i
    using that len by (cases "i = c"; simp)+
  then have "(\<Sum>i<n. wload (?lm ! i)) = (\<Sum>i<n. wload (lm ! i))" "open_cores n average ?lm = open_cores n average lm"
    by (auto simp: open_cores_def intro: sum.cong)
  moreover have "dist_ok n (?lm ! i)" if "i < c + 1" for i
    using that assms(1,2) len by (cases "i = c") (auto simp: spread_inv_def dist_ok_def)
  ultimately show ?thesis using assms w len unfolding e by (auto simp: spread_inv_def less_Suc_eq)
qed

lemma heavy_open:
  assumes "c < n" "length lm = n" "average < weight (lm ! c)" "average \<le> wload (lm ! c)"
  shows "length (given n average c lm) + card (open_cores n average (spread_core n average c lm))
    \<le> 1 + card (open_cores n average lm)"
proof -
  let ?sh = "given n average c lm" and ?lm = "spread_core n average c lm"
  note g = given_facts [OF assms(1-3)] and h = spread_core_heavy [OF assms(1-3)]
  define F where "F = set (map fst (filter (\<lambda>(i, d). d = average - wload (lm ! i)) ?sh))"
  have "distinct (map fst (filter (\<lambda>(i, d). d = average - wload (lm ! i)) ?sh))"
    using g(1) by (rule distinct_map_filter)
  then have cF: "card F = length (filter (\<lambda>(i, d). d = average - wload (lm ! i)) ?sh)"
    unfolding F_def by (simp only: distinct_card length_map)
  have F: "F \<subseteq> open_cores n average lm" using g(2) by (auto simp: F_def open_cores_def)
  have full: "wload (?lm ! i) = average" if "i \<in> F" for i
  proof -
    have "(i, average - wload (lm ! i)) \<in> set ?sh" using that by (auto simp: F_def)
    then have "amount ?sh i = average - wload (lm ! i)" "i < n" "i \<noteq> c"
      using amount_in [OF g(1)] g(2) by auto
    then show ?thesis using h(3) by simp
  qed
  have "open_cores n average ?lm \<subseteq> open_cores n average lm - F"
  proof
    fix i assume i: "i \<in> open_cores n average ?lm"
    then have "i < n" "wload (?lm ! i) < average" by (auto simp: open_cores_def)
    moreover have "i \<noteq> c" using i h(2) by (auto simp: open_cores_def)
    moreover have "0 \<le> amount ?sh i"
      using g(3) amount_in [OF g(1)] amount_not_in [of i ?sh] by (cases "i \<in> set (map fst ?sh)") fastforce+
    ultimately show "i \<in> open_cores n average lm - F" using h(3) [of i] full [of i] by (auto simp: open_cores_def)
  qed
  then have "card (open_cores n average ?lm) \<le> card (open_cores n average lm) - card F"
    using F card_mono [of "open_cores n average lm - F"] by (simp add: card_Diff_subset finite_subset)
  moreover have "card F \<le> card (open_cores n average lm)" using F by (simp add: card_mono)
  ultimately show ?thesis using g(5) cF by simp
qed

lemma heavy_loads:
  assumes "c < n" "length lm = n" "average < weight (lm ! c)" "wload (lm ! c) = weight (lm ! c)"
    "(\<Sum>i<n. wload (lm ! i)) = tot \<or> (\<forall>i<n. average \<le> wload (lm ! i))"
  shows "(\<Sum>i<n. wload (spread_core n average c lm ! i)) = tot \<or> (\<forall>i<n. average \<le> wload (spread_core n average c lm ! i))"
proof -
  let ?sh = "given n average c lm" and ?lm = "spread_core n average c lm"
  note g = given_facts [OF assms(1-3)] and h = spread_core_heavy [OF assms(1-3)]
  have nn: "0 \<le> amount ?sh i" for i
    using g(3) amount_in [OF g(1)] amount_not_in [of i ?sh] by (cases "i \<in> set (map fst ?sh)") fastforce+
  have ac: "amount ?sh c = 0" using g(2) by (intro amount_not_in) auto
  have w: "wload (?lm ! i) = wload (lm ! i) + amount ?sh i + (if i = c then average - weight (lm ! c) else 0)" if "i < n" for i
    using that h(2,3) ac assms(4) by (cases "i = c") simp_all
  have "(\<Sum>i<n. wload (?lm ! i)) = (\<Sum>i<n. wload (lm ! i)) + (\<Sum>i<n. amount ?sh i) + (average - weight (lm ! c))"
    using w assms(1) by (simp add: sum.distrib)
  moreover have "(\<Sum>i<n. amount ?sh i) = sum_list (map snd ?sh)" using g(1,2) by (intro sum_amount) auto
  ultimately have s: "average + sum_list (map snd ?sh) = weight (lm ! c) \<Longrightarrow> (\<Sum>i<n. wload (?lm ! i)) = (\<Sum>i<n. wload (lm ! i))"
    by simp
  have filled: "average \<le> wload (?lm ! i)" if i: "i < n" and r: "i \<noteq> c \<Longrightarrow> average \<le> wload (lm ! i) + amount ?sh i" for i
    using w [OF i] ac assms(4) r by (cases "i = c") simp_all
  show ?thesis
  proof (cases "(\<forall>i<n. average \<le> wload (lm ! i)) \<or> average + sum_list (map snd ?sh) \<noteq> weight (lm ! c)")
    case stuck: True
    have "average \<le> wload (lm ! i) + amount ?sh i" if i: "i < n" "i \<noteq> c" for i
    proof (cases "average \<le> wload (lm ! i)")
      case True
      then show ?thesis using nn [of i] by simp
    next
      case False
      then have "amount ?sh i = average - wload (lm ! i)" using stuck g(4) i by auto
      then show ?thesis by simp
    qed
    then show ?thesis using filled by blast
  next
    case False
    then show ?thesis using s assms(5) by auto
  qed
qed

lemma spread_heavy:
  assumes inv: "spread_inv n average tot c nr lm" and c: "c < n" and wt: "average < weight (lm ! c)" and av: "0 \<le> average"
  shows "spread_inv n average tot (c + 1) (nr + length (dist (spread_core n average c lm ! c))) (spread_core n average c lm)"
proof -
  let ?sh = "given n average c lm" and ?lm = "spread_core n average c lm"
  have len: "length lm = n" and wl: "wload (lm ! c) = weight (lm ! c)" and open_le: "nr + card (open_cores n average lm) \<le> n + 2 * c"
    and ok: "\<forall>i<c. dist_ok n (lm ! i)"
    and ld: "(\<Sum>i<n. wload (lm ! i)) = tot \<or> (\<forall>i<n. average \<le> wload (lm ! i))"
    and b: "\<And>i. i < n \<Longrightarrow> i < c \<or> weight (lm ! i) \<le> average \<Longrightarrow> wload (lm ! i) \<le> average"
      "\<And>i. i < n \<Longrightarrow> c \<le> i \<Longrightarrow> average < weight (lm ! i) \<Longrightarrow> wload (lm ! i) = weight (lm ! i)"
    using inv c wt by (auto simp: spread_inv_def)
  note g = given_facts [OF c len wt] and h = spread_core_heavy [OF c len wt]
  have am: "wload (lm ! i) + amount ?sh i \<le> average" if "wload (lm ! i) \<le> average" for i
    using that g(3) amount_in [OF g(1)] amount_not_in [of i ?sh] by (cases "i \<in> set (map fst ?sh)") fastforce+
  have a0: "amount ?sh i = 0" if "average \<le> wload (lm ! i)" for i using that g(2) by (intro amount_not_in) auto
  have bnd: "(i < c + 1 \<or> weight (?lm ! i) \<le> average \<longrightarrow> wload (?lm ! i) \<le> average)
     \<and> (c + 1 \<le> i \<and> average < weight (?lm ! i) \<longrightarrow> wload (?lm ! i) = weight (?lm ! i))" if i: "i < n" for i
  proof (cases "i = c")
    case True
    then show ?thesis using h(2) wt by simp
  next
    case False
    then show ?thesis using h(3) [OF i False] am [of i] a0 [of i] b [OF i] by (auto simp: less_Suc_eq)
  qed
  have okc: "dist_ok n (?lm ! c)"
  proof -
    have "sorted_wrt (<) (average # cdfs average ?sh)" using g(3) by (intro sorted_cdfs) auto
    moreover have "last (average # cdfs average ?sh) \<le> weight (lm ! c)"
      using g(6) unfolding last_cdfs .
    moreover have "set (c # map fst ?sh) \<subseteq> {..<n}" using g(2) c by auto
    ultimately show ?thesis using av unfolding dist_ok_def h(2) by simp
  qed
  have "dist_ok n (?lm ! i)" if "i < c + 1" for i
    using okc ok that c h(3) [of i] by (cases "i = c") (auto simp: dist_ok_def)
  moreover have "nr + length (dist (?lm ! c)) + card (open_cores n average ?lm) \<le> n + 2 * (c + 1)"
    using heavy_open [OF c len wt] wl wt open_le unfolding h(2) by simp
  ultimately show ?thesis
    using bnd h(1) heavy_loads [OF c len wt wl ld] unfolding spread_inv_def by blast
qed

lemma spread_core_weight:
  assumes "c < n" "length lm = n" "i < n"
  shows "weight (spread_core n average c lm ! i) = weight (lm ! i)"
proof (cases "average < weight (lm ! c)")
  case True
  then show ?thesis using spread_core_heavy [OF assms(1,2) True] assms(3) by (cases "i = c") simp_all
next
  case False
  then show ?thesis using assms by (cases "i = c") (simp_all add: spread_core_def Let_def)
qed

lemma spread_run:
  assumes "spread_inv n average tot c nr lm" "c \<le> n" "0 \<le> average" "3 * n \<le> kPrealloc"
  shows "\<exists>lm' nr'. spread n average [c..<n] nr lm = Inr lm' \<and> spread_inv n average tot n nr' lm'
    \<and> (\<forall>i<n. weight (lm' ! i) = weight (lm ! i))"
  using assms
proof (induction "n - c" arbitrary: c nr lm)
  case (Suc k)
  let ?lm = "spread_core n average c lm" and ?nr = "nr + length (dist (spread_core n average c lm ! c))"
  have c: "c < n" using Suc.hyps(2) by simp
  have len: "length lm = n" using Suc.prems(1) by (simp add: spread_inv_def)
  have inv: "spread_inv n average tot (c + 1) ?nr ?lm"
    using spread_light [OF Suc.prems(1) c] spread_heavy [OF Suc.prems(1) c _ Suc.prems(3)] by blast
  then have "?nr \<le> n + 2 * (c + 1)" unfolding spread_inv_def by linarith
  then have "\<not> ?nr > kPrealloc" using c Suc.prems(4) by simp
  then have "spread n average [c..<n] nr lm = spread n average [c + 1..<n] ?nr ?lm"
    using c by (simp add: upt_conv_Cons Let_def)
  moreover have "k = n - (c + 1)" "c + 1 \<le> n" using Suc.hyps(2) by simp_all
  ultimately show ?case
    using Suc.hyps(1) [OF _ inv _ Suc.prems(3,4)] spread_core_weight [OF c len] by simp
qed auto

lemma spread_end:
  assumes "spread_inv n average tot n nr lm" "int n * average \<le> tot" "i < n"
  shows "wload (lm ! i) = average"
proof (rule ccontr)
  assume ne: "wload (lm ! i) \<noteq> average"
  have le: "wload (lm ! j) \<le> average" if "j < n" for j using assms(1) that by (simp add: spread_inv_def)
  have lt: "wload (lm ! i) < average" using le [OF assms(3)] ne by simp
  have "(\<Sum>j<n. wload (lm ! j)) < (\<Sum>j<n. average)"
    by (rule sum_strict_mono_ex1) (use le lt assms(3) in auto)
  moreover have "(\<Sum>j<n. wload (lm ! j)) = tot" using assms(1,3) lt by (fastforce simp: spread_inv_def)
  ultimately show False using assms(2) by simp
qed

section \<open>Collecting the planned loads\<close>

definition lm_shape :: "nat \<Rightarrow> weight_dist list \<Rightarrow> bool" where
  "lm_shape n lm \<longleftrightarrow> length lm = n \<and> (\<forall>j<n. length (weights_per_core (lm ! j)) = n)"

abbreviation plan :: "weight_dist list \<Rightarrow> nat \<Rightarrow> nat \<Rightarrow> int" where
  "plan lm j i \<equiv> weights_per_core (lm ! j) ! i"

lemma take_plan_step:
  assumes "lm_shape n lm" "core < n" "j < n"
  shows "lm_shape n (take_plan core j lm)"
    "i < n \<Longrightarrow> weight (take_plan core j lm ! i) = weight (lm ! i) + (if i = core then plan lm j core else 0)"
    "i < n \<Longrightarrow> wload (take_plan core j lm ! i) = wload (lm ! i)"
    "k < n \<Longrightarrow> i < n \<Longrightarrow> plan (take_plan core j lm) k i = (if k = j \<and> i = core then 0 else plan lm k i)"
proof -
  have s: "length lm = n" "\<And>j. j < n \<Longrightarrow> length (weights_per_core (lm ! j)) = n" using assms(1) by (auto simp: lm_shape_def)
  show "lm_shape n (take_plan core j lm)"
    using s assms(2,3) by (auto simp: lm_shape_def take_plan_def Let_def nth_list_update)
  show "weight (take_plan core j lm ! i) = weight (lm ! i) + (if i = core then plan lm j core else 0)" if "i < n"
    using s assms(2,3) that by (simp add: take_plan_def Let_def nth_list_update)
  show "wload (take_plan core j lm ! i) = wload (lm ! i)" if "i < n"
    using s assms(2,3) that by (simp add: take_plan_def Let_def nth_list_update)
  show "plan (take_plan core j lm) k i = (if k = j \<and> i = core then 0 else plan lm k i)" if "k < n" "i < n"
    using s assms(2,3) that by (auto simp: take_plan_def Let_def nth_list_update)
qed

lemma take_plans:
  assumes "lm_shape n lm" "core < n" "m \<le> n"
  defines "lm' \<equiv> fold (take_plan core) [0..<m] lm"
  shows "lm_shape n lm' \<and> (\<forall>i<n. wload (lm' ! i) = wload (lm ! i)
      \<and> weight (lm' ! i) = weight (lm ! i) + (if i = core then \<Sum>j<m. plan lm j core else 0)
      \<and> (\<forall>k<n. plan lm' k i = (if k < m \<and> i = core then 0 else plan lm k i)))"
  using assms(3) unfolding lm'_def
proof (induction m)
  case (Suc m)
  then show ?case
    using take_plan_step [of n "fold (take_plan core) [0..<m] lm" core m] assms(2) by (auto simp: less_Suc_eq)
qed (use assms(1) in simp)

lemma gather_step:
  assumes "lm_shape n lm" "core < n"
  shows "lm_shape n (gather n lm core) \<and> (\<forall>i<n.
      weight (gather n lm core ! i) = weight (lm ! i) + (if i = core then \<Sum>j<n. plan lm j core else 0)
      \<and> wload (gather n lm core ! i) = (if i = core then weight (gather n lm core ! i) else wload (lm ! i))
      \<and> (\<forall>k<n. plan (gather n lm core) k i = (if i = core then 0 else plan lm k i)))"
  using take_plans [OF assms order_refl] assms(2)
  by (auto simp: gather_def Let_def lm_shape_def nth_list_update)

lemma gather_all:
  assumes "lm_shape n lm" "m \<le> n"
  defines "lm' \<equiv> foldl (gather n) lm [0..<m]"
  shows "lm_shape n lm' \<and> (\<forall>i<n. (i < m \<longrightarrow> wload (lm' ! i) = weight (lm' ! i))
      \<and> weight (lm' ! i) = weight (lm ! i) + (if i < m then \<Sum>j<n. plan lm j i else 0)
      \<and> (\<forall>k<n. plan lm' k i = (if i < m then 0 else plan lm k i)))"
  using assms(2) unfolding lm'_def
proof (induction m)
  case (Suc m)
  let ?g = "foldl (gather n) lm [0..<m]"
  have IH: "lm_shape n ?g" "\<And>i. i < n \<Longrightarrow> i < m \<Longrightarrow> wload (?g ! i) = weight (?g ! i)"
    "\<And>i. i < n \<Longrightarrow> weight (?g ! i) = weight (lm ! i) + (if i < m then \<Sum>j<n. plan lm j i else 0)"
    "\<And>i k. i < n \<Longrightarrow> k < n \<Longrightarrow> plan ?g k i = (if i < m then 0 else plan lm k i)"
    using Suc by auto
  have m: "m < n" using Suc.prems by simp
  have "(\<Sum>j<n. plan ?g j m) = (\<Sum>j<n. plan lm j m)" using IH(4) [OF m] by (intro sum.cong) auto
  then show ?case using gather_step [OF IH(1) m] IH(2-4) by (auto simp: less_Suc_eq)
qed (use assms(1) in simp)

text \<open>The load of a core: what it had and what all cores planned for it.\<close>

definition planned :: "weight_dist list \<Rightarrow> nat \<Rightarrow> int" where
  "planned lm i = weight (lm ! i) + (\<Sum>j<length lm. plan lm j i)"

lemma average_of_eq:
  assumes "0 \<le> tot" "tot < 2 ^ 63" "0 < n"
  shows "average_of n tot = tot div int n"
proof -
  have "tot mod 2 ^ 64 = tot" using assms by (intro mod_pos_pos_trivial) simp_all
  moreover have "0 \<le> tot div int n" "tot div int n \<le> tot"
    using assms zdiv_mono2 [of tot 1 "int n"] by (simp_all add: pos_imp_zdiv_nonneg_iff)
  ultimately show ?thesis using assms(2) unfolding average_of_def by simp
qed

text \<open>
  \<open>Balance\<close> succeeds, gives every core exactly the average load, and leaves every core a
  strictly increasing distribution over existing cores.
\<close>

lemma Balance_even:
  assumes "lm_shape n lm" "0 < n" "n \<le> 64" "0 \<le> (\<Sum>i<n. planned lm i)" "(\<Sum>i<n. planned lm i) < 2 ^ 63"
  shows "\<exists>lm'. Balance lm = Inr lm' \<and> length lm' = n \<and> (\<forall>i<n. wload (lm' ! i) = (\<Sum>i<n. planned lm i) div int n
    \<and> weight (lm' ! i) = planned lm i \<and> dist_ok n (lm' ! i))"
proof -
  let ?tot = "\<Sum>i<n. planned lm i"
  define lm1 where "lm1 = foldl (gather n) lm [0..<n]"
  have len: "length lm = n" using assms(1) by (simp add: lm_shape_def)
  have g: "length lm1 = n" "\<And>i. i < n \<Longrightarrow> wload (lm1 ! i) = planned lm i" "\<And>i. i < n \<Longrightarrow> weight (lm1 ! i) = planned lm i"
    using gather_all [OF assms(1) order_refl] len by (auto simp: lm1_def lm_shape_def planned_def)
  have tot: "(\<Sum>w\<leftarrow>lm1. weight w) = ?tot" using g by (simp add: sum_list_sum_nth atLeast0LessThan)
  let ?av = "?tot div int n"
  have av: "average_of n ?tot = ?av" "0 \<le> ?av"
    using average_of_eq assms by (auto simp: pos_imp_zdiv_nonneg_iff)
  have "int n * ?av \<le> ?tot" using mult_div_mod_eq [of "int n" ?tot] pos_mod_sign [of "int n" ?tot] assms(2) by linarith
  have inv: "spread_inv n ?av ?tot 0 0 lm1"
    using g card_mono [of "{..<n}" "open_cores n ?av lm1"] by (auto simp: spread_inv_def open_cores_def)
  have "3 * n \<le> kPrealloc" using assms(3) by (simp add: kPrealloc_def)
  from spread_run [OF inv _ av(2) this] obtain lm' nr' where
    r: "spread n ?av [0..<n] 0 lm1 = Inr lm'" "spread_inv n ?av ?tot n nr' lm'" "\<forall>i<n. weight (lm' ! i) = weight (lm1 ! i)"
    by auto
  have "Balance lm = Inr lm'" using r(1) av(1) len tot by (simp add: Balance_def Let_def lm1_def [symmetric])
  moreover have "wload (lm' ! i) = ?av" if "i < n" for i
    by (rule spread_end [OF r(2) _ that]) fact
  ultimately show ?thesis using r(2,3) g(3) by (auto simp: spread_inv_def)
qed

section \<open>Drawing a core and a row\<close>

lemma upper_bound_strict:
  assumes "sorted_wrt (<) xs" "d < length xs"
  shows "std_upper_bound xs 0 (length xs) v = d \<longleftrightarrow> (d = 0 \<or> xs ! (d - 1) \<le> v) \<and> v < xs ! d"
proof -
  let ?r = "std_upper_bound xs 0 (length xs) v"
  have mono: "i < j \<Longrightarrow> j < length xs \<Longrightarrow> xs ! i < xs ! j" for i j using assms(1) sorted_wrt_nth_less by blast
  have "range_sorted xs 0 (length xs)" using mono by (auto simp: range_sorted_def le_less)
  note sp = std_upper_bound_spec [OF this, where v = v]
  show ?thesis
  proof
    assume "?r = d"
    then show "(d = 0 \<or> xs ! (d - 1) \<le> v) \<and> v < xs ! d"
      using sp(3) [of "d - 1"] sp(4) [of d] assms(2) by (cases d) auto
  next
    assume r: "(d = 0 \<or> xs ! (d - 1) \<le> v) \<and> v < xs ! d"
    have "\<not> d < ?r" using sp(3) [of d] r by auto
    moreover have "\<not> ?r < d"
    proof
      assume lt: "?r < d"
      then have "v < xs ! (d - 1)" using sp(4) [of "d - 1"] assms(2) by simp
      then show False using r lt by auto
    qed
    ultimately show "?r = d" by simp
  qed
qed

text \<open>
  A core is drawn for exactly as many values of the seed as the load it took over.
\<close>

lemma GetScheduleCore_share:
  assumes "dist_ok n (lm ! core)" "1 < length (dist (lm ! core))" "d < length (dist (lm ! core))"
    and "unat rnd mod nat (last (dist (lm ! core))) = seed"
  shows "(if d = 0 then 0 else dist (lm ! core) ! (d - 1)) \<le> int seed \<and> int seed < dist (lm ! core) ! d
    \<Longrightarrow> GetScheduleCore lm core rnd = Inr (dcores (lm ! core) ! d)"
proof -
  let ?w = "lm ! core"
  have ok: "sorted_wrt (<) (dist ?w)" "length (dcores ?w) = length (dist ?w)" "0 \<le> hd (dist ?w)"
    using assms(1,2) by (auto simp: dist_ok_def)
  have "dist ?w \<noteq> []" using assms(1) by (simp add: dist_ok_def)
  then have "hd (dist ?w) < last (dist ?w)"
    using assms(2) sorted_wrt_nth_less [OF ok(1), of 0 "length (dist ?w) - 1"]
    by (simp add: hd_conv_nth last_conv_nth)
  then have "last (dist ?w) \<noteq> 0" using ok(3) by simp
  moreover assume "(if d = 0 then 0 else dist ?w ! (d - 1)) \<le> int seed \<and> int seed < dist ?w ! d"
  then have "std_upper_bound (dist ?w) 0 (length (dist ?w)) (int seed) = d"
    unfolding upper_bound_strict [OF ok(1) assms(3)] by (auto split: if_splits)
  moreover have "length (dist ?w) \<noteq> 0" "length (dist ?w) \<noteq> 1" using assms(2) by linarith+
  ultimately show ?thesis
    using assms(3,4) ok(2) unfolding GetScheduleCore_def Let_def by (auto simp: rd_def)
qed

lemma GetScheduleCore_total:
  assumes "dist_ok n (lm ! core)"
  shows "\<exists>c. GetScheduleCore lm core rnd = Inr c \<and> c < n"
proof (cases "1 < length (dist (lm ! core))")
  case True
  let ?w = "lm ! core" and ?l = "last (dist (lm ! core))"
  have ok: "sorted_wrt (<) (dist ?w)" "length (dcores ?w) = length (dist ?w)" "0 \<le> hd (dist ?w)" "set (dcores ?w) \<subseteq> {..<n}"
    using assms True by (auto simp: dist_ok_def)
  have ne: "dist ?w \<noteq> []" using assms by (simp add: dist_ok_def)
  then have l: "dist ?w ! (length (dist ?w) - 1) = ?l" by (simp add: last_conv_nth)
  have pos: "0 < ?l"
    using ok(3) sorted_wrt_nth_less [OF ok(1), of 0 "length (dist ?w) - 1"] l True ne
    by (simp add: hd_conv_nth)
  define seed where "seed = unat rnd mod nat ?l"
  have "seed < nat ?l" using pos by (simp add: seed_def)
  then have s: "int seed < ?l" by simp
  define d where "d = (LEAST d. int seed < dist ?w ! d)"
  have "int seed < dist ?w ! (length (dist ?w) - 1)" using s l by simp
  then have d: "int seed < dist ?w ! d" "d \<le> length (dist ?w) - 1"
    unfolding d_def by (rule LeastI, rule Least_le)
  have "\<not> int seed < dist ?w ! (d - 1)" if "d \<noteq> 0" using that not_less_Least [of "d - 1" "\<lambda>d. int seed < dist ?w ! d"] unfolding d_def by simp
  then have "(if d = 0 then 0 else dist ?w ! (d - 1)) \<le> int seed" by auto
  then have "GetScheduleCore lm core rnd = Inr (dcores ?w ! d)"
    using GetScheduleCore_share [OF assms True _ seed_def [symmetric], of d] d True by simp
  moreover have "dcores ?w ! d \<in> set (dcores ?w)" using d(2) True ok(2) by simp
  ultimately show ?thesis using ok(4) by auto
next
  case False
  have "length (dist (lm ! core)) = 1" using assms False unfolding dist_ok_def by (cases "dist (lm ! core)") auto
  moreover from this have "dcores (lm ! core) ! 0 \<in> set (dcores (lm ! core))" using assms by (simp add: dist_ok_def)
  moreover from this have "dcores (lm ! core) ! 0 < n" using assms unfolding dist_ok_def by blast
  ultimately show ?thesis by (auto simp: GetScheduleCore_def Let_def)
qed

text \<open>\<open>SelectRow\<close> returns the row of the \<open>sel\<close>-th set bit; its \<open>std::abort\<close> is never reached.\<close>

lemma bits_drop:
  fixes w :: u64
  assumes "w \<noteq> 0"
  shows "filter (bit w) [0..<64] = ctz w # map (\<lambda>i. i + (ctz w + 1)) (filter (bit (drop_bit (ctz w + 1) w)) [0..<64])"
proof -
  let ?k = "ctz w"
  have k: "?k < 64" "bit w ?k" "\<forall>i<?k. \<not> bit w i" using ctz_bit [OF assms] by simp_all
  have "[0..<64] = [0..<?k] @ ?k # [?k + 1..<64]"
    using k(1) upt_add_eq_append [of 0 ?k "64 - ?k"] by (simp add: upt_conv_Cons)
  then have l: "filter (bit w) [0..<64] = ?k # filter (bit w) [?k + 1..<64]" using k by simp
  have "filter (bit w) [?k + 1..<64 + (?k + 1)] = filter (bit w) [?k + 1..<64] @ filter (bit w) [64..<64 + (?k + 1)]"
    using k(1) upt_add_eq_append [of "?k + 1" 64 "?k + 1"] by simp
  also have "filter (bit w) [64..<64 + (?k + 1)] = []"
    by (auto simp: filter_empty_conv dest!: bit_imp_le_length)
  finally have "filter (bit w) [?k + 1..<64] = filter (bit w) (map (\<lambda>i. i + (?k + 1)) [0..<64])"
    unfolding map_add_upt by simp
  also have "\<dots> = map (\<lambda>i. i + (?k + 1)) (filter (bit (drop_bit (?k + 1) w)) [0..<64])"
    by (simp only: filter_map comp_def bit_drop_bit_eq add.commute)
  finally show ?thesis using l by simp
qed

lemma select_loop_nth:
  "sel < popcount w \<Longrightarrow> select_loop w sel pos rs = rd rs (pos + filter (bit w) [0..<64] ! sel)"
proof (induction w sel pos rs rule: select_loop.induct)
  case (1 w sel pos rs)
  let ?k = "ctz w"
  have len: "length (filter (bit w) [0..<64]) = popcount w" by (simp add: popcount_def)
  have w: "w \<noteq> 0" using "1.prems" by (auto simp: popcount_def)
  note b = bits_drop [OF w]
  show ?case
  proof (cases "sel = 0")
    case True
    then show ?thesis using w b by (simp add: select_loop.simps [of w])
  next
    case False
    let ?w = "drop_bit (?k + 1) w"
    have "popcount w = Suc (popcount ?w)" using arg_cong [OF b, of length] by (simp add: popcount_def)
    then have lt: "sel - 1 < popcount ?w" using "1.prems" False by simp
    have "?k \<noteq> 63"
    proof
      assume "?k = 63"
      then have "?w = 0" by (auto intro!: bit_eqI simp: bit_drop_bit_eq dest!: bit_imp_le_length)
      then show False using lt by (simp add: popcount_def)
    qed
    then have "select_loop w sel pos rs = select_loop ?w (sel - 1) (pos + ?k + 1) rs"
      using w False by (simp add: select_loop.simps [of w] Let_def)
    also have "\<dots> = rd rs (pos + ?k + 1 + filter (bit ?w) [0..<64] ! (sel - 1))"
      using "1.IH" [OF w refl False \<open>?k \<noteq> 63\<close> lt] .
    also have "pos + ?k + 1 + filter (bit ?w) [0..<64] ! (sel - 1) = pos + filter (bit w) [0..<64] ! sel"
    proof -
      have "sel - 1 < length (filter (bit ?w) [0..<64])" using lt by (simp add: popcount_def)
      then show ?thesis by (simp only: b nth_Cons' False if_False nth_map ac_simps)
    qed
    finally show ?thesis .
  qed
qed

lemma SelectRow_picks:
  assumes "bitmap \<noteq> 0" "\<forall>i. bit bitmap i \<longrightarrow> i < length rs"
  shows "\<exists>i. bit bitmap i \<and> SelectRow bitmap rs rnd = Inr (Some (rs ! i))"
proof -
  let ?b = "filter (bit bitmap) [0..<64]" and ?s = "unat rnd mod popcount bitmap"
  have "0 < popcount bitmap" using bits_drop [OF assms(1)] by (simp add: popcount_def)
  then have s: "?s < popcount bitmap" by simp
  then have "?b ! ?s \<in> set ?b" by (intro nth_mem) (simp add: popcount_def)
  then have "bit bitmap (?b ! ?s)" by simp
  then show ?thesis
    using select_loop_nth [OF s, of 0 rs] assms by (intro exI [of _ "?b ! ?s"]) (simp add: SelectRow_def rd_def)
qed

end
