(* ===== verification/Locks.thy ===== *)
theory Locks
  imports Felis_Prelude
begin

text \<open>
  The locks of \<^verbatim>\<open>src/util/locks.cc\<close>. \<open>SpinLock\<close> is a single flag. \<open>MCSSpinLock\<close> is
  a queue lock: the nodes of the waiting threads are linked behind the owner. Its atomic
  operations are the steps of a transition relation over any number of threads; each
  thread uses one \<open>QNode\<close>, which is fresh when it calls \<open>Lock\<close> or \<open>TryLock\<close>.
\<close>

section \<open>SpinLock\<close>

text \<open>\<open>compare_exchange_strong(expected, desired)\<close> on an atomic: success and new value.\<close>

definition compare_exchange :: "'a \<Rightarrow> 'a \<Rightarrow> 'a \<Rightarrow> bool \<times> 'a" where
  "compare_exchange cell expected desired = (if cell = expected then (True, desired) else (False, cell))"

definition SpinLock_TryLock :: "bool \<Rightarrow> bool \<times> bool" where
  "SpinLock_TryLock lock = compare_exchange lock False True"

definition SpinLock_Unlock :: "bool \<Rightarrow> bool" where
  "SpinLock_Unlock lock = False"

text \<open>The loop of \<open>Lock\<close>, against the values the flag has at the successive attempts.\<close>

fun SpinLock_Lock :: "bool list \<Rightarrow> nat option" where
  "SpinLock_Lock [] = None"
| "SpinLock_Lock (v # vs) = (if fst (SpinLock_TryLock v) then Some 0 else map_option Suc (SpinLock_Lock vs))"

text \<open>\<open>Lock\<close> returns at the first attempt that finds the flag clear.\<close>

lemma SpinLock_Lock_first:
  "SpinLock_Lock vs = Some n \<longleftrightarrow> n < length vs \<and> \<not> vs ! n \<and> (\<forall>i<n. vs ! i)"
proof (induction vs arbitrary: n)
  case (Cons v vs)
  then show ?case by (cases n) (auto simp: SpinLock_TryLock_def compare_exchange_def All_less_Suc2)
qed simp

section \<open>MCSSpinLock\<close>

text \<open>
  Where a thread is: outside; behind \<open>l\<close> but not linked yet; spinning on \<open>done\<close>; in the
  critical section; in \<open>Unlock\<close> after it saw no successor, after its compare-and-swap on
  the tail failed, and before it wakes the successor.
\<close>

datatype mcs_pc = Idle | Swapped nat | Spinning | Critical | NoNext | AwaitNext | Pass

record mcs =
  tail :: "nat option"
  done_flag :: "nat \<Rightarrow> bool"
  next_node :: "nat \<Rightarrow> nat option"
  pc :: "nat \<Rightarrow> mcs_pc"

definition MCSSpinLock :: mcs where
  "MCSSpinLock = \<lparr>tail = None, done_flag = (\<lambda>t. False), next_node = (\<lambda>t. None), pc = (\<lambda>t. Idle)\<rparr>"

definition IsLocked :: "mcs \<Rightarrow> bool" where
  "IsLocked s \<longleftrightarrow> tail s \<noteq> None"

definition fresh :: "nat \<Rightarrow> mcs \<Rightarrow> mcs" where
  "fresh t s = s\<lparr>done_flag := (done_flag s)(t := False), next_node := (next_node s)(t := None)\<rparr>"

definition goto :: "nat \<Rightarrow> mcs_pc \<Rightarrow> mcs \<Rightarrow> mcs" where
  "goto t p s = s\<lparr>pc := (pc s)(t := p)\<rparr>"

lemma goto_simps [simp]:
  "pc (goto t p s) u = (if u = t then p else pc s u)" "done_flag (goto t p s) = done_flag s"
  "next_node (goto t p s) = next_node s" "tail (goto t p s) = tail s"
  by (simp_all add: goto_def)

text \<open>\<open>TryLock\<close> is one atomic operation.\<close>

definition TryLock :: "nat \<Rightarrow> mcs \<Rightarrow> bool \<times> mcs" where
  "TryLock t s =
     (case compare_exchange (tail s) None (Some t) of
        (True, v) \<Rightarrow> (True, goto t Critical ((fresh t s)\<lparr>tail := v\<rparr>))
      | (False, v) \<Rightarrow> (False, s))"

text \<open>One atomic step of \<open>Lock\<close> or \<open>Unlock\<close> by thread \<open>t\<close>; \<open>None\<close> when it has to wait.\<close>

definition Lock_step :: "nat \<Rightarrow> mcs \<Rightarrow> mcs option" where
  "Lock_step t s =
     (case pc s t of
        Idle \<Rightarrow>
          let s' = (fresh t s)\<lparr>tail := Some t\<rparr> in
          (case tail s of None \<Rightarrow> Some (goto t Critical s') | Some l \<Rightarrow> Some (goto t (Swapped l) s'))
      | Swapped l \<Rightarrow> Some (goto t Spinning (s\<lparr>next_node := (next_node s)(l := Some t)\<rparr>))
      | Spinning \<Rightarrow> if done_flag s t then Some (goto t Critical s) else None
      | _ \<Rightarrow> None)"

definition Unlock_step :: "nat \<Rightarrow> mcs \<Rightarrow> mcs option" where
  "Unlock_step t s =
     (case pc s t of
        Critical \<Rightarrow> Some (goto t (if next_node s t = None then NoNext else Pass) s)
      | NoNext \<Rightarrow>
          (case compare_exchange (tail s) (Some t) None of
             (True, v) \<Rightarrow> Some (goto t Idle (s\<lparr>tail := v\<rparr>))
           | (False, v) \<Rightarrow> Some (goto t AwaitNext s))
      | AwaitNext \<Rightarrow> if next_node s t \<noteq> None then Some (goto t Pass s) else None
      | Pass \<Rightarrow>
          (case next_node s t of
             None \<Rightarrow> None
           | Some u \<Rightarrow> Some (goto t Idle (s\<lparr>done_flag := (done_flag s)(u := True)\<rparr>)))
      | _ \<Rightarrow> None)"

inductive mcs_step :: "mcs \<Rightarrow> mcs \<Rightarrow> bool" where
  try_lock: "pc s t = Idle \<Longrightarrow> mcs_step s (snd (TryLock t s))"
| lock: "Lock_step t s = Some s' \<Longrightarrow> mcs_step s s'"
| unlock: "Unlock_step t s = Some s' \<Longrightarrow> mcs_step s s'"

inductive mcs_reach :: "mcs \<Rightarrow> bool" where
  init: "mcs_reach MCSSpinLock"
| step: "mcs_reach s \<Longrightarrow> mcs_step s s' \<Longrightarrow> mcs_reach s'"

section \<open>The queue of an MCS lock\<close>

definition owner_pc :: "mcs \<Rightarrow> nat \<Rightarrow> bool" where
  "owner_pc s t \<longleftrightarrow> pc s t \<in> {Critical, NoNext, AwaitNext, Pass}"

text \<open>
  The threads in the lock form a queue: the head owns the lock or has just been woken;
  the others wait; a thread knows its successor as soon as that is linked.
\<close>

definition is_queue :: "mcs \<Rightarrow> nat list \<Rightarrow> bool" where
  "is_queue s q \<longleftrightarrow> distinct q \<and> (\<forall>t. t \<in> set q \<longleftrightarrow> pc s t \<noteq> Idle)
     \<and> tail s = (if q = [] then None else Some (last q))
     \<and> (q \<noteq> [] \<longrightarrow> owner_pc s (hd q) \<or> pc s (hd q) = Spinning \<and> done_flag s (hd q))
     \<and> (q \<noteq> [] \<longrightarrow> pc s (hd q) = AwaitNext \<longrightarrow> 1 < length q)
     \<and> (q \<noteq> [] \<longrightarrow> pc s (hd q) = Pass \<longrightarrow> next_node s (hd q) \<noteq> None)
     \<and> (q \<noteq> [] \<longrightarrow> next_node s (last q) = None)
     \<and> (\<forall>i. Suc i < length q \<longrightarrow> \<not> done_flag s (q ! Suc i)
          \<and> (pc s (q ! Suc i) = Swapped (q ! i) \<and> next_node s (q ! i) = None
             \<or> pc s (q ! Suc i) = Spinning \<and> next_node s (q ! i) = Some (q ! Suc i)))"

definition linked :: "mcs \<Rightarrow> nat \<Rightarrow> nat \<Rightarrow> bool" where
  "linked s t u \<longleftrightarrow> \<not> done_flag s u \<and> (pc s u = Swapped t \<and> next_node s t = None
     \<or> pc s u = Spinning \<and> next_node s t = Some u)"

lemma is_queueD:
  assumes "is_queue s q"
  shows "distinct q" "t \<in> set q \<longleftrightarrow> pc s t \<noteq> Idle" "q = [] \<Longrightarrow> tail s = None" "q \<noteq> [] \<Longrightarrow> tail s = Some (last q)"
    "q \<noteq> [] \<Longrightarrow> owner_pc s (hd q) \<or> pc s (hd q) = Spinning \<and> done_flag s (hd q)"
    "q \<noteq> [] \<Longrightarrow> pc s (hd q) = AwaitNext \<Longrightarrow> 1 < length q"
    "q \<noteq> [] \<Longrightarrow> pc s (hd q) = Pass \<Longrightarrow> next_node s (hd q) \<noteq> None"
    "q \<noteq> [] \<Longrightarrow> next_node s (last q) = None"
    "Suc i < length q \<Longrightarrow> linked s (q ! i) (q ! Suc i)"
  using assms unfolding is_queue_def linked_def by auto

lemma is_queueI:
  assumes "distinct q" "\<And>t. t \<in> set q \<longleftrightarrow> pc s t \<noteq> Idle" "q = [] \<Longrightarrow> tail s = None" "q \<noteq> [] \<Longrightarrow> tail s = Some (last q)"
    "q \<noteq> [] \<Longrightarrow> owner_pc s (hd q) \<or> pc s (hd q) = Spinning \<and> done_flag s (hd q)"
    "q \<noteq> [] \<Longrightarrow> pc s (hd q) = AwaitNext \<Longrightarrow> 1 < length q"
    "q \<noteq> [] \<Longrightarrow> pc s (hd q) = Pass \<Longrightarrow> next_node s (hd q) \<noteq> None"
    "q \<noteq> [] \<Longrightarrow> next_node s (last q) = None"
    "\<And>i. Suc i < length q \<Longrightarrow> linked s (q ! i) (q ! Suc i)"
  shows "is_queue s q"
  using assms unfolding is_queue_def linked_def by auto

lemma is_queue_init: "is_queue MCSSpinLock []"
  by (simp add: is_queue_def MCSSpinLock_def)

lemma is_queue_mem:
  assumes "is_queue s q" "pc s t \<noteq> Idle"
  obtains i where "i < length q" "q ! i = t"
  using assms unfolding is_queue_def by (metis in_set_conv_nth)

text \<open>Only the head of the queue can be in the critical section or in \<open>Unlock\<close>.\<close>

lemma is_queue_owner:
  assumes "is_queue s q" "owner_pc s t \<or> done_flag s t \<and> pc s t = Spinning"
  shows "q \<noteq> [] \<and> t = hd q"
proof -
  have "pc s t \<noteq> Idle" using assms(2) by (auto simp: owner_pc_def)
  then obtain i where i: "i < length q" "q ! i = t" using is_queue_mem [OF assms(1)] by blast
  show ?thesis
  proof (cases i)
    case 0
    then show ?thesis using i by (cases q) auto
  next
    case (Suc j)
    have "\<not> done_flag s t \<and> (pc s t = Swapped (q ! j) \<or> pc s t = Spinning)"
      using assms(1) i Suc unfolding is_queue_def by auto
    then show ?thesis using assms(2) by (auto simp: owner_pc_def)
  qed
qed

lemma enqueue_queue:
  assumes q: "is_queue s q" and idle: "pc s t = Idle"
  shows "is_queue (goto t (case tail s of None \<Rightarrow> Critical | Some l \<Rightarrow> Swapped l) ((fresh t s)\<lparr>tail := Some t\<rparr>)) (q @ [t])"
    (is "is_queue ?s _")
proof -
  note Q = is_queueD [OF q]
  have t: "t \<notin> set q" using Q(2) idle by simp
  have other: "pc ?s u = pc s u" "done_flag ?s u = done_flag s u" "next_node ?s u = next_node s u" if "u \<noteq> t" for u
    using that by (simp_all add: goto_def fresh_def)
  have own: "\<not> done_flag ?s t" "next_node ?s t = None" "tail ?s = Some t"
    "pc ?s t = (if q = [] then Critical else Swapped (last q))"
    using Q(3,4) by (simp_all add: goto_def fresh_def)
  have hq: "hd (q @ [t]) = (if q = [] then t else hd q)" "q \<noteq> [] \<Longrightarrow> hd q \<noteq> t" using t by (auto simp: hd_append)
  show ?thesis
  proof (rule is_queueI)
    show "distinct (q @ [t])" using Q(1) t by simp
    show "u \<in> set (q @ [t]) \<longleftrightarrow> pc ?s u \<noteq> Idle" for u using Q(2) [of u] other [of u] own(4) by (cases "u = t") auto
    show "owner_pc ?s (hd (q @ [t])) \<or> pc ?s (hd (q @ [t])) = Spinning \<and> done_flag ?s (hd (q @ [t]))"
      using Q(5) hq other own(4) by (cases "q = []") (simp_all add: owner_pc_def)
    show "1 < length (q @ [t])" if "pc ?s (hd (q @ [t])) = AwaitNext" using that own(4) by (cases "q = []") simp_all
    show "next_node ?s (hd (q @ [t])) \<noteq> None" if "pc ?s (hd (q @ [t])) = Pass"
      using that Q(7) hq other own(4) by (cases "q = []") simp_all
    show "linked ?s ((q @ [t]) ! i) ((q @ [t]) ! Suc i)" if i: "Suc i < length (q @ [t])" for i
    proof (cases "Suc i < length q")
      case True
      then have "q ! i \<noteq> t" "q ! Suc i \<noteq> t" using t nth_mem [of i q] nth_mem [of "Suc i" q] by auto
      then show ?thesis using Q(9) [OF True] True other by (simp add: linked_def nth_append)
    next
      case False
      then have e: "length q = Suc i" using i by simp
      then have "q \<noteq> []" by auto
      then have "(q @ [t]) ! i = last q" "(q @ [t]) ! Suc i = t" using e by (simp_all add: nth_append last_conv_nth)
      moreover have "last q \<noteq> t" using t \<open>q \<noteq> []\<close> last_in_set by blast
      ultimately show ?thesis using own other Q(8) \<open>q \<noteq> []\<close> by (simp add: linked_def)
    qed
  qed (use own in simp_all)
qed

text \<open>A step that changes only the program counter of the owner.\<close>

lemma owner_moves:
  assumes q: "is_queue s q" and t: "owner_pc s t \<or> done_flag s t \<and> pc s t = Spinning"
    and p: "p \<in> {Critical, NoNext, AwaitNext, Pass}" "p = AwaitNext \<Longrightarrow> 1 < length q" "p = Pass \<Longrightarrow> next_node s t \<noteq> None"
  shows "is_queue (goto t p s) q"
proof -
  note Q = is_queueD [OF q]
  have h: "q \<noteq> []" "t = hd q" using is_queue_owner [OF q t] by auto
  have tin: "t \<in> set q" using h by simp
  have pn: "p \<noteq> Idle" using p(1) by auto
  show ?thesis
  proof (rule is_queueI)
    show "u \<in> set q \<longleftrightarrow> pc (goto t p s) u \<noteq> Idle" for u
      using Q(2) [of u] tin pn by (cases "u = t") simp_all
    show "distinct q" by (rule Q(1))
    show "tail (goto t p s) = Some (last q)" using Q(4) h(1) by simp
    show "tail (goto t p s) = None" if "q = []" using that h(1) by simp
    show "owner_pc (goto t p s) (hd q) \<or> pc (goto t p s) (hd q) = Spinning \<and> done_flag (goto t p s) (hd q)"
      using p(1) unfolding h(2) [symmetric] by (simp add: owner_pc_def)
    show "1 < length q" if "pc (goto t p s) (hd q) = AwaitNext" using that p(2) unfolding h(2) [symmetric] by simp
    show "next_node (goto t p s) (hd q) \<noteq> None" if "pc (goto t p s) (hd q) = Pass"
      using that p(3) unfolding h(2) [symmetric] by simp
    show "next_node (goto t p s) (last q) = None" using Q(8) h(1) by simp
    show "linked (goto t p s) (q ! i) (q ! Suc i)" if "Suc i < length q" for i
    proof -
      have "q ! Suc i \<noteq> t" using that Q(1) h by (simp add: hd_conv_nth nth_eq_iff_index_eq)
      then show ?thesis using Q(9) [OF that] by (simp add: linked_def)
    qed
  qed
qed

lemma link_queue:
  assumes q: "is_queue s q" and t: "pc s t = Swapped l"
  shows "is_queue (goto t Spinning (s\<lparr>next_node := (next_node s)(l := Some t)\<rparr>)) q" (is "is_queue ?s q")
proof -
  note Q = is_queueD [OF q]
  have "pc s t \<noteq> Idle" using t by simp
  then obtain k where k: "k < length q" "q ! k = t" by (rule is_queue_mem [OF q])
  have "k \<noteq> 0"
  proof
    assume "k = 0"
    then have "t = hd q" "q \<noteq> []" using k by (auto simp: hd_conv_nth)
    then show False using Q(5) t by (auto simp: owner_pc_def)
  qed
  then obtain j where j: "k = Suc j" by (cases k) auto
  then have l: "l = q ! j" using Q(9) [of j] k t by (auto simp: linked_def)
  have pcs: "pc ?s u = (if u = t then Spinning else pc s u)" "next_node ?s u = (if u = l then Some t else next_node s u)"
    "done_flag ?s = done_flag s" "tail ?s = tail s" for u
    by (simp_all add: goto_def)
  have ne: "q \<noteq> []" using k by auto
  then have ne: "q \<noteq> []" "hd q \<noteq> t" "last q \<noteq> l"
    using k j l Q(1) by (simp_all add: hd_conv_nth last_conv_nth nth_eq_iff_index_eq flip: k(2))
  show ?thesis
  proof (rule is_queueI)
    show "u \<in> set q \<longleftrightarrow> pc ?s u \<noteq> Idle" for u using Q(2) [of u] t by (auto simp: pcs)
    show "distinct q" by (rule Q(1))
    show "tail ?s = Some (last q)" using Q(4) ne(1) by (simp add: pcs)
    show "tail ?s = None" if "q = []" using that ne(1) by simp
    show "owner_pc ?s (hd q) \<or> pc ?s (hd q) = Spinning \<and> done_flag ?s (hd q)"
      using Q(5) ne by (simp add: owner_pc_def pcs)
    show "1 < length q" if "pc ?s (hd q) = AwaitNext" using that Q(6) ne by (simp add: pcs)
    show "next_node ?s (hd q) \<noteq> None" if "pc ?s (hd q) = Pass" using that Q(7) ne by (simp add: pcs)
    show "next_node ?s (last q) = None" using Q(8) ne by (simp add: pcs)
    show "linked ?s (q ! i) (q ! Suc i)" if "Suc i < length q" for i
    proof (cases "i = j")
      case True
      then show ?thesis using Q(9) [OF that] j k l by (simp add: linked_def pcs)
    next
      case False
      then have "q ! i \<noteq> l" "q ! Suc i \<noteq> t" using that j k l Q(1) by (auto simp: nth_eq_iff_index_eq)
      then show ?thesis using Q(9) [OF that] by (simp add: linked_def pcs)
    qed
  qed
qed

lemma leave_queue:
  assumes q: "is_queue s q" and t: "pc s t = NoNext" "tail s = Some t"
  shows "is_queue (goto t Idle (s\<lparr>tail := None\<rparr>)) []"
proof -
  note Q = is_queueD [OF q]
  have h: "q \<noteq> []" "t = hd q" using is_queue_owner [OF q] t(1) by (auto simp: owner_pc_def)
  then have "last q = hd q" using Q(4) t(2) by simp
  then have "q = [t]" using h Q(1) by (cases q) (auto split: if_splits)
  then have "pc s u = Idle" if "u \<noteq> t" for u using Q(2) [of u] that by simp
  then show ?thesis by (intro is_queueI) (auto simp: goto_def)
qed

lemma pass_queue:
  assumes q: "is_queue s q" and t: "pc s t = Pass" "next_node s t = Some u"
  shows "is_queue (goto t Idle (s\<lparr>done_flag := (done_flag s)(u := True)\<rparr>)) (tl q)" (is "is_queue ?s _")
proof -
  note Q = is_queueD [OF q]
  have h: "q \<noteq> []" "t = hd q" using is_queue_owner [OF q] t(1) by (auto simp: owner_pc_def)
  have "q = t # tl q" unfolding h(2) using h(1) by simp
  then obtain r where r: "q = t # r" by blast
  have "r \<noteq> []" using Q(8) h(1) t(2) r by auto
  then obtain v r' where v: "r = v # r'" by (cases r) auto
  have u: "u = v" "pc s v = Spinning" using Q(9) [of 0] t(2) r v by (auto simp: linked_def)
  have d: "t \<notin> set r" "v \<notin> set r'" using Q(1) r v by auto
  have st: "pc ?s x = (if x = t then Idle else pc s x)" "next_node ?s = next_node s" "tail ?s = tail s"
    "done_flag ?s x = (x = v \<or> done_flag s x)" for x
    by (auto simp: goto_def u)
  show ?thesis
  proof (rule is_queueI)
    show "x \<in> set (tl q) \<longleftrightarrow> pc ?s x \<noteq> Idle" for x using Q(2) [of x] d r by (auto simp: st)
    show "linked ?s (tl q ! i) (tl q ! Suc i)" if i: "Suc i < length (tl q)" for i
    proof -
      have "tl q ! Suc i \<in> set r'" using i r v by simp
      then have "tl q ! Suc i \<noteq> v" "tl q ! Suc i \<noteq> t" using d v by auto
      then show ?thesis using Q(9) [of "Suc i"] i r by (simp add: linked_def st u(1))
    qed
  qed (use Q(1,4,8) r v u d in \<open>auto simp: st\<close>)
qed

lemma mcs_step_queue:
  assumes "mcs_step s s'" "is_queue s q"
  shows "\<exists>q'. is_queue s' q' \<and> (q' = q \<or> (\<exists>t. q' = q @ [t]) \<or> q' = tl q)"
  using assms(1)
proof cases
  case (try_lock t)
  show ?thesis
  proof (cases "tail s")
    case None
    then have "s' = goto t Critical ((fresh t s)\<lparr>tail := Some t\<rparr>)" using try_lock by (simp add: TryLock_def compare_exchange_def)
    then show ?thesis using enqueue_queue [OF assms(2) try_lock(2)] None by auto
  next
    case (Some l)
    then show ?thesis using try_lock assms(2) by (auto simp: TryLock_def compare_exchange_def)
  qed
next
  case (lock t)
  then show ?thesis
  proof (cases "pc s t")
    case Idle
    then show ?thesis using enqueue_queue [OF assms(2) Idle] lock by (auto simp: Lock_step_def Let_def split: option.splits)
  next
    case (Swapped l)
    then show ?thesis using link_queue [OF assms(2) Swapped] lock by (auto simp: Lock_step_def)
  next
    case Spinning
    then show ?thesis
      using owner_moves [OF assms(2), of t Critical] lock by (auto simp: Lock_step_def split: if_splits)
  qed (simp_all add: Lock_step_def)
next
  case (unlock t)
  note Q = is_queueD [OF assms(2)]
  show ?thesis
  proof (cases "pc s t")
    case Critical
    then have "owner_pc s t" by (simp add: owner_pc_def)
    then have "is_queue s' q"
      using owner_moves [OF assms(2), of t NoNext] owner_moves [OF assms(2), of t Pass] unlock Critical
      by (cases "next_node s t") (auto simp: Unlock_step_def)
    then show ?thesis by blast
  next
    case NoNext
    then have o: "owner_pc s t" by (simp add: owner_pc_def)
    then have h: "q \<noteq> []" "t = hd q" using is_queue_owner [OF assms(2)] by auto
    show ?thesis
    proof (cases "tail s = Some t")
      case True
      then have "q = [t]" using Q(1,4) h by (cases q) (auto split: if_splits)
      then show ?thesis using leave_queue [OF assms(2) NoNext True] unlock NoNext True
        by (auto simp: Unlock_step_def compare_exchange_def)
    next
      case False
      then have "1 < length q" using Q(4) h by (cases q) auto
      then show ?thesis using owner_moves [OF assms(2), of t AwaitNext] o unlock NoNext False
        by (auto simp: Unlock_step_def compare_exchange_def)
    qed
  next
    case AwaitNext
    then have "owner_pc s t" by (simp add: owner_pc_def)
    then show ?thesis using owner_moves [OF assms(2), of t Pass] unlock AwaitNext
      by (auto simp: Unlock_step_def split: if_splits)
  next
    case Pass
    then show ?thesis using pass_queue [OF assms(2) Pass] unlock by (auto simp: Unlock_step_def split: option.splits)
  qed (use unlock in \<open>simp_all add: Unlock_step_def\<close>)
qed

lemma mcs_reach_queue: "mcs_reach s \<Longrightarrow> \<exists>q. is_queue s q"
  by (induction rule: mcs_reach.induct) (use is_queue_init mcs_step_queue in blast)+

text \<open>Mutual exclusion.\<close>

lemma mcs_mutex: "mcs_reach s \<Longrightarrow> pc s t = Critical \<Longrightarrow> pc s u = Critical \<Longrightarrow> t = u"
  using mcs_reach_queue is_queue_owner unfolding owner_pc_def by blast

text \<open>Progress: while a thread is in the lock, some thread in the lock can take a step.\<close>

lemma mcs_progress:
  assumes "mcs_reach s" "pc s t \<noteq> Idle"
  shows "\<exists>u s'. pc s u \<noteq> Idle \<and> (Lock_step u s = Some s' \<or> Unlock_step u s = Some s')"
proof -
  obtain q where q: "is_queue s q" using mcs_reach_queue [OF assms(1)] by blast
  note Q = is_queueD [OF q]
  have ne: "q \<noteq> []" using Q(2) [of t] assms(2) by auto
  let ?h = "hd q"
  have hn: "pc s ?h \<noteq> Idle" using Q(2) [of ?h] ne by simp
  show ?thesis
  proof (cases "pc s ?h = AwaitNext \<and> next_node s ?h = None")
    case True
    then have "1 < length q" using Q(6) ne by blast
    then have l: "linked s (q ! 0) (q ! 1)" using Q(9) [of 0] by simp
    then have "pc s (q ! 1) = Swapped ?h" using True ne by (auto simp: linked_def hd_conv_nth)
    then have "pc s (q ! 1) \<noteq> Idle \<and> (\<exists>s'. Lock_step (q ! 1) s = Some s')" by (simp add: Lock_step_def)
    then show ?thesis by blast
  next
    case False
    then have "\<exists>s'. Lock_step ?h s = Some s' \<or> Unlock_step ?h s = Some s'"
      using Q(5,7) [OF ne] by (cases "pc s ?h") (auto simp: owner_pc_def Lock_step_def Unlock_step_def compare_exchange_def)
    then show ?thesis using hn by blast
  qed
qed

text \<open>The lock is free exactly when no thread is in it.\<close>

lemma IsLocked_iff: "mcs_reach s \<Longrightarrow> IsLocked s \<longleftrightarrow> (\<exists>t. pc s t \<noteq> Idle)"
proof -
  assume "mcs_reach s"
  then obtain q where "is_queue s q" using mcs_reach_queue by blast
  note Q = is_queueD [OF this]
  show ?thesis
  proof (cases "q = []")
    case True
    then show ?thesis using Q(2,3) by (simp add: IsLocked_def)
  next
    case False
    then show ?thesis using Q(2) [of "last q"] Q(4) by (auto simp: IsLocked_def)
  qed
qed

end
