(* ===== verification/Vhandle_Sync.thy ===== *)
theory Vhandle_Sync
  imports Vhandle
begin

text \<open>
  Waiting for a version that is not written yet, \<^verbatim>\<open>src/vhandle_sync.cc\<close>. A reader of
  a pending version clears the bit of its core in the low half of the pending value and
  spins on the flag of its core (\<open>SpinnerSlot::WaitForData\<close>); the writer replaces the
  pending value by the object and sets the flags of the cores whose bits are clear
  (\<open>OfferData\<close>, \<open>Notify\<close>). The atomic operations are the steps of a transition system
  with one writer and any number of readers.
\<close>

section \<open>Slots\<close>

text \<open>\<open>SpinnerSlot::slot\<close>; a slot has 64 bytes and every NUMA zone one page.\<close>

definition slot :: "nat \<Rightarrow> nat" where
  "slot idx = 64 * (idx div kNrCorePerNode) + idx mod kNrCorePerNode"

definition nr_zone :: "nat \<Rightarrow> nat" where
  "nr_zone nr_threads = (nr_threads - 1) div kNrCorePerNode + 1"

definition AllocateBuffer :: "nat \<Rightarrow> nat \<Rightarrow> int list" where
  "AllocateBuffer page_slots nr_threads = replicate (page_slots * nr_zone nr_threads) 0"

lemma slot_inj: "slot i = slot j \<Longrightarrow> i = j"
proof -
  assume "slot i = slot j"
  then have e: "64 * (i div 8) + i mod 8 = 64 * (j div 8) + j mod 8" by (simp add: slot_def kNrCorePerNode_def)
  have m: "i mod 8 < 64" "j mod 8 < 64" by (simp_all add: less_trans [of _ 8 64])
  have "(64 * (i div 8) + i mod 8) mod 64 = i mod 8" "(64 * (j div 8) + j mod 8) mod 64 = j mod 8"
    using m by simp_all
  then have "i mod 8 = j mod 8" using e by simp
  moreover from this have "i div 8 = j div 8" using e by simp
  ultimately show ?thesis by (metis mult_div_mod_eq)
qed

lemma slot_bound:
  assumes "idx < nr_threads"
  shows "slot idx < length (AllocateBuffer 64 nr_threads)"
proof -
  have "idx div 8 \<le> (nr_threads - 1) div 8" using assms by (intro div_le_mono) simp
  moreover have "idx mod 8 < 64" by (simp add: less_trans [of _ 8 64])
  ultimately show ?thesis by (simp add: slot_def nr_zone_def AllocateBuffer_def kNrCorePerNode_def)
qed

text \<open>The wait counters, one per slot.\<close>

definition ClearWaitCountStats :: "nat \<Rightarrow> int list \<Rightarrow> int list" where
  "ClearWaitCountStats nr_threads buf = fold (\<lambda>i b. b[slot i := 0]) [0..<nr_threads] buf"

definition GetWaitCountStat :: "int list \<Rightarrow> nat \<Rightarrow> int" where
  "GetWaitCountStat buf core = buf ! slot core"

definition AddWaitCount :: "nat \<Rightarrow> int \<Rightarrow> int list \<Rightarrow> int list" where
  "AddWaitCount core wait_cnt buf = buf[slot core := buf ! slot core + wait_cnt]"

lemma ClearWaitCountStats_zero:
  assumes "core < nr_threads" "length buf = 64 * nr_zone nr_threads"
  shows "GetWaitCountStat (ClearWaitCountStats nr_threads buf) core = 0"
proof -
  have "length (fold (\<lambda>i b. b[slot i := (0::int)]) [0..<n] buf) = length buf" for n by (induction n) simp_all
  moreover have "slot core < length buf" using slot_bound [OF assms(1)] assms(2) by (simp add: AllocateBuffer_def)
  ultimately have "core < n \<Longrightarrow> fold (\<lambda>i b. b[slot i := (0::int)]) [0..<n] buf ! slot core = 0" for n
  proof (induction n)
    case (Suc n)
    then show ?case by (cases "slot n = slot core") (auto simp: less_Suc_eq)
  qed simp
  then show ?thesis using assms(1) by (simp add: ClearWaitCountStats_def GetWaitCountStat_def)
qed

lemma AddWaitCount_other:
  assumes "core \<noteq> core'"
  shows "GetWaitCountStat (AddWaitCount core w buf) core' = GetWaitCountStat buf core'"
proof -
  have "slot core \<noteq> slot core'" using assms slot_inj by blast
  then show ?thesis by (simp add: GetWaitCountStat_def AddWaitCount_def)
qed

section \<open>Notify\<close>

function Notify :: "u64 \<Rightarrow> (nat \<Rightarrow> bool) \<Rightarrow> (nat \<Rightarrow> bool) res" where
  "Notify bmap done_slot =
     (if bmap = 0 then Inr done_slot
      else let idx = ctz bmap in
           if idx \<ge> 32 then Inl OutOfBounds
           else Notify (clear_idx idx bmap) (done_slot(slot idx := True)))"
  by auto
termination
proof (relation "measure (\<lambda>(b, d). popcount b)")
  fix b :: u64 and d :: "nat \<Rightarrow> bool" and x
  assume b: "b \<noteq> 0" "x = ctz b" "\<not> 32 \<le> x"
  have "bit b x" using ctz_bit [OF b(1)] b(2) by simp
  moreover have "\<not> bit (clear_idx x b) x" using b(3) by (simp add: bit_clear_idx)
  moreover have "{i. bit (clear_idx x b) i} \<subseteq> {i. bit b i}" by (auto simp: bit_clear_idx)
  ultimately have "{i. bit (clear_idx x b) i} \<subset> {i. bit b i}" by blast
  then show "((clear_idx x b, d(slot x := True)), (b, d)) \<in> measure (\<lambda>(b, d). popcount b)"
    by (simp add: popcount_eq psubset_card_mono)
qed simp

declare Notify.simps [simp del]

text \<open>For a bitmap of 32 bits the flags of exactly the cores in it are set.\<close>

lemma Notify_sets:
  assumes "\<forall>n\<ge>32. \<not> bit b n"
  shows "\<exists>d'. Notify b d = Inr d' \<and> (\<forall>k. d' k \<longleftrightarrow> d k \<or> (\<exists>c. bit b c \<and> k = slot c))"
  using assms
proof (induction b d rule: Notify.induct)
  case (1 b d)
  show ?case
  proof (cases "b = 0")
    case True
    then show ?thesis by (simp add: Notify.simps)
  next
    case False
    let ?i = "ctz b"
    have i: "bit b ?i" "?i < 32" using ctz_bit [OF False] "1.prems" not_less by blast+
    have cl: "bit (clear_idx ?i b) n \<longleftrightarrow> bit b n \<and> n \<noteq> ?i" for n
    proof (cases "n < 32")
      case True
      then show ?thesis using i by (auto simp: bit_clear_idx min_def)
    next
      case False
      then show ?thesis using "1.prems" by (simp add: bit_clear_idx)
    qed
    have "\<forall>n\<ge>32. \<not> bit (clear_idx ?i b) n" using "1.prems" cl by simp
    then obtain d' where d': "Notify (clear_idx ?i b) (d(slot ?i := True)) = Inr d'"
      "\<forall>k. d' k \<longleftrightarrow> (d(slot ?i := True)) k \<or> (\<exists>c. bit (clear_idx ?i b) c \<and> k = slot c)"
      using "1.IH" [OF False refl] i(2) by (metis not_less)
    have "Notify b d = Inr d'" using d'(1) False i(2) by (simp add: Notify.simps [of b] Let_def)
    moreover have "d' k \<longleftrightarrow> d k \<or> (\<exists>c. bit b c \<and> k = slot c)" for k using d'(2) cl i(1) by auto
    ultimately show ?thesis by blast
  qed
qed

section \<open>Pending values\<close>

lemma IsPendingVal_bits: "IsPendingVal v \<longleftrightarrow> (\<forall>n. 32 \<le> n \<longrightarrow> bit v n = bit kPendingValue n)"
proof -
  have "drop_bit 32 v = drop_bit 32 w \<longleftrightarrow> (\<forall>n. bit v (32 + n) = bit w (32 + n))" for w :: u64
  proof
    assume "drop_bit 32 v = drop_bit 32 w"
    then have "bit (drop_bit 32 v) n = bit (drop_bit 32 w) n" for n by simp
    then show "\<forall>n. bit v (32 + n) = bit w (32 + n)" by (simp add: bit_drop_bit_eq)
  qed (simp add: bit_eq_iff bit_drop_bit_eq)
  moreover have "(\<forall>n. bit v (32 + n) = bit w (32 + n)) \<longleftrightarrow> (\<forall>n. 32 \<le> n \<longrightarrow> bit v n = bit w n)" for w :: u64
    by (metis le_add1 le_add_diff_inverse)
  ultimately show ?thesis by (simp add: IsPendingVal_def)
qed

text \<open>The value that a waiting core installs.\<close>

definition wait_val :: "nat \<Rightarrow> u64 \<Rightarrow> u64" where
  "wait_val core val = val AND NOT (push_bit core 1)"

lemma bit_wait_val: "bit (wait_val core v) n \<longleftrightarrow> n \<noteq> core \<and> bit v n"
  unfolding wait_val_def bit_and_not_push_one ..

lemma wait_val_pending: "core < 32 \<Longrightarrow> IsPendingVal (wait_val core v) = IsPendingVal v"
  by (auto simp: IsPendingVal_bits bit_wait_val)

text \<open>The cores that are told, from the pending value that was replaced.\<close>

definition waiting_cores :: "u64 \<Rightarrow> u64" where
  "waiting_cores oldval = (let mask = push_bit 32 1 - 1 in mask - (oldval AND mask))"

lemma bit_waiting_cores: "bit (waiting_cores v) n \<longleftrightarrow> n < 32 \<and> \<not> bit v n"
proof -
  have m: "push_bit 32 1 - 1 = (mask 32 :: u64)" by (simp only: mask_eq_exp_minus_1 push_bit_of_1)
  have "waiting_cores v = take_bit 32 (NOT v)"
    unfolding waiting_cores_def m Let_def take_bit_eq_mask [symmetric] take_bit_not_eq_mask_diff ..
  then show ?thesis by (auto simp: bit_take_bit_iff bit_not_iff)
qed

section \<open>The protocol\<close>

datatype wait_pc = WStart | WTry u64 | WSpin | WLoad | WRet

datatype offer_pc = OStart | OTry u64 | ONotify u64 | OEnd

record sync =
  word :: u64
  done_slot :: "nat \<Rightarrow> bool"
  wpc :: "nat \<Rightarrow> wait_pc"
  opc :: offer_pc

definition look :: "u64 \<Rightarrow> wait_pc" where
  "look v = (if IsPendingVal v then WTry v else WRet)"

text \<open>
  One step of \<open>WaitForData\<close> on core \<open>c\<close>: read the value; try to register; spin until the
  flag is set and clear it; read the value again.
\<close>

definition WaitForData_step :: "nat \<Rightarrow> sync \<Rightarrow> sync option" where
  "WaitForData_step c s =
     (case wpc s c of
        WStart \<Rightarrow> Some (s\<lparr>wpc := (wpc s)(c := look (word s))\<rparr>)
      | WTry v \<Rightarrow>
          if word s = v then Some (s\<lparr>word := wait_val c v, wpc := (wpc s)(c := WSpin)\<rparr>)
          else Some (s\<lparr>wpc := (wpc s)(c := look (word s))\<rparr>)
      | WSpin \<Rightarrow>
          if done_slot s (slot c)
          then Some (s\<lparr>done_slot := (done_slot s)(slot c := False), wpc := (wpc s)(c := WLoad)\<rparr>)
          else None
      | WLoad \<Rightarrow> Some (s\<lparr>wpc := (wpc s)(c := look (word s))\<rparr>)
      | WRet \<Rightarrow> None)"

text \<open>\<open>Spin\<close> also returns, without the flag, when the coroutine was preempted and resumed.\<close>

definition Preempt_step :: "nat \<Rightarrow> sync \<Rightarrow> sync option" where
  "Preempt_step c s = (if wpc s c = WSpin then Some (s\<lparr>wpc := (wpc s)(c := WLoad)\<rparr>) else None)"

definition OfferData_step :: "u64 \<Rightarrow> sync \<Rightarrow> sync option" where
  "OfferData_step dat s =
     (case opc s of
        OStart \<Rightarrow> Some (s\<lparr>opc := OTry (word s)\<rparr>)
      | OTry oldval \<Rightarrow>
          if word s = oldval then Some (s\<lparr>word := dat, opc := ONotify (waiting_cores oldval)\<rparr>)
          else Some (s\<lparr>opc := OTry (word s)\<rparr>)
      | ONotify bmap \<Rightarrow>
          if bmap = 0 then Some (s\<lparr>opc := OEnd\<rparr>)
          else let idx = ctz bmap in
               Some (s\<lparr>done_slot := (done_slot s)(slot idx := True), opc := ONotify (clear_idx idx bmap)\<rparr>)
      | OEnd \<Rightarrow> None)"

text \<open>A flag may also be set by the writer of another version.\<close>

inductive sync_step :: "u64 \<Rightarrow> sync \<Rightarrow> sync \<Rightarrow> bool" for dat where
  wait: "c < 32 \<Longrightarrow> WaitForData_step c s = Some s' \<Longrightarrow> sync_step dat s s'"
| preempt: "c < 32 \<Longrightarrow> Preempt_step c s = Some s' \<Longrightarrow> sync_step dat s s'"
| offer: "OfferData_step dat s = Some s' \<Longrightarrow> sync_step dat s s'"
| other: "sync_step dat s (s\<lparr>done_slot := (done_slot s)(k := True)\<rparr>)"

inductive sync_reach :: "u64 \<Rightarrow> sync \<Rightarrow> bool" for dat where
  init: "sync_reach dat \<lparr>word = kPendingValue, done_slot = d, wpc = (\<lambda>c. WStart), opc = OStart\<rparr>"
| step: "sync_reach dat s \<Longrightarrow> sync_step dat s s' \<Longrightarrow> sync_reach dat s'"

definition installed :: "sync \<Rightarrow> bool" where
  "installed s \<longleftrightarrow> (\<exists>b. opc s = ONotify b) \<or> opc s = OEnd"

definition told :: "sync \<Rightarrow> u64" where
  "told s = (case opc s of ONotify b \<Rightarrow> b | _ \<Rightarrow> 0)"

text \<open>
  Before the object is installed the value is pending and records every spinning core;
  afterwards every spinning core has its flag set or is still going to be told.
\<close>

definition sync_inv :: "u64 \<Rightarrow> sync \<Rightarrow> bool" where
  "sync_inv dat s \<longleftrightarrow>
     (if installed s
      then word s = dat \<and> (\<forall>n\<ge>32. \<not> bit (told s) n)
        \<and> (\<forall>c<32. wpc s c = WSpin \<longrightarrow> done_slot s (slot c) \<or> bit (told s) c)
      else IsPendingVal (word s) \<and> (\<forall>c<32. wpc s c = WSpin \<longrightarrow> \<not> bit (word s) c))
     \<and> (\<forall>c v. wpc s c = WTry v \<longrightarrow> IsPendingVal v)
     \<and> (\<forall>c. wpc s c = WRet \<longrightarrow> installed s)"

lemma wait_inv:
  assumes inv: "sync_inv dat s" and dat: "\<not> IsPendingVal dat" and c: "c < 32" and st: "WaitForData_step c s = Some s'"
  shows "sync_inv dat s'"
proof (cases "wpc s c")
  case (WTry v)
  have pv: "IsPendingVal v" using inv WTry by (simp add: sync_inv_def)
  show ?thesis
  proof (cases "word s = v")
    case True
    then have s': "s' = s\<lparr>word := wait_val c v, wpc := (wpc s)(c := WSpin)\<rparr>" using st WTry by (simp add: WaitForData_step_def)
    have ni: "\<not> installed s" using inv True pv dat by (auto simp: sync_inv_def)
    then have "\<not> installed s'" by (simp add: s' installed_def)
    then show ?thesis using inv ni True pv c by (simp add: s' sync_inv_def wait_val_pending bit_wait_val)
  next
    case False
    then have s': "s' = s\<lparr>wpc := (wpc s)(c := look (word s))\<rparr>" using st WTry by (simp add: WaitForData_step_def)
    have "installed s' = installed s" "told s' = told s" by (simp_all add: s' installed_def told_def)
    then show ?thesis using inv dat unfolding sync_inv_def s' look_def by (auto split: if_splits)
  qed
next
  case WSpin
  then have d: "done_slot s (slot c)" and s': "s' = s\<lparr>done_slot := (done_slot s)(slot c := False), wpc := (wpc s)(c := WLoad)\<rparr>"
    using st by (auto simp: WaitForData_step_def split: if_splits)
  have "installed s' = installed s" "told s' = told s" by (simp_all add: s' installed_def told_def)
  then show ?thesis using inv unfolding sync_inv_def s' by (auto split: if_splits dest: slot_inj)
next
  case WStart
  then have s': "s' = s\<lparr>wpc := (wpc s)(c := look (word s))\<rparr>" using st by (simp add: WaitForData_step_def)
  have "installed s' = installed s" "told s' = told s" by (simp_all add: s' installed_def told_def)
  then show ?thesis using inv dat unfolding sync_inv_def s' look_def by (auto split: if_splits)
next
  case WLoad
  then have s': "s' = s\<lparr>wpc := (wpc s)(c := look (word s))\<rparr>" using st by (simp add: WaitForData_step_def)
  have "installed s' = installed s" "told s' = told s" by (simp_all add: s' installed_def told_def)
  then show ?thesis using inv dat unfolding sync_inv_def s' look_def by (auto split: if_splits)
qed (use st in \<open>simp add: WaitForData_step_def\<close>)

lemma offer_inv:
  assumes inv: "sync_inv dat s" and dat: "\<not> IsPendingVal dat" and st: "OfferData_step dat s = Some s'"
  shows "sync_inv dat s'"
proof (cases "opc s")
  case OStart
  then have s': "s' = s\<lparr>opc := OTry (word s)\<rparr>" using st by (simp add: OfferData_step_def)
  have "\<not> installed s" "\<not> installed s'" using OStart by (simp_all add: s' installed_def)
  then show ?thesis using inv unfolding sync_inv_def by (simp add: s')
next
  case (OTry v)
  have ni: "\<not> installed s" using OTry by (simp add: installed_def)
  show ?thesis
  proof (cases "word s = v")
    case True
    then have s': "s' = s\<lparr>word := dat, opc := ONotify (waiting_cores v)\<rparr>" using st OTry by (simp add: OfferData_step_def)
    have "installed s'" "told s' = waiting_cores v" by (simp_all add: s' installed_def told_def)
    moreover have "\<forall>c<32. wpc s c = WSpin \<longrightarrow> \<not> bit v c" using inv ni True by (simp add: sync_inv_def)
    ultimately show ?thesis using inv ni unfolding sync_inv_def by (simp add: s' bit_waiting_cores)
  next
    case False
    then have s': "s' = s\<lparr>opc := OTry (word s)\<rparr>" using st OTry by (simp add: OfferData_step_def)
    have "\<not> installed s'" by (simp add: s' installed_def)
    then show ?thesis using inv ni unfolding sync_inv_def by (simp add: s')
  qed
next
  case (ONotify b)
  have i: "installed s" "told s = b" using ONotify by (simp_all add: installed_def told_def)
  have b: "\<forall>n\<ge>32. \<not> bit b n" "\<forall>c<32. wpc s c = WSpin \<longrightarrow> done_slot s (slot c) \<or> bit b c"
    using inv i by (simp_all add: sync_inv_def)
  show ?thesis
  proof (cases "b = 0")
    case True
    then have s': "s' = s\<lparr>opc := OEnd\<rparr>" using st ONotify by (simp add: OfferData_step_def)
    have "installed s'" "told s' = 0" by (simp_all add: s' installed_def told_def)
    then show ?thesis using inv i True unfolding sync_inv_def by (simp add: s')
  next
    case False
    let ?i = "ctz b"
    have s': "s' = s\<lparr>done_slot := (done_slot s)(slot ?i := True), opc := ONotify (clear_idx ?i b)\<rparr>"
      using st ONotify False by (simp add: OfferData_step_def Let_def)
    have i': "installed s'" "told s' = clear_idx ?i b" by (simp_all add: s' installed_def told_def)
    have "bit (clear_idx ?i b) c" if "c < 32" "bit b c" "c \<noteq> ?i" for c
      using that by (auto simp: bit_clear_idx min_def)
    then have "\<forall>c<32. wpc s c = WSpin \<longrightarrow> done_slot s' (slot c) \<or> bit (clear_idx ?i b) c" using b(2) by (auto simp: s')
    moreover have "\<forall>n\<ge>32. \<not> bit (clear_idx ?i b) n" using b(1) by (simp add: bit_clear_idx)
    ultimately show ?thesis using inv i i' unfolding sync_inv_def by (simp add: s')
  qed
qed (use st in \<open>simp add: OfferData_step_def\<close>)

lemma sync_reach_inv:
  assumes "sync_reach dat s" "\<not> IsPendingVal dat"
  shows "sync_inv dat s"
  using assms(1)
proof induction
  case (init d)
  show ?case by (simp add: sync_inv_def installed_def IsPendingVal_def)
next
  case (step s s')
  from step.hyps(2) show ?case
  proof cases
    case (preempt c)
    then have s': "s' = s\<lparr>wpc := (wpc s)(c := WLoad)\<rparr>" by (auto simp: Preempt_step_def split: if_splits)
    have "installed s' = installed s" "told s' = told s" by (simp_all add: s' installed_def told_def)
    then show ?thesis using step.IH unfolding sync_inv_def s' by (auto split: if_splits)
  next
    case (other k)
    have "installed s' = installed s" "told s' = told s" by (simp_all add: other installed_def told_def)
    then show ?thesis using step.IH unfolding sync_inv_def other by (auto split: if_splits)
  qed (use step.IH assms(2) wait_inv offer_inv in blast)+
qed

text \<open>A reader that returns finds the object in place.\<close>

lemma WaitForData_sees_data:
  assumes "sync_reach dat s" "\<not> IsPendingVal dat" "wpc s c = WRet"
  shows "word s = dat"
  using sync_reach_inv [OF assms(1,2)] assms(3) unfolding sync_inv_def by (auto split: if_splits)

text \<open>
  No wake-up is lost: once the writer is through, a reader is out of \<open>WaitForData\<close> after
  two more steps of its own.
\<close>

definition wait_run :: "nat \<Rightarrow> nat \<Rightarrow> sync \<Rightarrow> sync" where
  "wait_run n c s = ((\<lambda>s. case WaitForData_step c s of Some s' \<Rightarrow> s' | None \<Rightarrow> s) ^^ n) s"

lemma WaitForData_wakes:
  assumes "sync_reach dat s" "\<not> IsPendingVal dat" "opc s = OEnd" "c < 32"
  shows "wpc (wait_run 2 c s) c = WRet"
proof -
  have inst: "installed s" "told s = 0" using assms(3) by (simp_all add: installed_def told_def)
  have inv: "word s = dat" "wpc s c = WSpin \<longrightarrow> done_slot s (slot c)" "\<forall>v. wpc s c = WTry v \<longrightarrow> IsPendingVal v"
    using sync_reach_inv [OF assms(1,2)] inst assms(4) by (simp_all add: sync_inv_def)
  have l: "look dat = WRet" using assms(2) by (simp add: look_def)
  show ?thesis
  proof (cases "wpc s c")
    case (WTry v)
    then have "word s \<noteq> v" using inv assms(2) by auto
    then show ?thesis using WTry inv(1) l by (simp add: wait_run_def WaitForData_step_def numeral_2_eq_2)
  qed (use inv l in \<open>simp_all add: wait_run_def WaitForData_step_def numeral_2_eq_2\<close>)
qed

text \<open>
  Cores from 32 on are not served: registering them either destroys the pending value or
  leaves it unchanged, and the writer never tells them.
\<close>

lemma WaitForData_core_limit:
  assumes "32 \<le> c" "c < 64" "IsPendingVal v"
  shows "\<not> bit (waiting_cores w) c \<and> (if bit kPendingValue c then \<not> IsPendingVal (wait_val c v) else wait_val c v = v)"
proof -
  have "bit v c = bit kPendingValue c" using assms by (simp add: IsPendingVal_bits)
  moreover have "wait_val c v = v" if "\<not> bit v c" using that by (intro bit_eqI) (auto simp: bit_wait_val)
  moreover have "\<not> IsPendingVal (wait_val c v)" if "bit kPendingValue c"
    using that assms(1) by (auto simp: IsPendingVal_bits bit_wait_val)
  ultimately show ?thesis using assms(1) by (auto simp: bit_waiting_cores)
qed

section \<open>SimpleSync\<close>

text \<open>
  \<open>SimpleSync\<close> reads the value until it is not pending. The list holds the values that the
  successive reads return; the result is the number of iterations, added to the wait
  counter, or \<open>None\<close> when the value stays pending.
\<close>

fun SimpleSync_wait :: "u64 list \<Rightarrow> int \<Rightarrow> int option" where
  "SimpleSync_wait [] wait_cnt = None"
| "SimpleSync_wait (v # vs) wait_cnt =
     (if v = kPendingValue then SimpleSync_wait vs (wait_cnt + 1) else Some wait_cnt)"

definition SimpleSync_WaitForData :: "nat \<Rightarrow> u64 list \<Rightarrow> int list \<Rightarrow> int list option" where
  "SimpleSync_WaitForData core vs buf = map_option (\<lambda>w. AddWaitCount core w buf) (SimpleSync_wait vs 2)"

lemma SimpleSync_wait_iff:
  "SimpleSync_wait vs w = Some n \<longleftrightarrow>
   (\<exists>k<length vs. vs ! k \<noteq> kPendingValue \<and> (\<forall>i<k. vs ! i = kPendingValue) \<and> n = w + int k)"
proof (induction vs arbitrary: w)
  case (Cons v vs)
  show ?case
  proof (cases "v = kPendingValue")
    case True
    then show ?thesis
      unfolding SimpleSync_wait.simps(2) using Cons [of "w + 1"] by (auto simp: Ex_less_Suc2 All_less_Suc2)
  next
    case False
    then show ?thesis by (auto simp: Ex_less_Suc2 All_less_Suc2)
  qed
qed simp

end
