(* ===== verification/Autotune.thy ===== *)
theory Autotune
  imports Felis_Prelude
begin

text \<open>
  The controller of the splitting threshold, \<open>ThresholdAutoTuneController\<close> of
  \<^verbatim>\<open>src/threshold_autotune.h\<close>. It remembers the best threshold so far with the number of
  split pieces and the execution time it gave, and decides after every epoch whether to
  double, keep or halve the threshold.
\<close>

record autotune =
  thre :: int
  nr_splitted :: u64
  exec_time :: u64

definition ThresholdAutoTuneController :: autotune where
  "ThresholdAutoTuneController = \<lparr>thre = 0, nr_splitted = 2 ^ 32 - 1, exec_time = 2 ^ 32 - 1\<rparr>"

text \<open>The product wraps at 64 bits.\<close>

definition FuzzyCompare :: "u64 \<Rightarrow> u64 \<Rightarrow> int" where
  "FuzzyCompare x y =
     (if y = 0 then (if x > 0 then 1 else 0)
      else let r = 128 * x div y in
           if r < 120 then -1 else if r < 136 then 0 else 1)"

text \<open>Division of a \<open>long\<close> truncates.\<close>

definition half :: "int \<Rightarrow> int" where
  "half x = (if x \<ge> 0 then x div 2 else - ((- x) div 2))"

definition GetNextThreshold :: "autotune \<Rightarrow> int \<Rightarrow> u64 \<Rightarrow> u64 \<Rightarrow> autotune \<times> int" where
  "GetNextThreshold a current_thre current_nr_splitted current_exec_time =
     (let spl_cmp = FuzzyCompare (nr_splitted a) current_nr_splitted in
      if spl_cmp = 1 then
        if FuzzyCompare (exec_time a) current_exec_time \<noteq> -1 then
          (\<lparr>thre = current_thre, nr_splitted = current_nr_splitted, exec_time = current_exec_time\<rparr>,
           min (current_thre * 2) (2 ^ 31 - 1))
        else if thre a \<noteq> current_thre then (a, thre a)
        else (a, half (thre a))
      else if spl_cmp = -1 then (a, thre a)
      else (a, current_thre * 2))"

text \<open>
  Below \<open>2 ^ 57\<close> the comparison is that of the exact quotient: about six percent of
  difference count as equal.
\<close>

lemma FuzzyCompare_exact:
  assumes "unat x < 2 ^ 57" "y \<noteq> 0"
  shows "FuzzyCompare x y = -1 \<longleftrightarrow> 128 * unat x < 120 * unat y"
    "FuzzyCompare x y = 1 \<longleftrightarrow> 136 * unat y \<le> 128 * unat x"
proof -
  let ?r = "128 * x div y"
  have "unat (128 * x) = 128 * unat x" using assms(1) by (simp add: unat_word_ariths(2))
  then have r: "unat ?r = 128 * unat x div unat y" by (simp add: unat_div)
  have y: "0 < unat y" using assms(2) by (simp add: unat_gt_0)
  have lt: "?r < 120 \<longleftrightarrow> 128 * unat x < 120 * unat y" "?r < 136 \<longleftrightarrow> 128 * unat x < 136 * unat y"
    unfolding word_less_nat_alt r using y by (simp_all add: div_less_iff_less_mult)
  show "FuzzyCompare x y = -1 \<longleftrightarrow> 128 * unat x < 120 * unat y"
    using assms(2) lt(1) by (simp add: FuzzyCompare_def Let_def)
  show "FuzzyCompare x y = 1 \<longleftrightarrow> 136 * unat y \<le> 128 * unat x"
    using assms(2) lt by (auto simp: FuzzyCompare_def Let_def not_less)
qed

text \<open>
  The remembered threshold only changes to the current one, and only when it reduced the
  number of splits without a longer execution time.
\<close>

lemma GetNextThreshold_best:
  assumes "GetNextThreshold a cur sp ex = (a', nxt)"
  shows "a' = a \<or> (a' = \<lparr>thre = cur, nr_splitted = sp, exec_time = ex\<rparr>
    \<and> FuzzyCompare (nr_splitted a) sp = 1 \<and> FuzzyCompare (exec_time a) ex \<noteq> -1)"
  using assms by (auto simp: GetNextThreshold_def Let_def split: if_splits)

text \<open>Only the branch that found a better threshold keeps the next one within an \<open>int\<close>.\<close>

lemma GetNextThreshold_bound:
  assumes "GetNextThreshold a cur sp ex = (a', nxt)" "0 \<le> cur" "0 \<le> thre a" "thre a \<le> 2 ^ 31 - 1"
  shows "0 \<le> nxt \<and> (nxt \<le> 2 ^ 31 - 1 \<or> (nxt = 2 * cur \<and> FuzzyCompare (nr_splitted a) sp = 0))"
proof -
  have "half (thre a) \<le> thre a" "0 \<le> half (thre a)" using assms(3) by (simp_all add: half_def)
  moreover have "FuzzyCompare (nr_splitted a) sp \<in> {-1, 0, 1}" by (simp add: FuzzyCompare_def Let_def)
  ultimately show ?thesis using assms by (auto simp: GetNextThreshold_def Let_def split: if_splits)
qed

lemma GetNextThreshold_unbounded:
  "snd (GetNextThreshold \<lparr>thre = 1, nr_splitted = 100, exec_time = 5\<rparr> (2 ^ 31 - 1) 100 5) = 2 ^ 32 - 2"
  by (simp add: GetNextThreshold_def FuzzyCompare_def)

end
