(* ===== verification/Sync_Properties.thy ===== *)
theory Sync_Properties
  imports Row_Properties Contention_Reset Locality Locks Vhandle_Sync Autotune
begin

text \<open>
  Properties of what cores share while they work on rows: the contention manager and its
  packing, the locality plans, the locks, and waiting for data. Each property has a
  concrete state that meets its hypotheses.
\<close>

section \<open>Contention management\<close>

text \<open>
  C10. Announcing a version through the buffer of a contended row has the effect of announcing it on
  the row itself, whether it is buffered or the full buffer is flushed into the row.
\<close>

theorem buffered_append_refines:
  assumes "vh_init e h" "buf_ok p pos" "vsize h + 1 + kMaxBatch \<le> 2 ^ 29" "alloc_ok env"
    and "\<forall>b\<in>set (sid # buffered p pos). epoch_of b = e \<and> b \<notin> set (ver h)" "distinct (sid # buffered p pos)"
    and "buffer_Append env tlk pos sid e od p (g, h) = Inr (p', g', h')"
  shows "vh_init e h' \<and> with_buffer e p' pos h' = put (with_buffer e p pos h) sid kPendingValue \<and> buf_ok p' pos"
  using buffer_Append_refines [OF assms] .

definition ex_pre :: version_prealloc where
  "ex_pre = \<lparr>pre_bitmap = [0], version_buffers = [\<lparr>buf_cnt = 0, ondsplt_cnt = 0, buf_versions = replicate kMaxBatch 0\<rparr>]\<rparr>"

theorem buffered_append_refines_witness:
  "\<exists>p' g' h'. buffer_Append ex_env False 0 0x200000003 2 False ex_pre (ex_gc, New 0x10000 0 (replicate 8 0)) = Inr (p', g', h')
    \<and> vh_init 2 h' \<and> with_buffer 2 p' 0 h' = put (with_buffer 2 ex_pre 0 (New 0x10000 0 (replicate 8 0))) 0x200000003 kPendingValue"
proof -
  let ?h = "New 0x10000 0 (replicate 8 0)"
  obtain p' g' h' where r: "buffer_Append ex_env False 0 0x200000003 2 False ex_pre (ex_gc, ?h) = Inr (p', g', h')"
    by (simp add: buffer_Append_def ex_pre_def Let_def kMaxBatch_def)
  have "vh_init 2 ?h" using New_init [of "replicate 8 0"] by simp
  moreover have "buf_ok ex_pre 0" "buffered ex_pre 0 = []" by (simp_all add: buf_ok_def ex_pre_def buffered_def)
  moreover have "vsize ?h + 1 + kMaxBatch \<le> 2 ^ 29" "ver ?h = []" by (simp_all add: New_def SortedArrayVHandle_def ver_def kMaxBatch_def)
  ultimately show ?thesis using buffered_append_refines [OF _ _ _ ex_env_ok(2) _ _ r] r by (simp add: epoch_of_div)
qed


definition ex_cm :: contention_manager where
  "ex_cm = \<lparr>preallocs = [], buffer_heads = [[\<lparr>base_pos = 0, head_pos = 0, owner_core = 0, backrefs = replicate kMaxPos 0\<rparr>]],
     g_alloc = [\<lparr>zone_base = 0, zone_pos = kMaxPos, heads_left = 1\<rparr>], est_split = 0\<rparr>"


text \<open>
  C12. The knapsack of \<open>BinPack\<close> fills a core as far as any selection of rows can without reaching
  the limit.
\<close>

theorem binpack_optimal:
  assumes "0 < limit"
  shows "(case pack_select ks limit of (c, bs) \<Rightarrow> length bs = length ks \<and> load ks bs = c \<and> c < limit
    \<and> (\<forall>bs'. length bs' = length ks \<and> load ks bs' < limit \<longrightarrow> load ks bs' \<le> c))"
  using pack_select_optimal [OF assms, of ks] by (cases "pack_select ks limit") simp

theorem binpack_optimal_witness:
  "fst (pack_select [Some 3, Some 5] 8) = 5"
proof -
  obtain c bs where r: "pack_select [Some 3, Some 5] 8 = (c, bs)" by (cases "pack_select [Some 3, Some 5] 8")
  have b: "length bs = 2" "load [Some 3, Some 5] bs = c" "c < 8"
    "\<And>bs'. length bs' = 2 \<Longrightarrow> load [Some 3, Some 5] bs' < 8 \<Longrightarrow> load [Some 3, Some 5] bs' \<le> c"
    using binpack_optimal [where limit = 8 and ks = "[Some 3, Some 5]"] r by simp_all
  obtain x y where "bs = [x, y]" using b(1) by (auto simp: length_Suc_conv numeral_2_eq_2)
  then show ?thesis using b(2,3) b(4) [of "[False, True]"] r by (cases x; cases y) simp_all
qed



section \<open>Locality\<close>

text \<open>
  C14. Balancing gives every core the average of the planned load, for up to 64 cores, and every core a
  distribution from which each draw is a core.
\<close>

theorem balance_is_even:
  assumes "lm_shape n lm" "0 < n" "n \<le> 64" "0 \<le> (\<Sum>i<n. planned lm i)" "(\<Sum>i<n. planned lm i) < 2 ^ 63"
  shows "\<exists>lm'. Balance lm = Inr lm' \<and> length lm' = n \<and> (\<forall>i<n. wload (lm' ! i) = (\<Sum>i<n. planned lm i) div int n
    \<and> (\<forall>rnd. \<exists>c<n. GetScheduleCore lm' i rnd = Inr c))"
proof -
  obtain lm' where l: "Balance lm = Inr lm'" "length lm' = n" "\<forall>i<n. wload (lm' ! i) = (\<Sum>i<n. planned lm i) div int n \<and> dist_ok n (lm' ! i)"
    using Balance_even [OF assms] by blast
  then show ?thesis using GetScheduleCore_total by blast
qed

definition ex_plan :: "weight_dist list" where
  "ex_plan = [\<lparr>weight = 0, dist = [], dcores = [], wload = 0, weights_per_core = [6, 0]\<rparr>,
    \<lparr>weight = 0, dist = [], dcores = [], wload = 0, weights_per_core = [2, 0]\<rparr>]"

theorem balance_is_even_witness:
  "\<exists>lm'. Balance ex_plan = Inr lm' \<and> wload (lm' ! 0) = 4 \<and> wload (lm' ! 1) = 4"
proof -
  have "lm_shape 2 ex_plan" by (simp add: lm_shape_def ex_plan_def less_2_cases_iff)
  moreover have "(\<Sum>i<2. planned ex_plan i) = 8" by (simp add: planned_def ex_plan_def numeral_2_eq_2)
  ultimately show ?thesis using balance_is_even [where n = 2 and lm = ex_plan] by auto
qed

section \<open>Locks\<close>

text \<open>C15. At most one thread is in the critical section of an MCS lock, in every interleaving.\<close>

theorem mcs_exclusion:
  assumes "mcs_reach s" "pc s t = Critical" "pc s u = Critical"
  shows "t = u"
  using mcs_mutex [OF assms] .

lemma ex_mcs: "mcs_reach (snd (TryLock 3 MCSSpinLock))" "pc (snd (TryLock 3 MCSSpinLock)) 3 = Critical"
proof -
  show "mcs_reach (snd (TryLock 3 MCSSpinLock))"
    by (rule mcs_reach.step [OF mcs_reach.init], rule mcs_step.try_lock) (simp add: MCSSpinLock_def)
  show "pc (snd (TryLock 3 MCSSpinLock)) 3 = Critical" by (simp add: TryLock_def MCSSpinLock_def compare_exchange_def)
qed

theorem mcs_exclusion_witness:
  "{u. pc (snd (TryLock 3 MCSSpinLock)) u = Critical} = {3}"
  using mcs_exclusion [OF ex_mcs(1) _ ex_mcs(2)] ex_mcs(2) by blast

text \<open>
  C16. The MCS lock does not get stuck: in every reachable state in which some thread is at the lock,
  some thread at the lock can take a step.
\<close>

theorem mcs_not_stuck:
  assumes "mcs_reach s" "pc s t \<noteq> Idle"
  shows "\<exists>u s'. pc s u \<noteq> Idle \<and> (Lock_step u s = Some s' \<or> Unlock_step u s = Some s')"
  using mcs_progress [OF assms] .

theorem mcs_not_stuck_witness:
  "\<exists>u s'. pc (snd (TryLock 3 MCSSpinLock)) u \<noteq> Idle
    \<and> (Lock_step u (snd (TryLock 3 MCSSpinLock)) = Some s' \<or> Unlock_step u (snd (TryLock 3 MCSSpinLock)) = Some s')"
  using mcs_not_stuck [OF ex_mcs(1), of 3] ex_mcs(2) by simp

section \<open>Waiting for data\<close>

text \<open>
  C17. No wake-up is lost: once the writer of a version is through, a reader on any of the first 32 cores
  leaves \<open>WaitForData\<close> within two steps of its own, and a reader that left has the written object.
\<close>

theorem wait_for_data:
  assumes "sync_reach dat s" "\<not> IsPendingVal dat" "c < 32"
  shows "(opc s = OEnd \<longrightarrow> wpc (wait_run 2 c s) c = WRet) \<and> (wpc s c = WRet \<longrightarrow> word s = dat)"
  using WaitForData_wakes [OF assms(1,2) _ assms(3)] WaitForData_sees_data [OF assms(1,2)] by blast

theorem wait_for_data_witness:
  "wpc (wait_run 2 5 \<lparr>word = 0x6000, done_slot = (\<lambda>_. False), wpc = (\<lambda>c. WStart), opc = OEnd\<rparr>) 5 = WRet"
proof -
  let ?s = "\<lambda>w p. \<lparr>word = w, done_slot = (\<lambda>_. False), wpc = (\<lambda>c. WStart), opc = p\<rparr>"
  have pend: "waiting_cores kPendingValue = 0" "\<not> IsPendingVal 0x6000"
    by (simp_all add: waiting_cores_def kPendingValue_def IsPendingVal_def)
  have "sync_reach 0x6000 (?s kPendingValue OStart)" by (rule sync_reach.init)
  then have "sync_reach 0x6000 (?s kPendingValue (OTry kPendingValue))"
    by (rule sync_reach.step) (rule sync_step.offer, simp add: OfferData_step_def)
  then have "sync_reach 0x6000 (?s 0x6000 (ONotify 0))"
    by (rule sync_reach.step) (rule sync_step.offer, simp add: OfferData_step_def pend)
  then have "sync_reach 0x6000 (?s 0x6000 OEnd)"
    by (rule sync_reach.step) (rule sync_step.offer, simp add: OfferData_step_def)
  then show ?thesis using wait_for_data [where c = 5, OF _ pend(2)] by simp
qed



end
