(* ===== verification/Mem_Pool.thy ===== *)
theory Mem_Pool
  imports Lower_Bound
begin

text \<open>
  The basic allocators of \<^verbatim>\<open>src/mem.cc\<close> and \<^verbatim>\<open>src/mem.h\<close>: \<open>WeakPool\<close>, a free list
  that is threaded through the free chunks themselves, \<open>BasicPool\<close>, which checks the
  pointers it sees, and \<open>Brk\<close>, a bump allocator. The memory is a map from addresses to
  words. Addresses are natural numbers; 0 is the null pointer.
\<close>

section \<open>WeakPool\<close>

type_synonym cells = "nat \<Rightarrow> nat"

record weak_pool =
  pdata :: nat
  plen :: nat
  phead :: nat
  pcapacity :: nat
  used :: int
  watermark :: int

text \<open>The loop of the constructor links every chunk to the one behind it.\<close>

definition link_chunk :: "nat \<Rightarrow> nat \<Rightarrow> nat \<Rightarrow> nat \<Rightarrow> cells \<Rightarrow> cells" where
  "link_chunk start chunk_size cap i m =
     (let p = start + i * chunk_size; nxt = (if i = cap - 1 then 0 else p + chunk_size)
      in m(p := nxt))"

definition WeakPool :: "nat \<Rightarrow> nat \<Rightarrow> nat \<Rightarrow> cells \<Rightarrow> weak_pool \<times> cells" where
  "WeakPool chunk_size cap start m =
     (\<lparr>pdata = start, plen = cap * chunk_size, phead = start, pcapacity = cap, used = 0, watermark = 0\<rparr>,
      fold (link_chunk start chunk_size cap) [0..<cap] m)"

definition WeakPool_Alloc :: "weak_pool \<Rightarrow> cells \<Rightarrow> weak_pool \<times> nat" where
  "WeakPool_Alloc p m =
     (let r = phead p in
      if r = 0 then (p, 0)
      else let u = used p + int (plen p div pcapacity p)
           in (p\<lparr>phead := m r, used := u, watermark := max u (watermark p)\<rparr>, r))"

definition WeakPool_Free :: "nat \<Rightarrow> weak_pool \<Rightarrow> cells \<Rightarrow> weak_pool \<times> cells" where
  "WeakPool_Free ptr p m =
     (p\<lparr>phead := ptr, used := used p - int (plen p div pcapacity p)\<rparr>, m(ptr := phead p))"

definition is_full :: "weak_pool \<Rightarrow> bool" where
  "is_full p \<longleftrightarrow> phead p = 0"

definition is_empty :: "weak_pool \<Rightarrow> bool" where
  "is_empty p \<longleftrightarrow> used p = 0"

section \<open>BasicPool\<close>

text \<open>\<open>CheckPointer\<close> returns -1 for a null pointer.\<close>

definition CheckPointer :: "weak_pool \<Rightarrow> nat \<Rightarrow> int res" where
  "CheckPointer p ptr =
     (if ptr = 0 then Inr (-1)
      else if ptr < pdata p \<or> ptr \<ge> pdata p + plen p then Inl (Abort ''out of bounds'')
      else let off = ptr - pdata p; maxnr = plen p div pcapacity p in
           if off mod maxnr \<noteq> 0 then Inl (Abort ''not aligned'') else Inr (int (off div maxnr)))"

definition BasicPool_Alloc :: "weak_pool \<Rightarrow> cells \<Rightarrow> (weak_pool \<times> nat) res" where
  "BasicPool_Alloc p m =
     (let (p', ptr) = WeakPool_Alloc p m in res_bind (CheckPointer p' ptr) (\<lambda>i. Inr (p', ptr)))"

definition BasicPool_Free :: "nat \<Rightarrow> weak_pool \<Rightarrow> cells \<Rightarrow> (weak_pool \<times> cells) res" where
  "BasicPool_Free ptr p m =
     res_bind (CheckPointer p ptr) (\<lambda>i. if ptr = 0 then Inl OutOfBounds else Inr (WeakPool_Free ptr p m))"

section \<open>The free list\<close>

fun free_list :: "cells \<Rightarrow> nat \<Rightarrow> nat list \<Rightarrow> bool" where
  "free_list m h [] \<longleftrightarrow> h = 0"
| "free_list m h (x # xs) \<longleftrightarrow> h = x \<and> x \<noteq> 0 \<and> free_list m (m x) xs"

lemma free_list_upd: "a \<notin> set xs \<Longrightarrow> free_list (m(a := v)) h xs = free_list m h xs"
  by (induction xs arbitrary: h) auto

lemma free_list_cong: "(\<And>x. x \<in> set xs \<Longrightarrow> m x = m' x) \<Longrightarrow> free_list m h xs = free_list m' h xs"
  by (induction xs arbitrary: h) auto

definition chunks :: "nat \<Rightarrow> nat \<Rightarrow> nat \<Rightarrow> nat list" where
  "chunks start chunk_size cap = map (\<lambda>i. start + i * chunk_size) [0..<cap]"

text \<open>
  The pool owns \<open>cap\<close> chunks of \<open>c\<close> bytes; the free ones are linked from the head, and
  the usage counts the others.
\<close>

definition pool_inv :: "nat \<Rightarrow> cells \<Rightarrow> weak_pool \<Rightarrow> nat list \<Rightarrow> bool" where
  "pool_inv c m p fl \<longleftrightarrow> 0 < c \<and> 0 < pcapacity p \<and> 0 < pdata p \<and> plen p = pcapacity p * c
     \<and> free_list m (phead p) fl \<and> distinct fl \<and> set fl \<subseteq> set (chunks (pdata p) c (pcapacity p))
     \<and> used p = int c * int (pcapacity p - length fl) \<and> used p \<le> watermark p"

lemma length_chunks [simp]: "length (chunks s c n) = n"
  by (simp add: chunks_def)

lemma distinct_chunks: "0 < c \<Longrightarrow> distinct (chunks s c n)"
  by (simp add: chunks_def distinct_map inj_on_def)

lemma chunk_size_eq: "pool_inv c m p fl \<Longrightarrow> plen p div pcapacity p = c"
  by (simp add: pool_inv_def)

lemma link_chunks:
  assumes "0 < c" "n \<le> cap"
  shows "fold (link_chunk s c cap) [0..<n] m a =
    (if \<exists>i<n. a = s + i * c then (if a = s + (cap - 1) * c then 0 else a + c) else m a)"
  using assms(2)
proof (induction n)
  case (Suc n)
  have eq: "s + n * c = s + (cap - 1) * c \<longleftrightarrow> n = cap - 1" using assms(1) by simp
  have "fold (link_chunk s c cap) [0..<Suc n] m =
    (fold (link_chunk s c cap) [0..<n] m)(s + n * c := if n = cap - 1 then 0 else s + n * c + c)"
    by (simp add: link_chunk_def Let_def)
  moreover have "(\<exists>i<Suc n. a = s + i * c) \<longleftrightarrow> a = s + n * c \<or> (\<exists>i<n. a = s + i * c)" by (auto simp: less_Suc_eq)
  moreover have "fold (link_chunk s c cap) [0..<n] m a =
    (if \<exists>i<n. a = s + i * c then (if a = s + (cap - 1) * c then 0 else a + c) else m a)"
    using Suc by simp
  ultimately show ?case using eq by (cases "a = s + n * c") (simp_all del: upt_Suc)
qed simp

lemma free_list_chunks:
  assumes "0 < c" "0 < s" "k \<le> cap"
    and "\<And>i. i < cap \<Longrightarrow> m (s + i * c) = (if i = cap - 1 then 0 else s + i * c + c)"
  shows "free_list m (if k = cap then 0 else s + k * c) (map (\<lambda>i. s + i * c) [k..<cap])"
  using assms(3)
proof (induction "cap - k" arbitrary: k)
  case (Suc x)
  then have k: "k < cap" by simp
  have "free_list m (if Suc k = cap then 0 else s + Suc k * c) (map (\<lambda>i. s + i * c) [Suc k..<cap])"
    using Suc.hyps(1) [of "Suc k"] Suc.hyps(2) k by simp
  moreover have "m (s + k * c) = (if Suc k = cap then 0 else s + Suc k * c)" using assms(4) [OF k] k by auto
  ultimately show ?case using k assms(2) by (simp add: upt_conv_Cons)
qed simp

text \<open>A new pool has all its chunks free.\<close>

lemma WeakPool_inv:
  assumes "0 < c" "0 < cap" "0 < s" "WeakPool c cap s m = (p, m')"
  shows "pool_inv c m' p (chunks s c cap)"
proof -
  have e: "p = \<lparr>pdata = s, plen = cap * c, phead = s, pcapacity = cap, used = 0, watermark = 0\<rparr>"
    "m' = fold (link_chunk s c cap) [0..<cap] m" using assms(4) by (auto simp: WeakPool_def)
  have "m' (s + i * c) = (if i = cap - 1 then 0 else s + i * c + c)" if "i < cap" for i
    using that assms(1) unfolding e(2) link_chunks [OF assms(1) order_refl] by auto
  from free_list_chunks [OF assms(1,3) _ this, of 0] have "free_list m' s (chunks s c cap)"
    using assms(2) by (simp add: chunks_def)
  then show ?thesis using assms(1-3) distinct_chunks [OF assms(1)] by (simp add: e(1) pool_inv_def)
qed

lemma chunk_check:
  assumes "0 < c" "ptr \<in> set (chunks (pdata p) c (pcapacity p))" "plen p = pcapacity p * c" "0 < ptr"
  shows "\<exists>i<pcapacity p. CheckPointer p ptr = Inr (int i) \<and> ptr = pdata p + i * c"
proof -
  obtain i where i: "i < pcapacity p" "ptr = pdata p + i * c" using assms(2) by (auto simp: chunks_def)
  have "i * c < pcapacity p * c" using i(1) assms(1) by simp
  moreover have "plen p div pcapacity p = c" using i(1) assms(3) by simp
  ultimately have "CheckPointer p ptr = Inr (int i)"
    using i assms by (simp add: CheckPointer_def Let_def)
  then show ?thesis using i by blast
qed

text \<open>
  \<open>Alloc\<close> hands out a free chunk, or a null pointer when there is none; it never fails the
  pointer check.
\<close>

lemma BasicPool_Alloc_inv:
  assumes inv: "pool_inv c m p fl"
  shows "\<exists>p' ptr. BasicPool_Alloc p m = Inr (p', ptr) \<and>
    (if fl = [] then ptr = 0 \<and> p' = p else fl = ptr # tl fl \<and> pool_inv c m p' (tl fl))"
proof (cases fl)
  case Nil
  then have "phead p = 0" using inv by (simp add: pool_inv_def)
  then show ?thesis using Nil by (simp add: BasicPool_Alloc_def WeakPool_Alloc_def CheckPointer_def)
next
  case (Cons x xs)
  have i: "phead p = x" "x \<noteq> 0" "free_list m (m x) xs" "distinct fl" "set fl \<subseteq> set (chunks (pdata p) c (pcapacity p))"
    "0 < c" "plen p = pcapacity p * c"
    using inv Cons by (auto simp: pool_inv_def)
  define u where "u = used p + int c"
  define p' where "p' = p\<lparr>phead := m x, used := u, watermark := max u (watermark p)\<rparr>"
  have wa: "WeakPool_Alloc p m = (p', x)"
    using i(1,2) chunk_size_eq [OF inv] by (simp add: WeakPool_Alloc_def Let_def p'_def u_def)
  have "x \<in> set (chunks (pdata p') c (pcapacity p'))" using i(5) Cons by (simp add: p'_def)
  then obtain j where "CheckPointer p' x = Inr (int j)" using chunk_check [of c x p'] i(2,6,7) by (auto simp: p'_def)
  then have "BasicPool_Alloc p m = Inr (p', x)" by (simp add: BasicPool_Alloc_def wa)
  moreover have "length fl \<le> pcapacity p"
    using card_mono [OF _ i(5)] distinct_card [OF i(4)] distinct_card [OF distinct_chunks [OF i(6)], of "pdata p" "pcapacity p"]
    by simp
  then have "u = int c * int (pcapacity p - length xs)"
    using inv Cons unfolding u_def pool_inv_def by (simp add: of_nat_diff algebra_simps)
  then have "pool_inv c m p' xs" using inv Cons by (auto simp: p'_def pool_inv_def)
  ultimately show ?thesis using Cons by simp
qed

text \<open>\<open>Free\<close> of a chunk in use puts it back in front of the free list.\<close>

lemma BasicPool_Free_inv:
  assumes inv: "pool_inv c m p fl" and ptr: "ptr \<in> set (chunks (pdata p) c (pcapacity p))" "ptr \<notin> set fl"
  shows "\<exists>p' m'. BasicPool_Free ptr p m = Inr (p', m') \<and> pool_inv c m' p' (ptr # fl) \<and> pdata p' = pdata p
    \<and> pcapacity p' = pcapacity p \<and> (\<forall>a. a \<noteq> ptr \<longrightarrow> m' a = m a)"
proof -
  have i: "free_list m (phead p) fl" "distinct fl" "set fl \<subseteq> set (chunks (pdata p) c (pcapacity p))"
    "0 < c" "plen p = pcapacity p * c" "0 < pdata p" "used p \<le> watermark p" "used p = int c * int (pcapacity p - length fl)"
    "0 < pcapacity p"
    using inv by (auto simp: pool_inv_def)
  have pos: "0 < ptr" using ptr(1) i(6) by (auto simp: chunks_def)
  then obtain j where "CheckPointer p ptr = Inr (int j)" using chunk_check [OF i(4) ptr(1) i(5)] by blast
  then have "BasicPool_Free ptr p m = Inr (WeakPool_Free ptr p m)" using pos by (simp add: BasicPool_Free_def)
  moreover have "length (ptr # fl) \<le> pcapacity p"
    using card_mono [of "set (chunks (pdata p) c (pcapacity p))" "set (ptr # fl)"] ptr i(2,3)
      distinct_card [of "ptr # fl"] distinct_card [OF distinct_chunks [OF i(4)], of "pdata p" "pcapacity p"]
    by simp
  then have "used p - int c = int c * int (pcapacity p - length (ptr # fl))"
    unfolding i(8) by (simp add: of_nat_diff algebra_simps)
  ultimately show ?thesis
    using i(1-7,9) ptr pos chunk_size_eq [OF inv]
    by (auto simp: WeakPool_Free_def pool_inv_def free_list_upd)
qed

section \<open>Brk\<close>

record brk =
  boffset :: nat
  blimit :: nat

definition Brk :: "nat \<Rightarrow> brk" where
  "Brk limit = \<lparr>boffset = 0, blimit = limit\<rparr>"

definition Brk_New :: "nat \<Rightarrow> nat \<Rightarrow> nat \<times> brk" where
  "Brk_New header sz = (let hdr_size = Align header 16 in (hdr_size, Brk (sz - hdr_size)))"

definition Brk_Check :: "brk \<Rightarrow> nat \<Rightarrow> bool" where
  "Brk_Check b s \<longleftrightarrow> boffset b + s \<le> blimit b"

definition Brk_Reset :: "brk \<Rightarrow> brk" where
  "Brk_Reset b = b\<lparr>boffset := 0\<rparr>"

text \<open>The result is the offset of the new block.\<close>

definition Brk_Alloc :: "nat \<Rightarrow> brk \<Rightarrow> (brk \<times> nat) res" where
  "Brk_Alloc sz b =
     (let s = Align sz 16; off = boffset b in
      if off + s > blimit b then Inl (Abort ''Brk is not large enough'')
      else Inr (b\<lparr>boffset := off + s\<rparr>, off))"

fun Brk_Allocs :: "nat list \<Rightarrow> brk \<Rightarrow> (brk \<times> nat list) res" where
  "Brk_Allocs [] b = Inr (b, [])"
| "Brk_Allocs (s # ss) b =
     res_bind (Brk_Alloc s b) (\<lambda>(b1, o1). res_bind (Brk_Allocs ss b1) (\<lambda>(b2, os). Inr (b2, o1 # os)))"

lemma Brk_Alloc_block:
  assumes "Brk_Alloc sz b = Inr (b', off)" "0 < sz" "sz + 16 < 2 ^ 64" "16 dvd boffset b"
  shows "off = boffset b \<and> off + sz \<le> boffset b' \<and> boffset b' \<le> blimit b \<and> blimit b' = blimit b \<and> 16 dvd boffset b' \<and> 16 dvd off"
  using assms Align_least [of sz 16] by (auto simp: Brk_Alloc_def Let_def split: if_splits)

text \<open>
  The blocks of a sequence of allocations are aligned, lie inside the buffer and do not
  overlap.
\<close>

lemma Brk_Allocs_disjoint:
  assumes "Brk_Allocs ss b = Inr (b', os)" "\<forall>s\<in>set ss. 0 < s \<and> s + 16 < 2 ^ 64" "16 dvd boffset b"
  shows "length os = length ss \<and> blimit b' = blimit b \<and> boffset b \<le> boffset b'
    \<and> (\<forall>i<length ss. 16 dvd os ! i \<and> boffset b \<le> os ! i \<and> os ! i + ss ! i \<le> boffset b' \<and> (ss \<noteq> [] \<longrightarrow> boffset b' \<le> blimit b))
    \<and> (\<forall>i j. i < j \<and> j < length ss \<longrightarrow> os ! i + ss ! i \<le> os ! j)"
  using assms
proof (induction ss arbitrary: b os)
  case (Cons s ss)
  obtain b1 o1 os1 where r: "Brk_Alloc s b = Inr (b1, o1)" "Brk_Allocs ss b1 = Inr (b', os1)" "os = o1 # os1"
    using Cons.prems(1) by (auto simp: res_bind_Inr_iff)
  have B: "o1 = boffset b" "o1 + s \<le> boffset b1" "boffset b1 \<le> blimit b" "blimit b1 = blimit b" "16 dvd boffset b1" "16 dvd o1"
    using Brk_Alloc_block [OF r(1)] Cons.prems(2,3) by auto
  have I: "length os1 = length ss" "blimit b' = blimit b1" "boffset b1 \<le> boffset b'"
    "\<And>i. i < length ss \<Longrightarrow> 16 dvd os1 ! i \<and> boffset b1 \<le> os1 ! i \<and> os1 ! i + ss ! i \<le> boffset b' \<and> boffset b' \<le> blimit b1"
    "\<And>i j. i < j \<Longrightarrow> j < length ss \<Longrightarrow> os1 ! i + ss ! i \<le> os1 ! j"
    using Cons.IH [OF r(2) _ B(5)] Cons.prems(2) by auto
  have lim: "boffset b' \<le> blimit b"
  proof (cases ss)
    case Nil
    then show ?thesis using r(2) B by simp
  next
    case (Cons x xs)
    then show ?thesis using I(4) [of 0] B(4) by simp
  qed
  have one: "16 dvd os ! i \<and> boffset b \<le> os ! i \<and> os ! i + (s # ss) ! i \<le> boffset b'" if "i < length (s # ss)" for i
    using that B I r(3) by (cases i) (fastforce simp: less_imp_le)+
  have two: "os ! i + (s # ss) ! i \<le> os ! j" if ij: "i < j" "j < length (s # ss)" for i j
  proof -
    obtain k where k: "j = Suc k" using ij(1) by (cases j) auto
    show ?thesis
    proof (cases i)
      case 0
      then show ?thesis using B I(4) [of k] ij k r(3) by simp
    next
      case (Suc l)
      then show ?thesis using I(5) [of l k] ij k r(3) by simp
    qed
  qed
  show ?case using one two lim B I(1-3) r(3) by auto
qed simp

end
