(* ===== verification/Mem_Slab.thy ===== *)
theory Mem_Slab
  imports Mem_Pool
begin

text \<open>
  The slab allocator of \<^verbatim>\<open>src/mem.cc\<close>. Each NUMA node has a \<open>SlabMemory\<close> that is cut
  into pages of 64 MB (\<open>MetaSlab\<close>). A meta slab is given out whole, or as 32 slabs of 2 MB
  that its bitmap keeps track of; meta slabs with a free slab are on the list \<open>half_full\<close>.
  A \<open>SlabPool\<close> takes slabs and cuts them into chunks of one size. Linked lists are lists
  here, the front being the element after the head (\<open>Linklist\<close> relates the two views); a
  meta slab is named by its index and a slab by node, meta slab and position.
\<close>

section \<open>SlabMemory\<close>

record metaslab =
  large_slab :: bool
  alloc_bitmap :: u32

record slab_memory =
  meta_pool :: "nat list"
  metas :: "nat \<Rightarrow> metaslab"
  meta_half :: "nat list"

definition NewMetaSlab :: "slab_memory \<Rightarrow> (slab_memory \<times> nat) option" where
  "NewMetaSlab m =
     (case meta_pool m of
        [] \<Rightarrow> None
      | idx # rest \<Rightarrow> Some (m\<lparr>meta_pool := rest, metas := (metas m)(idx := \<lparr>large_slab = False, alloc_bitmap = 0\<rparr>)\<rparr>, idx))"

definition DestroyMetaSlab :: "nat \<Rightarrow> slab_memory \<Rightarrow> slab_memory" where
  "DestroyMetaSlab idx m = m\<lparr>meta_pool := idx # meta_pool m\<rparr>"

definition mark_used :: "u32 \<Rightarrow> nat \<Rightarrow> u32" where
  "mark_used b idx = b OR push_bit idx 1"

definition mark_free :: "u32 \<Rightarrow> nat \<Rightarrow> u32" where
  "mark_free b idx = b AND NOT (push_bit idx 1)"

lemma bit_mark_used: "idx < 32 \<Longrightarrow> bit (mark_used b idx) j \<longleftrightarrow> bit b j \<or> j = idx"
  unfolding mark_used_def bit_or_push_one by auto

lemma bit_mark_free: "bit (mark_free b idx) j \<longleftrightarrow> j \<noteq> idx \<and> bit b j"
  unfolding mark_free_def by (rule bit_and_not_push_one)

text \<open>The slab that is taken from the first half full meta slab.\<close>

definition take_slab :: "slab_memory \<Rightarrow> slab_memory \<times> nat \<times> nat" where
  "take_slab m =
     (let ms = hd (meta_half m);
          idx = ctz (NOT (alloc_bitmap (metas m ms)));
          b = mark_used (alloc_bitmap (metas m ms)) idx;
          m' = m\<lparr>metas := (metas m)(ms := (metas m ms)\<lparr>alloc_bitmap := b\<rparr>)\<rparr>
      in (if NOT b = 0 then m'\<lparr>meta_half := tl (meta_half m)\<rparr> else m', ms, idx))"

definition AllocSlab :: "bool \<Rightarrow> slab_memory \<Rightarrow> slab_memory \<times> (nat \<times> nat) option" where
  "AllocSlab large m =
     (if large then
        case NewMetaSlab m of
          None \<Rightarrow> (m, None)
        | Some (m', idx) \<Rightarrow> (m'\<lparr>metas := (metas m')(idx := (metas m' idx)\<lparr>large_slab := True\<rparr>)\<rparr>, Some (idx, 0))
      else if meta_half m = [] then
        case NewMetaSlab m of
          None \<Rightarrow> (m, None)
        | Some (m', idx) \<Rightarrow> let (m'', s) = take_slab (m'\<lparr>meta_half := [idx]\<rparr>) in (m'', Some s)
      else let (m', s) = take_slab m in (m', Some s))"

definition FreeSlab :: "nat \<Rightarrow> nat \<Rightarrow> slab_memory \<Rightarrow> slab_memory" where
  "FreeSlab ms slab_idx m =
     (if \<not> large_slab (metas m ms) then
        let b = alloc_bitmap (metas m ms);
            h = (if NOT b = 0 then ms # meta_half m else meta_half m);
            b' = mark_free b slab_idx;
            m' = m\<lparr>metas := (metas m)(ms := (metas m ms)\<lparr>alloc_bitmap := b'\<rparr>), meta_half := h\<rparr>
        in if b' \<noteq> 0 then m' else DestroyMetaSlab ms (m'\<lparr>meta_half := removeAll ms h\<rparr>)
      else DestroyMetaSlab ms m)"

text \<open>Slabs that are given out: the whole meta slab or a set bit of it.\<close>

definition slab_live :: "nat \<Rightarrow> slab_memory \<Rightarrow> (nat \<times> nat) set" where
  "slab_live n m = {(ms, i). ms < n \<and> ms \<notin> set (meta_pool m)
     \<and> (if large_slab (metas m ms) then i = 0 else bit (alloc_bitmap (metas m ms)) i)}"

definition slabmem_inv :: "nat \<Rightarrow> slab_memory \<Rightarrow> bool" where
  "slabmem_inv n m \<longleftrightarrow> distinct (meta_pool m) \<and> set (meta_pool m) \<subseteq> {..<n} \<and> distinct (meta_half m)
     \<and> (\<forall>ms. ms \<in> set (meta_half m) \<longleftrightarrow> ms < n \<and> ms \<notin> set (meta_pool m) \<and> \<not> large_slab (metas m ms)
            \<and> NOT (alloc_bitmap (metas m ms)) \<noteq> 0)
     \<and> (\<forall>ms<n. ms \<notin> set (meta_pool m) \<and> \<not> large_slab (metas m ms) \<longrightarrow> alloc_bitmap (metas m ms) \<noteq> 0)"

text \<open>While a slab is taken its meta slab may still be without a slab in use.\<close>

definition slabmem_pre :: "nat \<Rightarrow> slab_memory \<Rightarrow> bool" where
  "slabmem_pre n m \<longleftrightarrow> distinct (meta_pool m) \<and> set (meta_pool m) \<subseteq> {..<n} \<and> distinct (meta_half m)
     \<and> (\<forall>ms. ms \<in> set (meta_half m) \<longleftrightarrow> ms < n \<and> ms \<notin> set (meta_pool m) \<and> \<not> large_slab (metas m ms)
            \<and> NOT (alloc_bitmap (metas m ms)) \<noteq> 0)
     \<and> (\<forall>ms<n. ms \<notin> set (meta_pool m) \<and> \<not> large_slab (metas m ms) \<and> ms \<noteq> hd (meta_half m) \<longrightarrow> alloc_bitmap (metas m ms) \<noteq> 0)"

lemma take_slab_inv:
  assumes pre: "slabmem_pre n m" "meta_half m \<noteq> []" and t: "take_slab m = (m', s)"
  shows "slabmem_inv n m' \<and> s \<notin> slab_live n m \<and> slab_live n m' = insert s (slab_live n m) \<and> snd s < 32"
proof -
  obtain ms hs where h: "meta_half m = ms # hs" using pre(2) by (cases "meta_half m") auto
  let ?b = "alloc_bitmap (metas m ms)"
  let ?i = "ctz (NOT ?b)"
  define b where "b = mark_used ?b ?i"
  have H: "ms < n" "ms \<notin> set (meta_pool m)" "\<not> large_slab (metas m ms)" "NOT ?b \<noteq> 0" "ms \<notin> set hs" "distinct hs"
    using pre h unfolding slabmem_pre_def by (auto dest: spec [of _ ms])
  have i: "?i < 32" "\<not> bit ?b ?i" using ctz_bit [OF H(4)] by (auto simp: bit_not_iff)
  have bb: "bit b j \<longleftrightarrow> bit ?b j \<or> j = ?i" for j using i(1) by (simp add: b_def bit_mark_used)
  have bn: "b \<noteq> 0" using bb [of ?i] by auto
  have e: "m' = (if NOT b = 0 then m\<lparr>metas := (metas m)(ms := (metas m ms)\<lparr>alloc_bitmap := b\<rparr>), meta_half := hs\<rparr>
      else m\<lparr>metas := (metas m)(ms := (metas m ms)\<lparr>alloc_bitmap := b\<rparr>)\<rparr>)" "s = (ms, ?i)"
    using t h by (auto simp: take_slab_def Let_def b_def [symmetric])
  have same: "meta_pool m' = meta_pool m" "metas m' = (metas m)(ms := (metas m ms)\<lparr>alloc_bitmap := b\<rparr>)"
    "meta_half m' = (if NOT b = 0 then hs else ms # hs)" using h by (auto simp: e(1))
  have "slabmem_inv n m'"
    using pre(1) H bn h unfolding slabmem_inv_def slabmem_pre_def same by auto
  moreover have "slab_live n m' = insert s (slab_live n m)"
    using H bb unfolding slab_live_def same e(2) by (auto split: if_splits)
  moreover have "s \<notin> slab_live n m" using H i by (auto simp: slab_live_def e(2))
  ultimately show ?thesis using i(1) by (simp add: e(2))
qed

lemma inv_pre: "slabmem_inv n m \<Longrightarrow> slabmem_pre n m"
  by (simp add: slabmem_inv_def slabmem_pre_def)

lemma NewMetaSlab_fresh:
  assumes "slabmem_inv n m" "NewMetaSlab m = Some (m', idx)"
  shows "idx < n" "idx \<notin> set (meta_half m)" "meta_half m' = meta_half m" "meta_pool m = idx # meta_pool m'"
    "metas m' = (metas m)(idx := \<lparr>large_slab = False, alloc_bitmap = 0\<rparr>)"
  using assms by (auto simp: NewMetaSlab_def slabmem_inv_def split: list.splits)

text \<open>
  \<open>AllocSlab\<close> gives out a slab that is not in use, or none when no meta slab is left.
\<close>

lemma AllocSlab_inv:
  assumes inv: "slabmem_inv n m" and a: "AllocSlab large m = (m', r)"
  shows "slabmem_inv n m' \<and> (case r of None \<Rightarrow> m' = m \<and> meta_pool m = []
    | Some s \<Rightarrow> s \<notin> slab_live n m \<and> slab_live n m' = insert s (slab_live n m) \<and> snd s < 32)"
proof (cases "large \<or> meta_half m = []")
  case False
  then obtain s where "take_slab m = (m', s)" "r = Some s" "meta_half m \<noteq> []"
    using a by (cases "take_slab m") (auto simp: AllocSlab_def)
  then show ?thesis using take_slab_inv [OF inv_pre [OF inv]] by auto
next
  case new: True
  show ?thesis
  proof (cases "NewMetaSlab m")
    case None
    then have "m' = m" "r = None" using a new by (auto simp: AllocSlab_def split: if_splits)
    moreover have "meta_pool m = []" using None by (simp add: NewMetaSlab_def split: list.splits)
    ultimately show ?thesis using inv by simp
  next
    case (Some x)
    obtain m1 idx where x: "NewMetaSlab m = Some (m1, idx)" using Some by (cases x) auto
    note N = NewMetaSlab_fresh [OF inv x]
    have d: "distinct (meta_pool m)" using inv by (simp add: slabmem_inv_def)
    show ?thesis
    proof (cases large)
      case True
      then have e: "m' = m1\<lparr>metas := (metas m1)(idx := (metas m1 idx)\<lparr>large_slab := True\<rparr>)\<rparr>" "r = Some (idx, 0)"
        using a x by (auto simp: AllocSlab_def)
      have "slabmem_inv n m'" using inv N d unfolding slabmem_inv_def e(1) by auto
      moreover have "slab_live n m' = insert (idx, 0) (slab_live n m)" "(idx, 0) \<notin> slab_live n m"
        using N d unfolding slab_live_def e(1) by (auto split: if_splits)
      ultimately show ?thesis by (simp add: e(2))
    next
      case False
      then have h: "meta_half m = []" using new by simp
      let ?m = "m1\<lparr>meta_half := [idx]\<rparr>"
      obtain s where t: "take_slab ?m = (m', s)" "r = Some s"
        using a x False h by (cases "take_slab ?m") (auto simp: AllocSlab_def)
      have "slabmem_pre n ?m"
        using inv N d h unfolding slabmem_pre_def slabmem_inv_def by auto
      then have T: "slabmem_inv n m'" "s \<notin> slab_live n ?m" "slab_live n m' = insert s (slab_live n ?m)" "snd s < 32"
        using take_slab_inv [OF _ _ t(1)] by auto
      have "slab_live n ?m = slab_live n m"
        using N d unfolding slab_live_def by (auto split: if_splits)
      then show ?thesis using T by (simp add: t(2))
    qed
  qed
qed

text \<open>\<open>FreeSlab\<close> takes a slab in use back; the last slab of a meta slab frees it.\<close>

lemma FreeSlab_inv:
  assumes inv: "slabmem_inv n m" and s: "(ms, i) \<in> slab_live n m"
  shows "slabmem_inv n (FreeSlab ms i m) \<and> slab_live n (FreeSlab ms i m) = slab_live n m - {(ms, i)}"
proof (cases "large_slab (metas m ms)")
  case True
  then have "FreeSlab ms i m = DestroyMetaSlab ms m" by (simp add: FreeSlab_def)
  moreover have "i = 0" "ms < n" "ms \<notin> set (meta_pool m)" using s True by (auto simp: slab_live_def)
  ultimately show ?thesis
    using inv True unfolding slabmem_inv_def slab_live_def DestroyMetaSlab_def by auto
next
  case False
  let ?b = "alloc_bitmap (metas m ms)"
  define b where "b = mark_free ?b i"
  define h where "h = (if NOT ?b = 0 then ms # meta_half m else meta_half m)"
  define m1 where "m1 = m\<lparr>metas := (metas m)(ms := (metas m ms)\<lparr>alloc_bitmap := b\<rparr>), meta_half := h\<rparr>"
  have S: "ms < n" "ms \<notin> set (meta_pool m)" "bit ?b i" using s False by (auto simp: slab_live_def)
  have bb: "bit b j \<longleftrightarrow> j \<noteq> i \<and> bit ?b j" for j unfolding b_def by (rule bit_mark_free)
  have nb: "NOT b \<noteq> 0" using bb [of i] S(3) bit_imp_le_length [OF S(3)] by (metis bit_0_eq bit_not_iff bot_apply bot_bool_def possible_bit_word)
  have H: "distinct (meta_pool m)" "set (meta_pool m) \<subseteq> {..<n}" "distinct (meta_half m)"
    "\<And>x. x \<in> set (meta_half m) \<longleftrightarrow> x < n \<and> x \<notin> set (meta_pool m) \<and> \<not> large_slab (metas m x) \<and> NOT (alloc_bitmap (metas m x)) \<noteq> 0"
    "\<And>x. x < n \<Longrightarrow> x \<notin> set (meta_pool m) \<Longrightarrow> \<not> large_slab (metas m x) \<Longrightarrow> alloc_bitmap (metas m x) \<noteq> 0"
    using inv unfolding slabmem_inv_def by auto
  have hs: "distinct h" "\<And>x. x \<in> set h \<longleftrightarrow> x = ms \<or> x \<in> set (meta_half m)"
    using H(3) H(4) [of ms] S False by (auto simp: h_def)
  have e: "FreeSlab ms i m = (if b \<noteq> 0 then m1 else DestroyMetaSlab ms (m1\<lparr>meta_half := removeAll ms h\<rparr>))"
    using False by (simp add: FreeSlab_def Let_def b_def [symmetric] h_def [symmetric] m1_def)
  show ?thesis
  proof (cases "b = 0")
    case True
    then have only: "bit ?b j \<longleftrightarrow> j = i" for j using bb [of j] S(3) by auto
    let ?m = "DestroyMetaSlab ms (m1\<lparr>meta_half := removeAll ms h\<rparr>)"
    have st: "meta_pool ?m = ms # meta_pool m" "meta_half ?m = removeAll ms h"
      "metas ?m = (metas m)(ms := (metas m ms)\<lparr>alloc_bitmap := b\<rparr>)" by (simp_all add: DestroyMetaSlab_def m1_def)
    have "slabmem_inv n ?m"
      unfolding slabmem_inv_def st using H S hs by (auto simp: distinct_removeAll)
    moreover have "(x, j) \<in> slab_live n ?m \<longleftrightarrow> (x, j) \<in> slab_live n m - {(ms, i)}" for x j
      using S only False by (cases "x = ms") (simp_all add: slab_live_def st)
    then have "slab_live n ?m = slab_live n m - {(ms, i)}" by auto
    ultimately show ?thesis using True e by simp
  next
    case nz: False
    have st: "meta_pool m1 = meta_pool m" "meta_half m1 = h"
      "metas m1 = (metas m)(ms := (metas m ms)\<lparr>alloc_bitmap := b\<rparr>)" by (simp_all add: m1_def)
    have "slabmem_inv n m1" unfolding slabmem_inv_def st using H S hs nz nb False by auto
    moreover have "(x, j) \<in> slab_live n m1 \<longleftrightarrow> (x, j) \<in> slab_live n m - {(ms, i)}" for x j
      using S bb False by (cases "x = ms") (auto simp: slab_live_def st)
    then have "slab_live n m1 = slab_live n m - {(ms, i)}" by auto
    ultimately show ?thesis using nz e by simp
  qed
qed

section \<open>Pages and addresses\<close>

definition kSlabPageSize :: nat where "kSlabPageSize = 2 * 1024 * 1024"
definition kLargeSlabPageSize :: nat where "kLargeSlabPageSize = 64 * 1024 * 1024"

definition PageSize :: "nat \<Rightarrow> nat" where
  "PageSize chunk_size = (if chunk_size \<ge> 512 * 1024 then kLargeSlabPageSize else kSlabPageSize)"

text \<open>The data of a slab, relative to the start of the data of its memory.\<close>

definition slab_data :: "nat \<Rightarrow> nat \<Rightarrow> nat" where
  "slab_data ms idx = ms * kLargeSlabPageSize + idx * kSlabPageSize"

definition GetSlab :: "nat \<Rightarrow> bool \<Rightarrow> nat \<times> nat" where
  "GetSlab off large =
     (let idx = off div kLargeSlabPageSize
      in (idx, if large then 0 else (off mod kLargeSlabPageSize) div kSlabPageSize))"

text \<open>Every address inside a page leads back to its slab.\<close>

lemma GetSlab_data:
  "idx < 32 \<Longrightarrow> x < kSlabPageSize \<Longrightarrow> GetSlab (slab_data ms idx + x) False = (ms, idx)"
  "x < kLargeSlabPageSize \<Longrightarrow> GetSlab (slab_data ms 0 + x) True = (ms, 0)"
proof -
  assume i: "idx < 32" and x: "x < kSlabPageSize"
  define y where "y = idx * kSlabPageSize + x"
  have y: "y < kLargeSlabPageSize" using i x by (simp add: y_def kSlabPageSize_def kLargeSlabPageSize_def)
  have "slab_data ms idx + x = y + ms * kLargeSlabPageSize" by (simp add: slab_data_def y_def)
  then have "(slab_data ms idx + x) div kLargeSlabPageSize = ms" "(slab_data ms idx + x) mod kLargeSlabPageSize = y"
    using y by simp_all
  moreover have "y div kSlabPageSize = idx" using x by (simp add: y_def)
  ultimately show "GetSlab (slab_data ms idx + x) False = (ms, idx)" by (simp add: GetSlab_def Let_def)
qed (simp add: GetSlab_def slab_data_def)

text \<open>\<open>FindSlabMemory\<close>: the region of the default node first, then all of them.\<close>

record region_range =
  rbase :: nat
  rlen :: nat

definition Contains :: "region_range \<Rightarrow> nat \<Rightarrow> bool" where
  "Contains r ptr \<longleftrightarrow> ptr > rbase r \<and> ptr < rbase r + rlen r"

definition FindSlabMemory :: "region_range list \<Rightarrow> nat \<Rightarrow> nat \<Rightarrow> nat option" where
  "FindSlabMemory rs ptr default_numa_node =
     (if Contains (rs ! default_numa_node) ptr then Some default_numa_node
      else List.find (\<lambda>n. Contains (rs ! n) ptr) [0..<length rs])"

lemma FindSlabMemory_owner:
  assumes "n < length rs" "d < length rs" "Contains (rs ! n) ptr"
    and "\<forall>i<length rs. \<forall>j<length rs. i \<noteq> j \<longrightarrow> rbase (rs ! i) + rlen (rs ! i) \<le> rbase (rs ! j) \<or> rbase (rs ! j) + rlen (rs ! j) \<le> rbase (rs ! i)"
  shows "FindSlabMemory rs ptr d = Some n"
proof -
  have u: "i = n" if "i < length rs" "Contains (rs ! i) ptr" for i
  proof (rule ccontr)
    assume "i \<noteq> n"
    then have "rbase (rs ! i) + rlen (rs ! i) \<le> rbase (rs ! n) \<or> rbase (rs ! n) + rlen (rs ! n) \<le> rbase (rs ! i)"
      using assms(1,4) that(1) by blast
    then show False using assms(3) that(2) unfolding Contains_def by linarith
  qed
  show ?thesis
  proof (cases "Contains (rs ! d) ptr")
    case True
    then show ?thesis using u [OF assms(2)] by (simp add: FindSlabMemory_def)
  next
    case False
    have "\<not> Contains (rs ! j) ptr" if "j < n" for j using u [of j] that assms(1) by linarith
    then have "List.find (\<lambda>n. Contains (rs ! n) ptr) [0..<length rs] = Some n"
      unfolding find_Some_iff using assms(1,3) by (intro exI [of _ n]) simp
    then show ?thesis using False by (simp add: FindSlabMemory_def)
  qed
qed

end
