(* ===== verification/Mem_SlabPool.thy ===== *)
theory Mem_SlabPool
  imports Mem_Slab
begin

text \<open>
  \<open>SlabPool\<close> of \<^verbatim>\<open>src/mem.cc\<close>: chunks of one size, cut from slabs. Slabs with all chunks
  free are on the list \<open>empty\<close>, slabs with some chunks free on \<open>half_full\<close>, full slabs on
  no list. The free chunks of a slab are the free list of its \<open>BasicPool\<close> (theory
  \<open>Mem_Pool\<close>: \<open>Alloc\<close> takes its front, \<open>Free\<close> puts a chunk in front), named by their index.
\<close>

type_synonym slab_id = "nat \<times> nat \<times> nat"

record slab_pool =
  sp_empty :: "slab_id list"
  sp_half :: "slab_id list"
  sp_node :: nat
  sp_nr_empty :: nat
  sp_nr_buffer :: nat
  sp_chunk :: nat
  sp_used :: int
  sp_watermark :: int
  sp_free :: "slab_id \<Rightarrow> nat list"

definition is_large_slab :: "slab_pool \<Rightarrow> bool" where
  "is_large_slab sp \<longleftrightarrow> sp_chunk sp \<ge> 512 * 1024"

definition slab_cap :: "slab_pool \<Rightarrow> nat" where
  "slab_cap sp = PageSize (sp_chunk sp) div sp_chunk sp"

text \<open>Ask the node of the pool first, then all nodes.\<close>

fun refill_from :: "bool \<Rightarrow> nat list \<Rightarrow> slab_memory list \<Rightarrow> (slab_memory list \<times> slab_id) option" where
  "refill_from large [] ms = None"
| "refill_from large (n # ns) ms =
     (case AllocSlab large (ms ! n) of
        (m', Some s) \<Rightarrow> Some (ms[n := m'], n, s)
      | (m', None) \<Rightarrow> refill_from large ns ms)"

definition RefillSlab :: "slab_pool \<Rightarrow> slab_memory list \<Rightarrow> (slab_pool \<times> slab_memory list \<times> slab_id) res" where
  "RefillSlab sp ms =
     (case refill_from (is_large_slab sp) (sp_node sp # [0..<length ms]) ms of
        None \<Rightarrow> Inl (Abort ''Cannot find any memory from global slabs'')
      | Some (ms', s) \<Rightarrow>
          Inr (sp\<lparr>sp_nr_empty := sp_nr_empty sp + 1, sp_empty := s # sp_empty sp,
                  sp_free := (sp_free sp)(s := [0..<slab_cap sp])\<rparr>, ms', s))"

fun refill_upto :: "nat \<Rightarrow> slab_pool \<Rightarrow> slab_memory list \<Rightarrow> (slab_pool \<times> slab_memory list) res" where
  "refill_upto 0 sp ms = Inr (sp, ms)"
| "refill_upto (Suc k) sp ms = res_bind (RefillSlab sp ms) (\<lambda>(sp', ms', s). refill_upto k sp' ms')"

definition SlabPool :: "nat \<Rightarrow> nat \<Rightarrow> nat \<Rightarrow> slab_memory list \<Rightarrow> (slab_pool \<times> slab_memory list) res" where
  "SlabPool chunk_size nr_buffer numa_node ms =
     refill_upto nr_buffer
       \<lparr>sp_empty = [], sp_half = [], sp_node = numa_node, sp_nr_empty = 0, sp_nr_buffer = nr_buffer,
        sp_chunk = chunk_size, sp_used = 0, sp_watermark = 0, sp_free = (\<lambda>s. [])\<rparr> ms"

definition ReturnSlab :: "slab_pool \<Rightarrow> slab_memory list \<Rightarrow> slab_pool \<times> slab_memory list" where
  "ReturnSlab sp ms =
     (let (n, m, i) = last (sp_empty sp)
      in (sp\<lparr>sp_empty := butlast (sp_empty sp), sp_nr_empty := sp_nr_empty sp - 1\<rparr>, ms[n := FreeSlab m i (ms ! n)]))"

definition take_chunk :: "slab_id \<Rightarrow> slab_pool \<Rightarrow> slab_pool \<times> (slab_id \<times> nat)" where
  "take_chunk s sp = (sp\<lparr>sp_free := (sp_free sp)(s := tl (sp_free sp s))\<rparr>, (s, hd (sp_free sp s)))"

definition count_used :: "int \<Rightarrow> slab_pool \<Rightarrow> slab_pool" where
  "count_used d sp = (let u = sp_used sp + d in sp\<lparr>sp_used := u, sp_watermark := max u (sp_watermark sp)\<rparr>)"

definition SlabPool_Alloc :: "slab_pool \<Rightarrow> slab_memory list \<Rightarrow> (slab_pool \<times> slab_memory list \<times> (slab_id \<times> nat) option) res" where
  "SlabPool_Alloc sp0 ms =
     (if sp_chunk sp0 = 0 then Inr (sp0, ms, None)
      else let sp = count_used (int (sp_chunk sp0)) sp0 in
      if sp_half sp \<noteq> [] then
        let s = hd (sp_half sp); (sp1, c) = take_chunk s sp in
        Inr (if sp_free sp1 s = [] then sp1\<lparr>sp_half := tl (sp_half sp1)\<rparr> else sp1, ms, Some c)
      else
        res_bind (if sp_empty sp = [] then RefillSlab sp ms else Inr (sp, ms, hd (sp_empty sp))) (\<lambda>(sp1, ms1, s).
        let (sp2, c) = take_chunk s sp1 in
        Inr (sp2\<lparr>sp_empty := tl (sp_empty sp2), sp_half := s # sp_half sp2, sp_nr_empty := sp_nr_empty sp2 - 1\<rparr>, ms1, Some c)))"

definition SlabPool_Free :: "slab_id \<Rightarrow> nat \<Rightarrow> slab_pool \<Rightarrow> slab_memory list \<Rightarrow> slab_pool \<times> slab_memory list" where
  "SlabPool_Free s c sp0 ms =
     (let sp = sp0\<lparr>sp_used := sp_used sp0 - int (sp_chunk sp0), sp_free := (sp_free sp0)(s := c # sp_free sp0 s)\<rparr>;
          sp1 = (if s \<notin> set (sp_half sp) \<and> s \<notin> set (sp_empty sp) then sp\<lparr>sp_half := s # sp_half sp\<rparr> else sp);
          sp2 = (if length (sp_free sp1 s) = slab_cap sp1
                 then sp1\<lparr>sp_half := removeAll s (sp_half sp1), sp_empty := s # removeAll s (sp_empty sp1),
                          sp_nr_empty := sp_nr_empty sp1 + 1\<rparr>
                 else sp1)
      in if sp_nr_empty sp2 > sp_nr_buffer sp2 then ReturnSlab sp2 ms else (sp2, ms))"

section \<open>The invariant of a pool\<close>

definition mems_inv :: "nat list \<Rightarrow> slab_memory list \<Rightarrow> bool" where
  "mems_inv ns ms \<longleftrightarrow> length ns = length ms \<and> (\<forall>k<length ms. slabmem_inv (ns ! k) (ms ! k))"

definition mems_live :: "nat list \<Rightarrow> slab_memory list \<Rightarrow> slab_id set" where
  "mems_live ns ms = {(k, s). k < length ms \<and> s \<in> slab_live (ns ! k) (ms ! k)}"

text \<open>\<open>own\<close> is the set of slabs of the pool.\<close>

definition sp_inv :: "slab_id set \<Rightarrow> slab_pool \<Rightarrow> bool" where
  "sp_inv own sp \<longleftrightarrow> 1 < slab_cap sp \<and> sp_nr_empty sp = length (sp_empty sp) \<and> distinct (sp_empty sp) \<and> distinct (sp_half sp)
     \<and> set (sp_empty sp) \<union> set (sp_half sp) \<subseteq> own
     \<and> (\<forall>s\<in>own. distinct (sp_free sp s) \<and> set (sp_free sp s) \<subseteq> {..<slab_cap sp}
          \<and> (s \<in> set (sp_empty sp) \<longleftrightarrow> length (sp_free sp s) = slab_cap sp)
          \<and> (s \<in> set (sp_half sp) \<longleftrightarrow> 0 < length (sp_free sp s) \<and> length (sp_free sp s) < slab_cap sp))"

definition sp_live :: "slab_id set \<Rightarrow> slab_pool \<Rightarrow> (slab_id \<times> nat) set" where
  "sp_live own sp = {(s, c). s \<in> own \<and> c < slab_cap sp \<and> c \<notin> set (sp_free sp s)}"

lemma refill_from_fresh:
  assumes "mems_inv ns ms" "set xs \<subseteq> {..<length ms}" "refill_from large xs ms = Some (ms', s)"
  shows "mems_inv ns ms' \<and> s \<notin> mems_live ns ms \<and> mems_live ns ms' = insert s (mems_live ns ms)"
  using assms(2,3)
proof (induction xs)
  case (Cons n xs)
  have n: "n < length ms" using Cons.prems(1) by simp
  obtain m' r where a: "AllocSlab large (ms ! n) = (m', r)" by (cases "AllocSlab large (ms ! n)")
  have "slabmem_inv (ns ! n) (ms ! n)" using assms(1) n by (simp add: mems_inv_def)
  note A = AllocSlab_inv [OF this a]
  show ?case
  proof (cases r)
    case None
    then show ?thesis using Cons a by simp
  next
    case (Some t)
    then have e: "ms' = ms[n := m']" "s = (n, t)" using Cons.prems(2) a by simp_all
    have A': "slabmem_inv (ns ! n) m'" "t \<notin> slab_live (ns ! n) (ms ! n)"
      "slab_live (ns ! n) m' = insert t (slab_live (ns ! n) (ms ! n))" using A Some by auto
    have "mems_inv ns ms'" using assms(1) A'(1) n by (simp add: mems_inv_def e nth_list_update)
    moreover have "(k, u) \<in> mems_live ns ms' \<longleftrightarrow> (k, u) \<in> insert s (mems_live ns ms)" for k u
      using A'(3) n by (cases "k = n") (auto simp: mems_live_def e)
    then have "mems_live ns ms' = insert s (mems_live ns ms)" by auto
    ultimately show ?thesis using A'(2) by (simp add: mems_live_def e(2))
  qed
qed simp

text \<open>Facts of the invariant for one slab, and the step from one slab's change to the pool.\<close>

lemma sp_invD:
  assumes "sp_inv own sp"
  shows "1 < slab_cap sp" "sp_nr_empty sp = length (sp_empty sp)" "distinct (sp_empty sp)" "distinct (sp_half sp)"
    "set (sp_empty sp) \<subseteq> own" "set (sp_half sp) \<subseteq> own"
    "\<And>s. s \<in> own \<Longrightarrow> distinct (sp_free sp s)" "\<And>s. s \<in> own \<Longrightarrow> set (sp_free sp s) \<subseteq> {..<slab_cap sp}"
    "\<And>s. s \<in> own \<Longrightarrow> s \<in> set (sp_empty sp) \<longleftrightarrow> length (sp_free sp s) = slab_cap sp"
    "\<And>s. s \<in> own \<Longrightarrow> s \<in> set (sp_half sp) \<longleftrightarrow> 0 < length (sp_free sp s) \<and> length (sp_free sp s) < slab_cap sp"
  using assms unfolding sp_inv_def by auto

lemma sp_inv_change:
  assumes inv: "sp_inv own sp" and same: "\<And>u. u \<noteq> s \<Longrightarrow> sp_free sp' u = sp_free sp u"
      "\<And>u. u \<noteq> s \<Longrightarrow> u \<in> set (sp_empty sp') \<longleftrightarrow> u \<in> set (sp_empty sp)"
      "\<And>u. u \<noteq> s \<Longrightarrow> u \<in> set (sp_half sp') \<longleftrightarrow> u \<in> set (sp_half sp)" "slab_cap sp' = slab_cap sp"
    and new: "distinct (sp_free sp' s)" "set (sp_free sp' s) \<subseteq> {..<slab_cap sp}"
      "s \<in> set (sp_empty sp') \<longleftrightarrow> length (sp_free sp' s) = slab_cap sp"
      "s \<in> set (sp_half sp') \<longleftrightarrow> 0 < length (sp_free sp' s) \<and> length (sp_free sp' s) < slab_cap sp"
    and cnt: "sp_nr_empty sp' = length (sp_empty sp')" "distinct (sp_empty sp')" "distinct (sp_half sp')"
  shows "sp_inv (insert s own) sp'"
  unfolding sp_inv_def
proof (intro conjI ballI)
  note D = sp_invD [OF inv]
  show "1 < slab_cap sp'" using D(1) same(4) by simp
  show "set (sp_empty sp') \<union> set (sp_half sp') \<subseteq> insert s own"
    using D(5,6) same(2,3) by blast
  fix u assume u: "u \<in> insert s own"
  show "distinct (sp_free sp' u)" "set (sp_free sp' u) \<subseteq> {..<slab_cap sp'}"
    "u \<in> set (sp_empty sp') \<longleftrightarrow> length (sp_free sp' u) = slab_cap sp'"
    "u \<in> set (sp_half sp') \<longleftrightarrow> 0 < length (sp_free sp' u) \<and> length (sp_free sp' u) < slab_cap sp'"
    using u D(7-10) [of u] same(1-3) [of u] same(4) new by (cases "u = s"; simp)+
qed (use cnt in simp_all)

lemma RefillSlab_inv:
  assumes inv: "sp_inv own sp" "mems_inv ns ms" "own \<subseteq> mems_live ns ms" "sp_node sp < length ms"
    and r: "RefillSlab sp ms = Inr (sp', ms', s)"
  shows "sp_inv (insert s own) sp' \<and> mems_inv ns ms' \<and> insert s own \<subseteq> mems_live ns ms' \<and> s \<notin> own
    \<and> sp_live (insert s own) sp' = sp_live own sp \<and> sp_empty sp' = s # sp_empty sp \<and> sp_half sp' = sp_half sp
    \<and> sp_chunk sp' = sp_chunk sp \<and> mems_live ns ms' = insert s (mems_live ns ms)"
proof -
  obtain ms1 where f: "refill_from (is_large_slab sp) (sp_node sp # [0..<length ms]) ms = Some (ms', s)"
    and e: "sp' = sp\<lparr>sp_nr_empty := sp_nr_empty sp + 1, sp_empty := s # sp_empty sp,
                  sp_free := (sp_free sp)(s := [0..<slab_cap sp])\<rparr>"
    using r by (auto simp: RefillSlab_def split: option.splits prod.splits)
  have "set (sp_node sp # [0..<length ms]) \<subseteq> {..<length ms}" using inv(4) by auto
  note F = refill_from_fresh [OF inv(2) this f]
  have s: "s \<notin> own" using F inv(3) by blast
  note D = sp_invD [OF inv(1)]
  have ns: "s \<notin> set (sp_empty sp)" "s \<notin> set (sp_half sp)" using s D(5,6) by auto
  have cap: "slab_cap sp' = slab_cap sp" by (simp add: e slab_cap_def)
  have "sp_inv (insert s own) sp'"
    by (rule sp_inv_change [OF inv(1)]) (use D(1-4) ns cap in \<open>auto simp: e slab_cap_def\<close>)
  moreover have "(u, c) \<in> sp_live (insert s own) sp' \<longleftrightarrow> (u, c) \<in> sp_live own sp" for u c
    using s by (cases "u = s") (simp_all add: sp_live_def cap, simp_all add: e)
  then have "sp_live (insert s own) sp' = sp_live own sp" by auto
  ultimately show ?thesis using F inv(3) s by (auto simp: e)
qed

text \<open>Taking a chunk of a slab with free chunks, whatever happens to the lists.\<close>

lemma take_chunk_live:
  assumes inv: "sp_inv own sp" and s: "s \<in> own" "sp_free sp s = c # fs"
    and sp': "sp_free sp' = (sp_free sp)(s := fs)" "slab_cap sp' = slab_cap sp"
  shows "(s, c) \<notin> sp_live own sp \<and> sp_live own sp' = insert (s, c) (sp_live own sp)"
proof -
  note D = sp_invD [OF inv]
  have c: "c < slab_cap sp" "c \<notin> set fs" using D(7,8) [OF s(1)] s(2) by auto
  have "(u, x) \<in> sp_live own sp' \<longleftrightarrow> (u, x) \<in> insert (s, c) (sp_live own sp)" for u x
    using c s by (cases "u = s") (auto simp: sp_live_def sp')
  then have "sp_live own sp' = insert (s, c) (sp_live own sp)" by auto
  then show ?thesis using s by (auto simp: sp_live_def)
qed

lemma take_half_inv:
  assumes inv: "sp_inv own sp" and h: "sp_half sp = s # hs" and t: "take_chunk s sp = (sp1, x)"
    and sp': "sp' = (if sp_free sp1 s = [] then sp1\<lparr>sp_half := tl (sp_half sp1)\<rparr> else sp1)"
  shows "sp_inv own sp' \<and> x \<notin> sp_live own sp \<and> sp_live own sp' = insert x (sp_live own sp)"
proof -
  note D = sp_invD [OF inv]
  have s: "s \<in> own" "s \<notin> set hs" "distinct hs" using D(4,6) h by auto
  have ne: "0 < length (sp_free sp s)" "length (sp_free sp s) < slab_cap sp" "s \<notin> set (sp_empty sp)"
    using D(9,10) [OF s(1)] h by auto
  then obtain c fs where fr: "sp_free sp s = c # fs" by (cases "sp_free sp s") auto
  have x: "x = (s, c)" and sp1: "sp1 = sp\<lparr>sp_free := (sp_free sp)(s := fs)\<rparr>" using t fr by (auto simp: take_chunk_def)
  have st: "sp_free sp' = (sp_free sp)(s := fs)" "slab_cap sp' = slab_cap sp" "sp_empty sp' = sp_empty sp"
    "sp_nr_empty sp' = sp_nr_empty sp" "sp_half sp' = (if fs = [] then hs else s # hs)"
    using h by (auto simp: sp' sp1 slab_cap_def)
  have "sp_inv (insert s own) sp'"
    by (rule sp_inv_change [OF inv]) (use D(1-4) s ne fr h st D(7,8) [OF s(1)] in \<open>auto split: if_splits\<close>)
  then have "sp_inv own sp'" using s(1) by (simp add: insert_absorb)
  then show ?thesis using take_chunk_live [OF inv s(1) fr st(1,2)] x by simp
qed

lemma take_empty_inv:
  assumes inv: "sp_inv own sp" and h: "sp_half sp = []" "sp_empty sp = s # es" and t: "take_chunk s sp = (sp1, x)"
    and sp': "sp' = sp1\<lparr>sp_empty := tl (sp_empty sp1), sp_half := s # sp_half sp1, sp_nr_empty := sp_nr_empty sp1 - 1\<rparr>"
  shows "sp_inv own sp' \<and> x \<notin> sp_live own sp \<and> sp_live own sp' = insert x (sp_live own sp)"
proof -
  note D = sp_invD [OF inv]
  have s: "s \<in> own" "s \<notin> set es" "distinct es" using D(3,5) h by auto
  have ne: "length (sp_free sp s) = slab_cap sp" using D(9) [OF s(1)] h by auto
  then obtain c fs where fr: "sp_free sp s = c # fs" using D(1) by (cases "sp_free sp s") auto
  have x: "x = (s, c)" and sp1: "sp1 = sp\<lparr>sp_free := (sp_free sp)(s := fs)\<rparr>" using t fr by (auto simp: take_chunk_def)
  have st: "sp_free sp' = (sp_free sp)(s := fs)" "slab_cap sp' = slab_cap sp" "sp_empty sp' = es"
    "sp_nr_empty sp' = sp_nr_empty sp - 1" "sp_half sp' = [s]"
    using h by (auto simp: sp' sp1 slab_cap_def)
  have len: "Suc (length fs) = slab_cap sp" using ne fr by simp
  have "sp_inv (insert s own) sp'"
    by (rule sp_inv_change [OF inv]) (use D(1-4) s len fr h st D(7,8) [OF s(1)] in \<open>auto split: if_splits\<close>)
  then have "sp_inv own sp'" using s(1) by (simp add: insert_absorb)
  then show ?thesis using take_chunk_live [OF inv s(1) fr st(1,2)] x by simp
qed

text \<open>
  \<open>SlabPool::Alloc\<close> hands out a chunk that is not in use; a new slab, if one is needed,
  was not in use by any pool.
\<close>

lemma count_used_same [simp]:
  "sp_empty (count_used d sp) = sp_empty sp" "sp_half (count_used d sp) = sp_half sp" "sp_free (count_used d sp) = sp_free sp"
  "sp_nr_empty (count_used d sp) = sp_nr_empty sp" "sp_chunk (count_used d sp) = sp_chunk sp" "sp_node (count_used d sp) = sp_node sp"
  "slab_cap (count_used d sp) = slab_cap sp"
  by (simp_all add: count_used_def Let_def slab_cap_def)

lemma sp_count_used [simp]: "sp_inv own (count_used d sp) = sp_inv own sp" "sp_live own (count_used d sp) = sp_live own sp"
  by (simp_all add: sp_inv_def sp_live_def)

lemma SlabPool_Alloc_inv:
  assumes inv: "sp_inv own sp" "mems_inv ns ms" "own \<subseteq> mems_live ns ms" "sp_node sp < length ms" "0 < sp_chunk sp"
    and a: "SlabPool_Alloc sp ms = Inr (sp', ms', r)"
  shows "\<exists>own' x. r = Some x \<and> sp_inv own' sp' \<and> mems_inv ns ms' \<and> own' \<subseteq> mems_live ns ms'
    \<and> own \<subseteq> own' \<and> own' - own \<subseteq> - mems_live ns ms \<and> x \<notin> sp_live own sp \<and> sp_live own' sp' = insert x (sp_live own sp)"
proof -
  let ?sp = "count_used (int (sp_chunk sp)) sp"
  have i: "sp_inv own ?sp" using inv(1) by simp
  show ?thesis
  proof (cases "sp_half sp")
    case (Cons s hs)
    obtain sp1 x where t: "take_chunk s ?sp = (sp1, x)" by (cases "take_chunk s ?sp")
    have e: "sp' = (if sp_free sp1 s = [] then sp1\<lparr>sp_half := tl (sp_half sp1)\<rparr> else sp1)" "ms' = ms" "r = Some x"
      using a inv(5) Cons t by (auto simp: SlabPool_Alloc_def Let_def)
    have "sp_inv own sp' \<and> x \<notin> sp_live own ?sp \<and> sp_live own sp' = insert x (sp_live own ?sp)"
      by (rule take_half_inv [OF i _ t e(1)]) (use Cons in simp)
    then show ?thesis using inv(2,3) e by (intro exI [of _ own] exI [of _ x]) simp
  next
    case half: Nil
    have "res_bind (if sp_empty sp = [] then RefillSlab ?sp ms else Inr (?sp, ms, hd (sp_empty sp))) (\<lambda>(sp1, ms1, s).
        let (sp2, c) = take_chunk s sp1 in
        Inr (sp2\<lparr>sp_empty := tl (sp_empty sp2), sp_half := s # sp_half sp2, sp_nr_empty := sp_nr_empty sp2 - 1\<rparr>, ms1, Some c))
      = Inr (sp', ms', r)"
      using a inv(5) half by (cases "sp_empty sp = []") (simp_all add: SlabPool_Alloc_def Let_def)
    then obtain y where y: "(if sp_empty sp = [] then RefillSlab ?sp ms else Inr (?sp, ms, hd (sp_empty sp))) = Inr y"
      "(\<lambda>(sp1, ms1, s). let (sp2, c) = take_chunk s sp1 in
        Inr (sp2\<lparr>sp_empty := tl (sp_empty sp2), sp_half := s # sp_half sp2, sp_nr_empty := sp_nr_empty sp2 - 1\<rparr>, ms1, Some c)) y
        = (Inr (sp', ms', r) :: (slab_pool \<times> slab_memory list \<times> (slab_id \<times> nat) option) res)"
      unfolding res_bind_Inr_iff by blast
    obtain sp1 ms1 s where y': "y = (sp1, ms1, s)" by (cases y)
    note r1 = y(1) [unfolded y']
    obtain sp2 x where t: "take_chunk s sp1 = (sp2, x)" by (cases "take_chunk s sp1")
    have e: "sp' = sp2\<lparr>sp_empty := tl (sp_empty sp2), sp_half := s # sp_half sp2, sp_nr_empty := sp_nr_empty sp2 - 1\<rparr>" "ms' = ms1" "r = Some x"
      using y(2) t by (auto simp: y')
    show ?thesis
    proof (cases "sp_empty sp")
      case (Cons u es)
      then have q: "sp1 = ?sp" "ms1 = ms" "s = u" using r1 by auto
      have "sp_inv own sp' \<and> x \<notin> sp_live own ?sp \<and> sp_live own sp' = insert x (sp_live own ?sp)"
        by (rule take_empty_inv [OF i _ _ t [unfolded q] e(1) [unfolded q]]) (use Cons half in simp_all)
      then show ?thesis using inv(2,3) e q by (intro exI [of _ own] exI [of _ x]) simp
    next
      case Nil
      then have rf: "RefillSlab ?sp ms = Inr (sp1, ms1, s)" using r1 by simp
      have "sp_node ?sp < length ms" using inv(4) by simp
      note R = RefillSlab_inv [OF i inv(2,3) this rf]
      have R1: "sp_inv (insert s own) sp1" "sp_half sp1 = []" "sp_empty sp1 = s # sp_empty ?sp" using R half by simp_all
      have "sp_inv (insert s own) sp' \<and> x \<notin> sp_live (insert s own) sp1 \<and> sp_live (insert s own) sp' = insert x (sp_live (insert s own) sp1)"
        by (rule take_empty_inv [OF R1 t e(1)])
      moreover have "s \<notin> mems_live ns ms"
      proof -
        have "set (sp_node ?sp # [0..<length ms]) \<subseteq> {..<length ms}" using inv(4) by auto
        moreover have "refill_from (is_large_slab ?sp) (sp_node ?sp # [0..<length ms]) ms = Some (ms1, s)"
          using rf by (auto simp: RefillSlab_def split: option.splits prod.splits)
        ultimately show ?thesis using refill_from_fresh [OF inv(2)] by blast
      qed
      ultimately show ?thesis using R e by (intro exI [of _ "insert s own"] exI [of _ x]) auto
    qed
  qed
qed

text \<open>
  \<open>SlabPool::Free\<close> of a chunk in use makes exactly that chunk free, and the pool keeps at
  most \<open>nr_buffer\<close> empty slabs.
\<close>

lemma ReturnSlab_inv:
  assumes inv: "sp_inv own sp" "mems_inv ns ms" "own \<subseteq> mems_live ns ms" "sp_empty sp \<noteq> []"
    and r: "ReturnSlab sp ms = (sp', ms')"
  shows "\<exists>own'\<subseteq>own. sp_inv own' sp' \<and> mems_inv ns ms' \<and> own' \<subseteq> mems_live ns ms' \<and> sp_live own' sp' = sp_live own sp"
proof -
  note D = sp_invD [OF inv(1)]
  obtain n m i where l: "last (sp_empty sp) = (n, m, i)" by (metis prod_cases3)
  let ?s = "(n, m, i)"
  have s: "?s \<in> set (sp_empty sp)" using l inv(4) last_in_set by fastforce
  then have o: "?s \<in> own" using D(5) by auto
  then have lv: "n < length ms" "(m, i) \<in> slab_live (ns ! n) (ms ! n)" using inv(3) by (auto simp: mems_live_def)
  have e: "sp' = sp\<lparr>sp_empty := butlast (sp_empty sp), sp_nr_empty := sp_nr_empty sp - 1\<rparr>" "ms' = ms[n := FreeSlab m i (ms ! n)]"
    using r l by (auto simp: ReturnSlab_def)
  have F: "slabmem_inv (ns ! n) (FreeSlab m i (ms ! n))"
    "slab_live (ns ! n) (FreeSlab m i (ms ! n)) = slab_live (ns ! n) (ms ! n) - {(m, i)}"
    using FreeSlab_inv [OF _ lv(2)] inv(2) lv(1) by (auto simp: mems_inv_def)
  have ab: "sp_empty sp = butlast (sp_empty sp) @ [?s]" using inv(4) l by (metis append_butlast_last_id)
  have "distinct (butlast (sp_empty sp) @ [?s])" using D(3) by (subst (asm) ab)
  moreover have "set (sp_empty sp) = insert ?s (set (butlast (sp_empty sp)))" by (subst ab) simp
  ultimately have bl: "distinct (butlast (sp_empty sp))" "\<And>u. u \<in> set (butlast (sp_empty sp)) \<longleftrightarrow> u \<in> set (sp_empty sp) \<and> u \<noteq> ?s"
    by auto
  have ns: "?s \<notin> set (sp_half sp)" using D(9,10) [OF o] s by auto
  have cap: "slab_cap sp' = slab_cap sp" by (simp add: e slab_cap_def)
  have "sp_inv (own - {?s}) sp'"
    unfolding sp_inv_def
  proof (intro conjI ballI)
    show "sp_nr_empty sp' = length (sp_empty sp')" using D(2) by (simp add: e)
    show "set (sp_empty sp') \<union> set (sp_half sp') \<subseteq> own - {?s}" using bl(2) D(5,6) ns by (auto simp: e)
    fix u assume u: "u \<in> own - {?s}"
    then have uo: "u \<in> own" "u \<noteq> ?s" by auto
    show "distinct (sp_free sp' u)" "set (sp_free sp' u) \<subseteq> {..<slab_cap sp'}"
      "u \<in> set (sp_empty sp') \<longleftrightarrow> length (sp_free sp' u) = slab_cap sp'"
      "u \<in> set (sp_half sp') \<longleftrightarrow> 0 < length (sp_free sp' u) \<and> length (sp_free sp' u) < slab_cap sp'"
      unfolding cap using D(7-10) [OF uo(1)] bl(2) [of u] uo(2) by (simp_all add: e)
  qed (use D(1,4) bl(1) in \<open>simp_all add: cap, simp_all add: e\<close>)
  moreover have "mems_inv ns ms'" using inv(2) F(1) lv(1) by (simp add: mems_inv_def e nth_list_update)
  moreover have "own - {?s} \<subseteq> mems_live ns ms'"
  proof
    fix u assume u: "u \<in> own - {?s}"
    obtain k t where kt: "u = (k, t)" by (cases u)
    then have "k < length ms" "t \<in> slab_live (ns ! k) (ms ! k)" using u inv(3) by (auto simp: mems_live_def)
    then show "u \<in> mems_live ns ms'" using u kt F(2) lv(1) by (cases "k = n") (auto simp: mems_live_def e)
  qed
  moreover have "(u, c) \<in> sp_live (own - {?s}) sp' \<longleftrightarrow> (u, c) \<in> sp_live own sp" for u c
  proof (cases "u = ?s")
    case True
    have "length (sp_free sp ?s) = slab_cap sp" using D(9) [OF o] s by simp
    then have "set (sp_free sp ?s) = {..<slab_cap sp}"
      using D(7,8) [OF o] by (metis card_lessThan card_subset_eq distinct_card finite_lessThan)
    then show ?thesis using True by (simp add: sp_live_def)
  next
    case False
    then show ?thesis by (simp add: sp_live_def cap) (simp add: e)
  qed
  then have "sp_live (own - {?s}) sp' = sp_live own sp" by auto
  ultimately show ?thesis by (intro exI [of _ "own - {?s}"]) auto
qed

lemma SlabPool_Free_inv:
  assumes inv: "sp_inv own sp" "mems_inv ns ms" "own \<subseteq> mems_live ns ms" and c: "(s, c) \<in> sp_live own sp"
    and f: "SlabPool_Free s c sp ms = (sp', ms')"
  shows "\<exists>own'\<subseteq>own. sp_inv own' sp' \<and> mems_inv ns ms' \<and> own' \<subseteq> mems_live ns ms' \<and> sp_live own' sp' = sp_live own sp - {(s, c)}"
    "sp_nr_empty sp \<le> sp_nr_buffer sp \<Longrightarrow> sp_nr_empty sp' \<le> sp_nr_buffer sp'"
proof -
  note D = sp_invD [OF inv(1)]
  have o: "s \<in> own" "c < slab_cap sp" "c \<notin> set (sp_free sp s)" using c by (auto simp: sp_live_def)
  note S = D(7-10) [OF o(1)]
  let ?f = "c # sp_free sp s"
  have "length ?f \<le> slab_cap sp"
    using card_mono [of "{..<slab_cap sp}" "set ?f"] o S(1,2) distinct_card [of ?f] by simp
  then have ne: "s \<notin> set (sp_empty sp)" using S(3) by auto
  have half: "s \<in> set (sp_half sp) \<longleftrightarrow> sp_free sp s \<noteq> []" using S(4) \<open>length ?f \<le> _\<close> by auto
  define spa where "spa = sp\<lparr>sp_used := sp_used sp - int (sp_chunk sp), sp_free := (sp_free sp)(s := ?f)\<rparr>"
  define sp1 where "sp1 = (if s \<notin> set (sp_half spa) \<and> s \<notin> set (sp_empty spa) then spa\<lparr>sp_half := s # sp_half spa\<rparr> else spa)"
  define sp2 where "sp2 = (if length (sp_free sp1 s) = slab_cap sp1
                 then sp1\<lparr>sp_half := removeAll s (sp_half sp1), sp_empty := s # removeAll s (sp_empty sp1),
                          sp_nr_empty := sp_nr_empty sp1 + 1\<rparr>
                 else sp1)"
  have run: "(if sp_nr_empty sp2 > sp_nr_buffer sp2 then ReturnSlab sp2 ms else (sp2, ms)) = (sp', ms')"
    using f unfolding SlabPool_Free_def Let_def sp2_def sp1_def spa_def .
  have s1: "sp_free sp1 = (sp_free sp)(s := ?f)" "slab_cap sp1 = slab_cap sp" "sp_empty sp1 = sp_empty sp"
    "sp_nr_empty sp1 = sp_nr_empty sp" "sp_half sp1 = (if sp_free sp s = [] then s # sp_half sp else sp_half sp)"
    using half ne by (auto simp: sp1_def spa_def slab_cap_def)
  have s2: "sp_free sp2 = (sp_free sp)(s := ?f)" "slab_cap sp2 = slab_cap sp" "sp_nr_buffer sp2 = sp_nr_buffer sp"
    "length ?f = slab_cap sp \<Longrightarrow> sp_empty sp2 = s # sp_empty sp \<and> sp_half sp2 = removeAll s (sp_half sp) \<and> sp_nr_empty sp2 = sp_nr_empty sp + 1"
    "length ?f \<noteq> slab_cap sp \<Longrightarrow> sp_empty sp2 = sp_empty sp \<and> sp_half sp2 = sp_half sp1 \<and> sp_nr_empty sp2 = sp_nr_empty sp"
    using s1 ne D(1) by (auto simp: sp2_def slab_cap_def sp1_def spa_def)
  have "sp_inv (insert s own) sp2"
    by (rule sp_inv_change [OF inv(1)])
      (use D(1-4) S o ne half s1(5) s2 \<open>length ?f \<le> _\<close> in \<open>cases "length ?f = slab_cap sp"; auto simp: distinct_removeAll split: if_splits\<close>)+
  then have i2: "sp_inv own sp2" using o(1) by (simp add: insert_absorb)
  have "(u, x) \<in> sp_live own sp2 \<longleftrightarrow> (u, x) \<in> sp_live own sp - {(s, c)}" for u x
    using o by (cases "u = s") (auto simp: sp_live_def s2)
  then have l2: "sp_live own sp2 = sp_live own sp - {(s, c)}" by auto
  show "\<exists>own'\<subseteq>own. sp_inv own' sp' \<and> mems_inv ns ms' \<and> own' \<subseteq> mems_live ns ms' \<and> sp_live own' sp' = sp_live own sp - {(s, c)}"
  proof (cases "sp_nr_empty sp2 > sp_nr_buffer sp2")
    case True
    then have "sp_empty sp2 \<noteq> []" using sp_invD(2) [OF i2] by auto
    then show ?thesis using ReturnSlab_inv [OF i2 inv(2,3) _, of sp' ms'] run True l2 by simp
  next
    case False
    then show ?thesis using run i2 l2 inv(2,3) by (intro exI [of _ own]) simp
  qed
  assume "sp_nr_empty sp \<le> sp_nr_buffer sp"
  then have "sp_nr_empty sp2 \<le> sp_nr_buffer sp2 + 1" using s2(3-5) by (cases "length ?f = slab_cap sp") auto
  then show "sp_nr_empty sp' \<le> sp_nr_buffer sp'" using run by (auto simp: ReturnSlab_def split: if_splits prod.splits)
qed

end
