(* ===== verification/Mem_Region.thy ===== *)
theory Mem_Region
  imports Mem_SlabPool
begin

text \<open>
  Allocation by many cores, \<^verbatim>\<open>src/mem.h\<close> and \<^verbatim>\<open>src/mem.cc\<close>: every core has a pool of
  its own (\<open>ParallelAllocator\<close>). A chunk that another core frees is put on a list of that
  core; at a quiescent point the owner collects these lists (\<open>Quiescence\<close>) and reuses
  their chunks before it touches its pool. \<open>ParallelRegion\<close> picks an allocator by size.
  The lists are threaded through the chunks; here they are lists of addresses, with the
  tail pointers of the source as their last elements.
\<close>

section \<open>Size classes\<close>

definition kMaxPools :: nat where "kMaxPools = 20"

text \<open>\<open>sz - 1\<close> wraps for 0; \<open>__builtin_clzl\<close> is not defined for 0.\<close>

definition SizeToClass :: "nat \<Rightarrow> int res" where
  "SizeToClass sz =
     (let x = (sz + 2 ^ 64 - 1) mod 2 ^ 64 in
      if x = 0 then Inl OutOfBounds
      else let idx = 64 - int (clz64 x) - 5 in
           Inr (if idx \<ge> int kMaxPools then -1 else if idx < 0 then 0 else idx))"

text \<open>The class of a size is the smallest power of two from 32 on that holds it.\<close>

lemma SizeToClass_least:
  assumes "1 < sz" "sz < 2 ^ 64"
  shows "SizeToClass sz = Inr (if sz \<le> 2 ^ 24 then int (LEAST k. sz \<le> 2 ^ (k + 5)) else -1)"
proof -
  let ?b = "bit_len (sz - 1)"
  have "(sz + 2 ^ 64 - 1) mod 2 ^ 64 = ((sz - 1) + 2 ^ 64) mod 2 ^ 64" using assms(1) by simp
  also have "\<dots> = sz - 1" using assms(2) by (simp only: mod_add_self2) simp
  finally have x: "(sz + 2 ^ 64 - 1) mod 2 ^ 64 = sz - 1" .
  have b: "2 ^ (?b - 1) \<le> sz - 1" "sz - 1 < 2 ^ ?b" "0 < ?b" using bit_len_bounds [of "sz - 1"] bit_len_pos [of "sz - 1"] assms(1) by auto
  have b64: "?b \<le> 64" using bit_len_le [of "sz - 1" 64] assms by simp
  have idx: "64 - int (clz64 (sz - 1)) - 5 = int ?b - 5" using b64 by (simp add: clz64_def of_nat_diff)
  have le: "sz \<le> 2 ^ j \<longleftrightarrow> ?b \<le> j" for j
  proof
    assume "sz \<le> 2 ^ j"
    then have "sz - 1 < 2 ^ j" using assms(1) by simp
    then show "?b \<le> j" by (rule bit_len_le)
  next
    assume "?b \<le> j"
    then have "(2::nat) ^ ?b \<le> 2 ^ j" by (rule power_increasing) simp
    then show "sz \<le> 2 ^ j" using b(2) by linarith
  qed
  have least: "(LEAST k. sz \<le> 2 ^ (k + 5)) = ?b - 5"
    unfolding le by (rule Least_equality) auto
  have "SizeToClass sz = Inr (if int ?b - 5 \<ge> int kMaxPools then -1 else if int ?b - 5 < 0 then 0 else int ?b - 5)"
    using assms(1) unfolding SizeToClass_def x Let_def idx by simp
  moreover have "int ?b - 5 \<ge> int kMaxPools \<longleftrightarrow> \<not> sz \<le> 2 ^ 24" unfolding le by (auto simp: kMaxPools_def)
  moreover have "(if int ?b - 5 < 0 then 0 else int ?b - 5) = int (?b - 5)" by auto
  ultimately show ?thesis unfolding least by simp
qed

section \<open>The allocator of all cores\<close>

record csld =
  dice :: nat
  cbitmap :: u64
  heads :: "nat list list"

record 'p palloc =
  pools :: "'p list"
  free_lists :: "nat list list list"
  cslds :: "csld list"

definition kMaxNrPools :: nat where "kMaxNrPools = 64"

definition ParallelAllocator :: "'p list \<Rightarrow> 'p palloc" where
  "ParallelAllocator ps = \<lparr>pools = ps, free_lists = replicate (length ps) (replicate kMaxNrPools []),
     cslds = replicate (length ps) \<lparr>dice = 0, cbitmap = 0, heads = replicate kMaxNrPools []\<rparr>\<rparr>"

text \<open>The list that \<open>Alloc\<close> takes the next chunk from: the first one at or after the last, in a circle.\<close>

definition next_dice :: "csld \<Rightarrow> nat" where
  "next_dice c = (let n = drop_bit (dice c) (cbitmap c) in if n = 0 then ctz (cbitmap c) else ctz n + dice c)"

definition PA_Alloc :: "('p \<Rightarrow> ('p \<times> nat) res) \<Rightarrow> nat \<Rightarrow> 'p palloc \<Rightarrow> ('p palloc \<times> nat) res" where
  "PA_Alloc pool_Alloc cur a =
     (let c = cslds a ! cur in
      if cbitmap c \<noteq> 0 then
        let d = next_dice c in
        (case heads c ! d of
           [] \<Rightarrow> Inl OutOfBounds
         | p # rest \<Rightarrow>
             Inr (a\<lparr>cslds := (cslds a)[cur := \<lparr>dice = d, cbitmap = (if rest = [] then clear_idx d (cbitmap c) else cbitmap c),
                                      heads = (heads c)[d := rest]\<rparr>]\<rparr>, p))
      else res_bind (pool_Alloc (pools a ! cur)) (\<lambda>(p', x). Inr (a\<lparr>pools := (pools a)[cur := p']\<rparr>, x)))"

definition PA_Free :: "(nat \<Rightarrow> 'p \<Rightarrow> 'p res) \<Rightarrow> nat \<Rightarrow> nat \<Rightarrow> int \<Rightarrow> 'p palloc \<Rightarrow> 'p palloc res" where
  "PA_Free pool_Free cur ptr alloc_core a =
     (if alloc_core < 0 \<or> alloc_core \<ge> int kMaxNrPools then Inl (Abort ''alloc_core error'')
      else if alloc_core \<ge> int (length (pools a)) \<and> int cur \<noteq> alloc_core then Inl (Abort ''alloc_core is not current core'')
      else if int cur = alloc_core then
        res_bind (pool_Free ptr (pools a ! cur)) (\<lambda>p'. Inr (a\<lparr>pools := (pools a)[cur := p']\<rparr>))
      else let k = nat alloc_core; row = free_lists a ! cur in
           Inr (a\<lparr>free_lists := (free_lists a)[cur := row[k := ptr # row ! k]]\<rparr>))"

definition collect_list :: "nat \<Rightarrow> nat \<Rightarrow> 'p palloc \<Rightarrow> 'p palloc" where
  "collect_list cur i a =
     (let fl = free_lists a ! i ! cur; c = cslds a ! cur in
      if fl \<noteq> [] then
        a\<lparr>cslds := (cslds a)[cur := c\<lparr>cbitmap := or_idx i (cbitmap c), heads := (heads c)[i := fl @ heads c ! i]\<rparr>],
          free_lists := (free_lists a)[i := (free_lists a ! i)[cur := []]]\<rparr>
      else a)"

definition Quiescence :: "nat \<Rightarrow> 'p palloc \<Rightarrow> 'p palloc" where
  "Quiescence cur a = fold (collect_list cur) [0..<length (pools a)] a"

section \<open>The interface of a pool\<close>

locale chunk_pool =
  fixes plive :: "'p \<Rightarrow> nat set \<Rightarrow> bool"
    and pool_Alloc :: "'p \<Rightarrow> ('p \<times> nat) res"
    and pool_Free :: "nat \<Rightarrow> 'p \<Rightarrow> 'p res"
  assumes alloc_ok: "plive p L \<Longrightarrow> \<exists>p' x. pool_Alloc p = Inr (p', x) \<and>
      (x = 0 \<and> plive p' L \<or> x \<noteq> 0 \<and> x \<notin> L \<and> plive p' (insert x L))"
    and free_ok: "plive p L \<Longrightarrow> x \<in> L \<Longrightarrow> \<exists>p'. pool_Free x p = Inr p' \<and> plive p' (L - {x})"
    and live_ok: "plive p L \<Longrightarrow> finite L \<and> 0 \<notin> L"
begin

text \<open>
  The chunks of core \<open>k\<close> that were freed and wait on some list, and the invariant: what
  the pool of \<open>k\<close> gave out is with the users (\<open>U k\<close>) or waits on a list, never both.
\<close>

definition waiting :: "'p palloc \<Rightarrow> nat \<Rightarrow> nat multiset" where
  "waiting a k = (\<Sum>i<length (pools a). mset (free_lists a ! i ! k)) + (\<Sum>i<length (pools a). mset (heads (cslds a ! k) ! i))"

definition shape :: "'p palloc \<Rightarrow> bool" where
  "shape a \<longleftrightarrow> length (pools a) < 32 \<and> length (free_lists a) = length (pools a) \<and> length (cslds a) = length (pools a)
     \<and> (\<forall>i<length (pools a). length (free_lists a ! i) = kMaxNrPools \<and> length (heads (cslds a ! i)) = kMaxNrPools
          \<and> (\<forall>j. bit (cbitmap (cslds a ! i)) j \<longleftrightarrow> j < length (pools a) \<and> heads (cslds a ! i) ! j \<noteq> []))"

definition pa_inv :: "(nat \<Rightarrow> nat set) \<Rightarrow> 'p palloc \<Rightarrow> bool" where
  "pa_inv U a \<longleftrightarrow> shape a \<and> (\<forall>k<length (pools a). finite (U k)
     \<and> (\<exists>L. plive (pools a ! k) L \<and> mset_set L = mset_set (U k) + waiting a k))"

lemma shape_csld:
  assumes "shape a" "cur < length (pools a)" "length (heads c) = kMaxNrPools"
    and "\<And>j. bit (cbitmap c) j \<longleftrightarrow> j < length (pools a) \<and> heads c ! j \<noteq> []"
  shows "shape (a\<lparr>cslds := (cslds a)[cur := c]\<rparr>)"
  unfolding shape_def
proof (intro conjI allI impI)
  fix i j
  assume i: "i < length (pools (a\<lparr>cslds := (cslds a)[cur := c]\<rparr>))"
  show "length (heads (cslds (a\<lparr>cslds := (cslds a)[cur := c]\<rparr>) ! i)) = kMaxNrPools"
    using assms(1-3) i by (cases "i = cur") (simp_all add: shape_def)
  show "bit (cbitmap (cslds (a\<lparr>cslds := (cslds a)[cur := c]\<rparr>) ! i)) j \<longleftrightarrow>
      j < length (pools (a\<lparr>cslds := (cslds a)[cur := c]\<rparr>)) \<and> heads (cslds (a\<lparr>cslds := (cslds a)[cur := c]\<rparr>) ! i) ! j \<noteq> []"
    using assms(1,2,4) i by (cases "i = cur") (simp_all add: shape_def)
qed (use assms(1) in \<open>simp_all add: shape_def\<close>)

lemma shape_free_list:
  assumes "shape a" "length row = kMaxNrPools"
  shows "shape (a\<lparr>free_lists := (free_lists a)[i := row]\<rparr>)"
proof (cases "i < length (free_lists a)")
  case True
  then show ?thesis using assms by (auto simp: shape_def nth_list_update)
qed (use assms in \<open>simp add: list_update_beyond\<close>)

lemma waiting_pools [simp]: "waiting (a\<lparr>pools := (pools a)[i := p]\<rparr>) k = waiting a k"
  by (simp add: waiting_def)

lemma sum_one: "j < (n::nat) \<Longrightarrow> (\<Sum>i<n. f i) = f j + (\<Sum>i\<in>{..<n} - {j}. f i)" for f :: "nat \<Rightarrow> nat multiset"
  by (simp add: sum.remove)

lemma next_dice_bit:
  assumes "cbitmap c \<noteq> 0"
  shows "bit (cbitmap c) (next_dice c)"
proof (cases "drop_bit (dice c) (cbitmap c) = 0")
  case True
  then show ?thesis using ctz_bit [OF assms] by (simp add: next_dice_def)
next
  case False
  have "bit (drop_bit (dice c) (cbitmap c)) (ctz (drop_bit (dice c) (cbitmap c)))" using ctz_bit [OF False] by blast
  then show ?thesis using False by (simp add: next_dice_def Let_def bit_drop_bit_eq add.commute)
qed

lemma PA_Alloc_inv:
  assumes inv: "pa_inv U a" and cur: "cur < length (pools a)"
  shows "\<exists>a' x. PA_Alloc pool_Alloc cur a = Inr (a', x) \<and>
    (x = 0 \<and> pa_inv U a' \<or> x \<noteq> 0 \<and> x \<notin> U cur \<and> pa_inv (U(cur := insert x (U cur))) a')"
proof (cases "cbitmap (cslds a ! cur) = 0")
  case True
  obtain L where L: "plive (pools a ! cur) L" "mset_set L = mset_set (U cur) + waiting a cur" and fin: "finite (U cur)"
    using inv cur by (auto simp: pa_inv_def)
  obtain p' x where p: "pool_Alloc (pools a ! cur) = Inr (p', x)"
    "x = 0 \<and> plive p' L \<or> x \<noteq> 0 \<and> x \<notin> L \<and> plive p' (insert x L)" using alloc_ok [OF L(1)] by blast
  let ?a = "a\<lparr>pools := (pools a)[cur := p']\<rparr>"
  have run: "PA_Alloc pool_Alloc cur a = Inr (?a, x)" using True p(1) by (simp add: PA_Alloc_def Let_def)
  have sh: "shape ?a" using inv by (simp add: pa_inv_def shape_def)
  have keep: "k < length (pools a) \<Longrightarrow> k \<noteq> cur \<Longrightarrow> finite (U k) \<and> (\<exists>L. plive (pools ?a ! k) L \<and> mset_set L = mset_set (U k) + waiting ?a k)" for k
    using inv unfolding pa_inv_def by simp
  show ?thesis
  proof (cases "x = 0")
    case True
    then have "\<exists>L. plive (pools ?a ! cur) L \<and> mset_set L = mset_set (U cur) + waiting ?a cur" using p(2) L(2) cur by auto
    then have "pa_inv U ?a" unfolding pa_inv_def using sh keep fin by (metis length_list_update palloc.select_convs(1) palloc.surjective palloc.update_convs(1))
    then show ?thesis using run True by blast
  next
    case False
    then have x: "x \<notin> L" "plive p' (insert x L)" using p(2) by auto
    have finL: "finite L" using live_ok [OF L(1)] by simp
    have "set_mset (mset_set L) = L" using finL by simp
    then have xU: "x \<notin> U cur" using x(1) L(2) fin by (metis UnCI finite_set_mset_mset_set set_mset_union)
    have "mset_set (insert x L) = mset_set (insert x (U cur)) + waiting a cur" using x(1) xU finL fin L(2) by simp
    then have "\<exists>L. plive (pools ?a ! cur) L \<and> mset_set L = mset_set (insert x (U cur)) + waiting ?a cur" using x(2) cur by auto
    then have "pa_inv (U(cur := insert x (U cur))) ?a" unfolding pa_inv_def using sh keep fin by auto
    then show ?thesis using run False xU by blast
  qed
next
  case False
  let ?c = "cslds a ! cur" and ?n = "length (pools a)"
  let ?d = "next_dice ?c"
  have S: "shape a" using inv by (simp add: pa_inv_def)
  have bits: "bit (cbitmap ?c) j \<longleftrightarrow> j < ?n \<and> heads ?c ! j \<noteq> []" for j using S cur by (simp add: shape_def)
  have d: "?d < ?n" "heads ?c ! ?d \<noteq> []" using next_dice_bit [OF False] bits by auto
  then obtain x rest where h: "heads ?c ! ?d = x # rest" by (cases "heads ?c ! ?d") auto
  have lh: "length (heads ?c) = kMaxNrPools" "?n < 32" using S cur by (simp_all add: shape_def)
  then have dl: "?d < length (heads ?c)" using d(1) by (simp add: kMaxNrPools_def)
  define c' where "c' = \<lparr>dice = ?d, cbitmap = (if rest = [] then clear_idx ?d (cbitmap ?c) else cbitmap ?c), heads = (heads ?c)[?d := rest]\<rparr>"
  let ?a = "a\<lparr>cslds := (cslds a)[cur := c']\<rparr>"
  have run: "PA_Alloc pool_Alloc cur a = Inr (?a, x)" using False h by (simp add: PA_Alloc_def Let_def c'_def)
  have bits': "bit (cbitmap c') j \<longleftrightarrow> j < ?n \<and> heads c' ! j \<noteq> []" for j
    using bits [of j] h dl d lh by (cases "j = ?d") (auto simp: c'_def bit_clear_idx min_def split: if_splits)
  have lc: "length (cslds a) = ?n" using S by (simp add: shape_def)
  have "length (heads c') = kMaxNrPools" using lh(1) by (simp add: c'_def)
  then have sh: "shape ?a" using shape_csld [OF S cur] bits' by blast
  have w: "waiting a cur = waiting ?a cur + {#x#}"
    using sum_one [OF d(1), of "\<lambda>i. mset (heads ?c ! i)"] sum_one [OF d(1), of "\<lambda>i. mset (heads c' ! i)"] h dl cur lc
    by (simp add: waiting_def c'_def)
  have wk: "waiting ?a k = waiting a k" if "k \<noteq> cur" for k using that by (simp add: waiting_def)
  obtain L where L: "plive (pools a ! cur) L" "mset_set L = mset_set (U cur) + waiting a cur" and fin: "finite (U cur)"
    using inv cur by (auto simp: pa_inv_def)
  have finL: "finite L" "0 \<notin> L" using live_ok [OF L(1)] by auto
  have "x \<in># mset_set L" using L(2) w by simp
  then have xL: "x \<in> L" using finL by simp
  have "count (mset_set L) x = 1" using xL finL by simp
  then have xU: "x \<notin> U cur" using L(2) w fin by (auto simp: count_mset_set')
  have "mset_set L = mset_set (insert x (U cur)) + waiting ?a cur" using L(2) w xU fin by simp
  then have "pa_inv (U(cur := insert x (U cur))) ?a"
    unfolding pa_inv_def using sh inv wk L(1) fin by (auto simp: pa_inv_def)
  then show ?thesis using run xU xL finL by (metis)
qed

lemma PA_Free_inv:
  assumes inv: "pa_inv U a" and cur: "cur < length (pools a)" and k: "k < length (pools a)" and x: "x \<in> U k"
  shows "\<exists>a'. PA_Free pool_Free cur x (int k) a = Inr a' \<and> pa_inv (U(k := U k - {x})) a'"
proof -
  have S: "shape a" using inv by (simp add: pa_inv_def)
  obtain L where L: "plive (pools a ! k) L" "mset_set L = mset_set (U k) + waiting a k" and fin: "finite (U k)"
    using inv k by (auto simp: pa_inv_def)
  have finL: "finite L" using live_ok [OF L(1)] by simp
  have "x \<in># mset_set L" using L(2) x fin by simp
  then have xL: "x \<in> L" using finL by simp
  have kb: "int k < int kMaxNrPools" using S k by (simp add: shape_def kMaxNrPools_def)
  show ?thesis
  proof (cases "cur = k")
    case True
    obtain p' where p: "pool_Free x (pools a ! k) = Inr p'" "plive p' (L - {x})" using free_ok [OF L(1) xL] by blast
    let ?a = "a\<lparr>pools := (pools a)[k := p']\<rparr>"
    have run: "PA_Free pool_Free cur x (int k) a = Inr ?a" using True p(1) kb k by (simp add: PA_Free_def)
    have "mset_set (L - {x}) = mset_set (U k - {x}) + waiting ?a k"
      using L(2) x xL fin finL by (simp add: mset_set_Diff)
    moreover have "shape ?a" using S by (simp add: shape_def)
    ultimately have "pa_inv (U(k := U k - {x})) ?a"
      using inv p(2) k fin unfolding pa_inv_def by auto
    then show ?thesis using run by blast
  next
    case False
    let ?row = "free_lists a ! cur"
    let ?a = "a\<lparr>free_lists := (free_lists a)[cur := ?row[k := x # ?row ! k]]\<rparr>"
    have run: "PA_Free pool_Free cur x (int k) a = Inr ?a" using False kb k by (simp add: PA_Free_def Let_def)
    have len: "length (free_lists a) = length (pools a)" "length ?row = kMaxNrPools" using S cur by (simp_all add: shape_def)
    have kr: "k < length ?row" using kb len by simp
    have sh: "shape ?a" using shape_free_list [OF S] len(2) by simp
    have fl: "free_lists ?a ! i ! j = (if i = cur \<and> j = k then x # ?row ! k else free_lists a ! i ! j)" if "i < length (pools a)" for i j
      using that len kr cur by (cases "i = cur"; cases "j = k") auto
    have w: "waiting ?a k = waiting a k + {#x#}"
    proof -
      have "(\<Sum>i<length (pools a). mset (free_lists ?a ! i ! k)) = (\<Sum>i<length (pools a). mset (free_lists a ! i ! k)) + {#x#}"
        using sum_one [OF cur, of "\<lambda>i. mset (free_lists ?a ! i ! k)"] sum_one [OF cur, of "\<lambda>i. mset (free_lists a ! i ! k)"] fl cur
        by (simp add: sum.cong [of "{..<length (pools a)} - {cur}" _ "\<lambda>i. mset (free_lists ?a ! i ! k)" "\<lambda>i. mset (free_lists a ! i ! k)"])
      then show ?thesis by (simp add: waiting_def)
    qed
    have wj: "waiting ?a j = waiting a j" if "j \<noteq> k" for j
      using fl that by (simp add: waiting_def)
    have "mset_set L = mset_set (U k - {x}) + waiting ?a k"
      using L(2) w x fin by (simp add: mset_set.remove)
    then have "pa_inv (U(k := U k - {x})) ?a"
      unfolding pa_inv_def using sh inv wj L(1) fin by (auto simp: pa_inv_def)
    then show ?thesis using run by blast
  qed
qed

lemma collect_list_inv:
  assumes inv: "pa_inv U a" and cur: "cur < length (pools a)" and i: "i < length (pools a)"
  shows "pa_inv U (collect_list cur i a) \<and> length (pools (collect_list cur i a)) = length (pools a)"
proof (cases "free_lists a ! i ! cur = []")
  case True
  then show ?thesis using inv by (simp add: collect_list_def)
next
  case False
  let ?fl = "free_lists a ! i ! cur" and ?c = "cslds a ! cur" and ?n = "length (pools a)"
  define c' where "c' = ?c\<lparr>cbitmap := or_idx i (cbitmap ?c), heads := (heads ?c)[i := ?fl @ heads ?c ! i]\<rparr>"
  define a' where "a' = a\<lparr>cslds := (cslds a)[cur := c'], free_lists := (free_lists a)[i := (free_lists a ! i)[cur := []]]\<rparr>"
  have run: "collect_list cur i a = a'" using False by (simp add: collect_list_def Let_def a'_def c'_def)
  have S: "shape a" using inv by (simp add: pa_inv_def)
  have len: "length (free_lists a) = ?n" "length (cslds a) = ?n" "length (free_lists a ! i) = kMaxNrPools"
    "length (heads ?c) = kMaxNrPools" "?n < 32" using S cur i by (simp_all add: shape_def)
  have il: "i < length (heads ?c)" "cur < length (free_lists a ! i)" using i cur len by (simp_all add: kMaxNrPools_def)
  have "bit (cbitmap c') j \<longleftrightarrow> j < ?n \<and> heads c' ! j \<noteq> []" for j
  proof -
    have "bit (cbitmap ?c) j \<longleftrightarrow> j < ?n \<and> heads ?c ! j \<noteq> []" using S cur by (simp add: shape_def)
    then show ?thesis using False i il len(5) by (cases "j = i") (auto simp: c'_def bit_or_idx)
  qed
  then have "shape (a\<lparr>cslds := (cslds a)[cur := c']\<rparr>)" using len(4) by (intro shape_csld [OF S cur]) (simp_all add: c'_def)
  then have sh: "shape a'" using shape_free_list [of "a\<lparr>cslds := (cslds a)[cur := c']\<rparr>"] len(3) by (simp add: a'_def)
  have fl: "free_lists a' ! x ! y = (if x = i \<and> y = cur then [] else free_lists a ! x ! y)" if "x < ?n" for x y
    using that len il i by (cases "x = i"; cases "y = cur") (auto simp: a'_def)
  have hd': "heads (cslds a' ! k) ! j = (if k = cur \<and> j = i then ?fl @ heads ?c ! i else heads (cslds a ! k) ! j)" if "k < ?n" for k j
    using that len il cur by (cases "k = cur"; cases "j = i") (auto simp: a'_def c'_def)
  have pl: "pools a' = pools a" by (simp add: a'_def)
  have w: "waiting a' k = waiting a k" if k: "k < ?n" for k
  proof (cases "k = cur")
    case True
    have e1: "(\<Sum>x\<in>{..<?n} - {i}. mset (free_lists a' ! x ! k)) = (\<Sum>x\<in>{..<?n} - {i}. mset (free_lists a ! x ! k))"
      using fl by (intro sum.cong) auto
    have e2: "(\<Sum>x\<in>{..<?n} - {i}. mset (heads (cslds a' ! k) ! x)) = (\<Sum>x\<in>{..<?n} - {i}. mset (heads (cslds a ! k) ! x))"
      using hd' [OF k] by (intro sum.cong) auto
    show ?thesis
      unfolding waiting_def pl sum_one [OF i, of "\<lambda>x. mset (free_lists a' ! x ! k)"] sum_one [OF i, of "\<lambda>x. mset (heads (cslds a' ! k) ! x)"]
        sum_one [OF i, of "\<lambda>x. mset (free_lists a ! x ! k)"] sum_one [OF i, of "\<lambda>x. mset (heads (cslds a ! k) ! x)"] e1 e2
      using fl [OF i] hd' [OF k] True by simp
  next
    case False
    then show ?thesis using fl hd' [OF k] by (simp add: waiting_def pl)
  qed
  have "pa_inv U a'" unfolding pa_inv_def pl using sh inv w by (simp add: pa_inv_def)
  then show ?thesis using run pl by simp
qed

lemma Quiescence_inv:
  assumes "pa_inv U a" "cur < length (pools a)"
  shows "pa_inv U (Quiescence cur a)"
proof -
  have "pa_inv U (fold (collect_list cur) [0..<m] a) \<and> length (pools (fold (collect_list cur) [0..<m] a)) = length (pools a)"
    if "m \<le> length (pools a)" for m
    using that
  proof (induction m)
    case (Suc m)
    then show ?case using collect_list_inv [of U "fold (collect_list cur) [0..<m] a" cur m] assms(2) by simp
  qed (use assms in simp)
  then show ?thesis by (simp add: Quiescence_def)
qed

lemma ParallelAllocator_inv:
  assumes "length ps < 32" "\<And>i. i < length ps \<Longrightarrow> plive (ps ! i) {}"
  shows "pa_inv (\<lambda>_. {}) (ParallelAllocator ps)"
  unfolding pa_inv_def
proof (intro conjI allI impI)
  show "shape (ParallelAllocator ps)" using assms(1) by (auto simp: shape_def ParallelAllocator_def kMaxNrPools_def)
  fix k assume k: "k < length (pools (ParallelAllocator ps))"
  then have "waiting (ParallelAllocator ps) k = {#}" using assms(1) by (simp add: waiting_def ParallelAllocator_def kMaxNrPools_def)
  then show "\<exists>L. plive (pools (ParallelAllocator ps) ! k) L \<and> mset_set L = mset_set {} + waiting (ParallelAllocator ps) k"
    using assms(2) k by (intro exI [of _ "{}"]) (simp add: ParallelAllocator_def)
qed simp

end

section \<open>ParallelPool\<close>

text \<open>
  A \<open>ParallelPool\<close> has a \<open>BasicPool\<close> for every core, each with memory of its own. \<open>mem\<close>
  gives the block that \<open>AllocMemory\<close> returned for a node, \<open>header\<close> is \<open>kHeaderSize\<close>.
\<close>

type_synonym basic_pool = "weak_pool \<times> cells"

definition bp_Alloc :: "basic_pool \<Rightarrow> (basic_pool \<times> nat) res" where
  "bp_Alloc = (\<lambda>(p, m). res_bind (BasicPool_Alloc p m) (\<lambda>(p', x). Inr ((p', m), x)))"

definition bp_Free :: "nat \<Rightarrow> basic_pool \<Rightarrow> basic_pool res" where
  "bp_Free x = (\<lambda>(p, m). BasicPool_Free x p m)"

definition bp_live :: "basic_pool \<Rightarrow> nat set \<Rightarrow> bool" where
  "bp_live = (\<lambda>(p, m) L. \<exists>c fl. pool_inv c m p fl \<and> L = set (chunks (pdata p) c (pcapacity p)) - set fl)"

lemma bp_Alloc_live:
  assumes "bp_live p L"
  shows "\<exists>p' x. bp_Alloc p = Inr (p', x) \<and> (x = 0 \<and> bp_live p' L \<or> x \<noteq> 0 \<and> x \<notin> L \<and> bp_live p' (insert x L))"
proof -
  obtain q m where pm: "p = (q, m)" by (cases p)
  obtain c fl where i: "pool_inv c m q fl" "L = set (chunks (pdata q) c (pcapacity q)) - set fl"
    using assms by (auto simp: bp_live_def pm)
  obtain q' x where a: "BasicPool_Alloc q m = Inr (q', x)"
    "if fl = [] then x = 0 \<and> q' = q else fl = x # tl fl \<and> pool_inv c m q' (tl fl)"
    using BasicPool_Alloc_inv [OF i(1)] by blast
  have run: "bp_Alloc p = Inr ((q', m), x)" using a(1) by (simp add: bp_Alloc_def pm)
  show ?thesis
  proof (cases "fl = []")
    case True
    then show ?thesis using run a(2) assms by (simp add: pm)
  next
    case False
    then have f: "fl = x # tl fl" "pool_inv c m q' (tl fl)" using a(2) by auto
    obtain fs where fs: "fl = x # fs" using f(1) by blast
    have same: "pdata q' = pdata q" "pcapacity q' = pcapacity q"
      using a(1) by (auto simp: BasicPool_Alloc_def WeakPool_Alloc_def Let_def res_bind_Inr_iff split: if_splits)
    have x: "x \<in> set (chunks (pdata q) c (pcapacity q))" "x \<notin> set fs" "0 < pdata q" using i(1) fs by (auto simp: pool_inv_def)
    then have "x \<noteq> 0" by (auto simp: chunks_def)
    moreover have "insert x L = set (chunks (pdata q') c (pcapacity q')) - set fs" using x fs i(2) same by auto
    then have "bp_live (q', m) (insert x L)" unfolding bp_live_def using f(2) fs by auto
    moreover have "x \<notin> L" using fs i(2) by simp
    ultimately show ?thesis using run by blast
  qed
qed

lemma bp_Free_live:
  assumes "bp_live p L" "x \<in> L"
  shows "\<exists>p'. bp_Free x p = Inr p' \<and> bp_live p' (L - {x})"
proof -
  obtain q m where pm: "p = (q, m)" by (cases p)
  obtain c fl where i: "pool_inv c m q fl" "L = set (chunks (pdata q) c (pcapacity q)) - set fl"
    using assms by (auto simp: bp_live_def pm)
  then have "x \<in> set (chunks (pdata q) c (pcapacity q))" "x \<notin> set fl" using assms(2) by auto
  then obtain q' m' where f: "BasicPool_Free x q m = Inr (q', m')" "pool_inv c m' q' (x # fl)" "pdata q' = pdata q" "pcapacity q' = pcapacity q"
    using BasicPool_Free_inv [OF i(1)] by blast
  have "L - {x} = set (chunks (pdata q') c (pcapacity q')) - set (x # fl)" using i(2) f(3,4) by auto
  then have "bp_live (q', m') (L - {x})"
    unfolding bp_live_def prod.case using f(2) by (intro exI [of _ c] exI [of _ "x # fl"] conjI)
  then show ?thesis using f(1) by (simp add: bp_Free_def pm)
qed

lemma bp_live_finite: "bp_live p L \<Longrightarrow> finite L \<and> 0 \<notin> L"
  by (auto simp: bp_live_def pool_inv_def chunks_def)

interpretation bp: chunk_pool bp_live bp_Alloc bp_Free
  by unfold_locales (fact bp_Alloc_live, fact bp_Free_live, fact bp_live_finite)

definition ParallelPool :: "(nat \<Rightarrow> nat) \<Rightarrow> nat \<Rightarrow> nat \<Rightarrow> nat \<Rightarrow> nat \<Rightarrow> nat \<Rightarrow> cells \<Rightarrow> basic_pool palloc" where
  "ParallelPool mem header chunk_size total_cap nr_cores shifting m =
     (let cap = 1 + (total_cap + 2 ^ 64 - 1) mod 2 ^ 64 div nr_cores in
      ParallelAllocator (concat (map (\<lambda>node. map (\<lambda>i.
        WeakPool chunk_size cap (mem node + i * (header + chunk_size * cap) + header) m) [0..<kNrCorePerNode])
        [shifting div kNrCorePerNode..<(shifting + nr_cores) div kNrCorePerNode])))"

lemma WeakPool_live:
  assumes "0 < c" "0 < cap" "0 < s"
  shows "bp_live (WeakPool c cap s m) {}"
proof -
  obtain p m' where w: "WeakPool c cap s m = (p, m')" by (cases "WeakPool c cap s m")
  have "pdata p = s" "pcapacity p = cap" using w by (auto simp: WeakPool_def)
  then show ?thesis using WeakPool_inv [OF assms w] by (auto simp: bp_live_def w)
qed

lemma ParallelPool_inv:
  assumes "0 < chunk_size" "nr_cores < 32" "8 dvd nr_cores" "8 dvd shifting" "\<And>n. 0 < mem n"
  shows "bp.pa_inv (\<lambda>_. {}) (ParallelPool mem header chunk_size total_cap nr_cores shifting m)"
proof -
  define cap where "cap = 1 + (total_cap + 2 ^ 64 - 1) mod 2 ^ 64 div nr_cores"
  define ps where "ps = concat (map (\<lambda>node. map (\<lambda>i.
        WeakPool chunk_size cap (mem node + i * (header + chunk_size * cap) + header) m) [0..<kNrCorePerNode])
        [shifting div kNrCorePerNode..<(shifting + nr_cores) div kNrCorePerNode])"
  have "length ps = (\<Sum>n\<leftarrow>[shifting div 8..<(shifting + nr_cores) div 8]. 8)" by (simp add: ps_def length_concat comp_def kNrCorePerNode_def)
  also have "\<dots> = ((shifting + nr_cores) div 8 - shifting div 8) * 8" by (simp add: sum_list_triv)
  also have "\<dots> = nr_cores" using assms(3,4) by auto
  finally have len: "length ps < 32" using assms(2) by simp
  have "bp_live p {}" if "p \<in> set ps" for p
    using that assms(1,5) by (auto simp: ps_def cap_def intro!: WeakPool_live)
  then have "bp.pa_inv (\<lambda>_. {}) (ParallelAllocator ps)" using len by (intro bp.ParallelAllocator_inv) simp_all
  then show ?thesis by (simp add: ParallelPool_def ps_def cap_def Let_def)
qed

section \<open>ParallelRegion\<close>

record 'p region =
  rpools :: "'p palloc list"
  proposed_caps :: "nat list"

definition set_pool_capacity :: "nat \<Rightarrow> nat \<Rightarrow> 'p region \<Rightarrow> 'p region res" where
  "set_pool_capacity sz cap r = res_bind (SizeToClass sz) (\<lambda>k.
     if k < 0 then Inl (Abort ''size class'') else Inr (r\<lparr>proposed_caps := (proposed_caps r)[nat k := cap]\<rparr>))"

text \<open>The number of slabs that \<open>InitPools\<close> keeps ready in the pools of class \<open>i\<close>.\<close>

definition InitPools_nr_buffer :: "nat \<Rightarrow> 'p region \<Rightarrow> nat" where
  "InitPools_nr_buffer i r = (let chunk_size = 2 ^ (i + 5) in proposed_caps r ! i * chunk_size mod 2 ^ 64 div PageSize chunk_size)"

definition Region_Alloc :: "('p \<Rightarrow> ('p \<times> nat) res) \<Rightarrow> nat \<Rightarrow> nat \<Rightarrow> 'p region \<Rightarrow> ('p region \<times> nat) res" where
  "Region_Alloc pool_Alloc cur sz r = res_bind (SizeToClass sz) (\<lambda>k.
     if k < 0 then Inr (r, 0)
     else res_bind (PA_Alloc pool_Alloc cur (rpools r ! nat k)) (\<lambda>(a, x).
       if x = 0 then Inl (Abort ''no more memory preallocated'')
       else Inr (r\<lparr>rpools := (rpools r)[nat k := a]\<rparr>, x)))"

definition Region_Free :: "(nat \<Rightarrow> 'p \<Rightarrow> 'p res) \<Rightarrow> nat \<Rightarrow> nat \<Rightarrow> int \<Rightarrow> nat \<Rightarrow> 'p region \<Rightarrow> 'p region res" where
  "Region_Free pool_Free cur ptr alloc_core sz r =
     (if ptr = 0 then Inr r
      else res_bind (SizeToClass sz) (\<lambda>k.
        if k < 0 then Inl (Abort ''size class'')
        else res_bind (PA_Free pool_Free cur ptr alloc_core (rpools r ! nat k)) (\<lambda>a.
          Inr (r\<lparr>rpools := (rpools r)[nat k := a]\<rparr>))))"

definition Region_Quiescence :: "nat \<Rightarrow> 'p region \<Rightarrow> 'p region" where
  "Region_Quiescence cur r = r\<lparr>rpools := map (Quiescence cur) (take kMaxPools (rpools r)) @ drop kMaxPools (rpools r)\<rparr>"

lemma SizeToClass_range: "SizeToClass sz = Inr k \<Longrightarrow> -1 \<le> k \<and> k < 20"
  by (auto simp: SizeToClass_def Let_def kMaxPools_def split: if_splits)

context chunk_pool
begin

text \<open>\<open>U c k\<close> are the chunks of class \<open>c\<close> from core \<open>k\<close> that users hold.\<close>

definition region_inv :: "nat \<Rightarrow> (nat \<Rightarrow> nat \<Rightarrow> nat set) \<Rightarrow> 'p region \<Rightarrow> bool" where
  "region_inv n U r \<longleftrightarrow> length (rpools r) = 32 \<and> (\<forall>c<20. length (pools (rpools r ! c)) = n \<and> pa_inv (U c) (rpools r ! c))"

lemma PA_Alloc_length: "PA_Alloc pool_Alloc cur a = Inr (a', x) \<Longrightarrow> length (pools a') = length (pools a)"
  by (auto simp: PA_Alloc_def Let_def res_bind_Inr_iff split: if_splits list.splits)

lemma PA_Free_length: "PA_Free pool_Free cur x k a = Inr a' \<Longrightarrow> length (pools a') = length (pools a)"
  by (auto simp: PA_Free_def Let_def res_bind_Inr_iff split: if_splits)

lemma Region_Alloc_inv:
  assumes inv: "region_inv n U r" and cur: "cur < n" and k: "SizeToClass sz = Inr (int k)"
    and a: "Region_Alloc pool_Alloc cur sz r = Inr (r', x)"
  shows "x \<noteq> 0 \<and> x \<notin> U k cur \<and> region_inv n (U(k := (U k)(cur := insert x (U k cur)))) r'"
proof -
  have k20: "k < 20" using SizeToClass_range [OF k] by simp
  then have P: "length (pools (rpools r ! k)) = n" "pa_inv (U k) (rpools r ! k)" "length (rpools r) = 32" using inv by (simp_all add: region_inv_def)
  obtain a' where b: "PA_Alloc pool_Alloc cur (rpools r ! k) = Inr (a', x)" "x \<noteq> 0" "r' = r\<lparr>rpools := (rpools r)[k := a']\<rparr>"
    using a by (auto simp: Region_Alloc_def k res_bind_Inr_iff split: if_splits)
  have "x \<notin> U k cur \<and> pa_inv ((U k)(cur := insert x (U k cur))) a'"
    using PA_Alloc_inv [OF P(2), of cur] cur P(1) b(1,2) by auto
  then show ?thesis using inv PA_Alloc_length [OF b(1)] P k20 b(2) by (simp add: region_inv_def b(3) nth_list_update)
qed

lemma Region_Free_inv:
  assumes inv: "region_inv n U r" and cur: "cur < n" "j < n" and k: "SizeToClass sz = Inr (int k)" and x: "x \<in> U k j" "x \<noteq> 0"
  shows "\<exists>r'. Region_Free pool_Free cur x (int j) sz r = Inr r' \<and> region_inv n (U(k := (U k)(j := U k j - {x}))) r'"
proof -
  have k20: "k < 20" using SizeToClass_range [OF k] by simp
  then have P: "length (pools (rpools r ! k)) = n" "pa_inv (U k) (rpools r ! k)" "length (rpools r) = 32" using inv by (simp_all add: region_inv_def)
  obtain a' where b: "PA_Free pool_Free cur x (int j) (rpools r ! k) = Inr a'" "pa_inv ((U k)(j := U k j - {x})) a'"
    using PA_Free_inv [OF P(2), of cur j x] cur P(1) x(1) by auto
  have "region_inv n (U(k := (U k)(j := U k j - {x}))) (r\<lparr>rpools := (rpools r)[k := a']\<rparr>)"
    using inv PA_Free_length [OF b(1)] P k20 b(2) by (simp add: region_inv_def nth_list_update)
  then show ?thesis using b(1) x(2) by (simp add: Region_Free_def k)
qed

lemma Quiescence_length: "length (pools (Quiescence cur a)) = length (pools a)"
proof -
  have "length (pools (fold (collect_list cur) is a)) = length (pools a)" for "is"
    by (induction "is" arbitrary: a) (simp_all add: collect_list_def Let_def)
  then show ?thesis by (simp add: Quiescence_def)
qed

lemma Region_Quiescence_inv:
  assumes "region_inv n U r" "cur < n"
  shows "region_inv n U (Region_Quiescence cur r)"
  using assms Quiescence_inv by (simp add: region_inv_def Region_Quiescence_def kMaxPools_def nth_append Quiescence_length)

end

section \<open>Affinity\<close>

text \<open>
  A thread takes the identity of a core with \<open>SetCurrentAffinity\<close>: it unlocks the core it
  had, checks the new one, and then waits for its lock. The state has the affinity of every
  thread (-1 for none), the core a thread inside the call waits for, and the locks.
\<close>

record affinity =
  g_affinity :: "nat \<Rightarrow> int"
  pending :: "nat \<Rightarrow> int option"
  locked :: "int \<Rightarrow> bool"

definition aff_init :: affinity where
  "aff_init = \<lparr>g_affinity = (\<lambda>_. -1), pending = (\<lambda>_. None), locked = (\<lambda>_. False)\<rparr>"

definition SetCurrentAffinity_begin :: "nat \<Rightarrow> nat \<Rightarrow> int \<Rightarrow> affinity \<Rightarrow> affinity res" where
  "SetCurrentAffinity_begin nr_cores t aff s =
     (let s1 = (if g_affinity s t \<noteq> -1 then s\<lparr>locked := (locked s)(g_affinity s t := False)\<rparr> else s) in
      if aff \<ge> int nr_cores \<or> aff < -1 then Inl (Abort ''affinity'')
      else Inr (s1\<lparr>pending := (pending s1)(t \<mapsto> aff)\<rparr>))"

definition SetCurrentAffinity_end :: "nat \<Rightarrow> affinity \<Rightarrow> affinity option" where
  "SetCurrentAffinity_end t s =
     (case pending s t of
        None \<Rightarrow> None
      | Some aff \<Rightarrow>
          if aff \<noteq> -1 \<and> locked s aff then None
          else let s1 = (if aff \<noteq> -1 then s\<lparr>locked := (locked s)(aff := True)\<rparr> else s)
               in Some (s1\<lparr>g_affinity := (g_affinity s1)(t := aff), pending := (pending s1)(t := None)\<rparr>))"

definition CurrentAffinity :: "int \<Rightarrow> int \<Rightarrow> int res" where
  "CurrentAffinity g thread_pool_id =
     (let aff = (if g = -1 then thread_pool_id - 1 else g) in
      if aff < 0 \<or> aff \<ge> int kMaxNrPools then Inl (Abort ''affinity'') else Inr aff)"

inductive aff_reach :: "nat \<Rightarrow> affinity \<Rightarrow> bool" for n where
  start: "aff_reach n aff_init"
| enter: "aff_reach n s \<Longrightarrow> pending s t = None \<Longrightarrow> SetCurrentAffinity_begin n t aff s = Inr s' \<Longrightarrow> aff_reach n s'"
| leave: "aff_reach n s \<Longrightarrow> SetCurrentAffinity_end t s = Some s' \<Longrightarrow> aff_reach n s'"

definition holds_core :: "affinity \<Rightarrow> nat \<Rightarrow> int \<Rightarrow> bool" where
  "holds_core s t c \<longleftrightarrow> pending s t = None \<and> g_affinity s t = c \<and> c \<noteq> -1"

lemma aff_reach_inv:
  assumes "aff_reach n s"
  shows "(\<forall>t c. holds_core s t c \<longrightarrow> locked s c \<and> (\<forall>u. holds_core s u c \<longrightarrow> u = t))"
  using assms
proof induction
  case start
  then show ?case by (simp add: holds_core_def aff_init_def)
next
  case (enter s t aff s')
  have h: "holds_core s' u c \<longleftrightarrow> u \<noteq> t \<and> holds_core s u c" for u c
    using enter.hyps(3) by (auto simp: SetCurrentAffinity_begin_def Let_def holds_core_def split: if_splits)
  have l: "locked s' c \<longleftrightarrow> locked s c \<and> \<not> holds_core s t c" if "c \<noteq> -1" for c
    using enter.hyps(2,3) that by (auto simp: SetCurrentAffinity_begin_def Let_def holds_core_def split: if_splits)
  show ?case
  proof (intro allI impI conjI)
    fix u c assume u: "holds_core s' u c"
    then have "c \<noteq> -1" by (simp add: holds_core_def)
    then show "locked s' c" using u h l enter.IH by blast
    fix v assume "holds_core s' v c"
    then show "v = u" using u h enter.IH by blast
  qed
next
  case (leave s t s')
  obtain aff where a: "pending s t = Some aff" "aff = -1 \<or> \<not> locked s aff"
    using leave.hyps(2) by (auto simp: SetCurrentAffinity_end_def split: option.splits if_splits)
  have h: "holds_core s' u c \<longleftrightarrow> (if u = t then c = aff \<and> c \<noteq> -1 else holds_core s u c)" for u c
    using leave.hyps(2) a by (auto simp: SetCurrentAffinity_end_def Let_def holds_core_def split: if_splits)
  have l: "locked s' c \<longleftrightarrow> locked s c \<or> c = aff \<and> aff \<noteq> -1" for c
    using leave.hyps(2) a by (auto simp: SetCurrentAffinity_end_def Let_def split: if_splits)
  show ?case
  proof (intro allI impI conjI)
    fix u c assume u: "holds_core s' u c"
    then show "locked s' c" using h [of u c] l leave.IH by (cases "u = t") auto
    fix v assume v: "holds_core s' v c"
    show "v = u"
    proof (cases "u = t")
      case True
      then have "c = aff" "c \<noteq> -1" using u h by auto
      then show ?thesis using v h [of v c] True leave.IH a(2) by (cases "v = t") auto
    next
      case False
      then have "holds_core s u c" using u h by simp
      then show ?thesis using v h [of v c] leave.IH a(2) by (cases "v = t") auto
    qed
  qed
qed

text \<open>No two threads hold the same core, so a pool is used by one thread at a time.\<close>

lemma affinity_exclusive: "aff_reach n s \<Longrightarrow> holds_core s t c \<Longrightarrow> holds_core s u c \<Longrightarrow> u = t"
  using aff_reach_inv by blast

section \<open>Statistics\<close>

definition GetMemStats :: "(int \<times> int) list \<Rightarrow> int \<times> int" where
  "GetMemStats ps = fold (\<lambda>(us, wm) (u, w). (u + us, w + wm)) ps (0, 0)"

definition TotalMemoryAllocated :: "int list \<Rightarrow> int" where
  "TotalMemoryAllocated g_mem_tracker = fold (\<lambda>x s. s + x) g_mem_tracker 0"

lemma GetMemStats_sum: "GetMemStats ps = (sum_list (map fst ps), sum_list (map snd ps))"
proof -
  have "fold (\<lambda>(us, wm) (u, w). (u + us, w + wm)) ps (a, b) = (a + sum_list (map fst ps), b + sum_list (map snd ps))" for a b
    by (induction ps arbitrary: a b) auto
  then show ?thesis by (simp add: GetMemStats_def)
qed

end
