(* ===== verification/Commit_Buffer.thy ===== *)
theory Commit_Buffer
  imports Mem_Pool
begin

text \<open>
  \<^verbatim>\<open>src/commit_buffer.cc\<close> and \<^verbatim>\<open>src/commit_buffer.h\<close>: the hash tables of one epoch in which
  a transaction looks up whether it updates a row a second time. Entries live in a store
  and are named by their position in it; a new entry gets the next position. \<open>AddRef\<close> is
  lock free, so it is a step function whose steps of several threads may interleave: one
  step for each round of its search loop and one for the compare and exchange.
  \<open>XXH32\<close> is not part of the sources; it is the parameter \<open>xxh\<close>.
\<close>

section \<open>State\<close>

record entry =
  evhandle :: nat
  short_sid :: nat
  wcnt :: int
  edup :: "nat option"
  enext :: "nat option"

record commit_buffer =
  cb_entries :: "entry list"
  ref_hashtable :: "nat option list"
  dup_hashtable :: "nat option list"
  clear_refcnt :: nat
  entbrks :: "brk list"

definition kPerTxnHashSize :: nat where "kPerTxnHashSize = 16"

definition CommitBuffer :: "nat \<Rightarrow> nat \<Rightarrow> nat \<Rightarrow> commit_buffer" where
  "CommitBuffer brk_header txn_per_epoch nr_threads =
     \<lparr>cb_entries = [], ref_hashtable = replicate (txn_per_epoch * kPerTxnHashSize) None,
      dup_hashtable = replicate txn_per_epoch None, clear_refcnt = nr_threads,
      entbrks = replicate nr_threads (snd (Brk_New brk_header (txn_per_epoch * 6144 div nr_threads)))\<rparr>"

section \<open>Clearing\<close>

definition clear_range :: "nat \<Rightarrow> nat \<Rightarrow> 'a option list \<Rightarrow> 'a option list" where
  "clear_range a b xs = take a xs @ replicate (b - a) None @ drop (max a b) xs"

definition clear_part :: "nat \<Rightarrow> nat \<Rightarrow> 'a option list \<Rightarrow> 'a option list" where
  "clear_part core_id tot_threads xs =
     clear_range (length xs * core_id mod 2 ^ 64 div tot_threads) (length xs * (core_id + 1) mod 2 ^ 64 div tot_threads) xs"

definition Clear :: "nat \<Rightarrow> nat \<Rightarrow> commit_buffer \<Rightarrow> commit_buffer" where
  "Clear tot_threads core_id b =
     (if clear_refcnt b = 0 then b
      else b\<lparr>ref_hashtable := clear_part core_id tot_threads (ref_hashtable b),
             dup_hashtable := clear_part core_id tot_threads (dup_hashtable b),
             clear_refcnt := clear_refcnt b - 1,
             entbrks := (entbrks b)[core_id := Brk_Reset (entbrks b ! core_id)]\<rparr>)"

definition Reset :: "nat \<Rightarrow> commit_buffer \<Rightarrow> commit_buffer" where
  "Reset nr_threads b = b\<lparr>clear_refcnt := nr_threads\<rparr>"

definition EnsureReady :: "commit_buffer \<Rightarrow> bool" where
  "EnsureReady b \<longleftrightarrow> clear_refcnt b = 0"

section \<open>AddRef and LookupDuplicate\<close>

definition short_of :: "nat \<Rightarrow> nat" where
  "short_of sid = sid mod 2 ^ 32"

definition seq_of :: "nat \<Rightarrow> nat" where
  "seq_of sid = u32_of (int (short_of sid div 2 ^ 8) - 1) mod 2 ^ 24"

definition ref_hash :: "(nat \<Rightarrow> nat \<Rightarrow> nat) \<Rightarrow> nat \<Rightarrow> nat \<Rightarrow> nat \<Rightarrow> nat" where
  "ref_hash xxh sz vh sid =
     (let seq = seq_of sid; r = vh div 2 ^ 6;
          hash = seq * kPerTxnHashSize mod 2 ^ 32
      in (hash + xxh r seq mod (kPerTxnHashSize - 1)) mod 2 ^ 32 mod sz)"

text \<open>The atomic cell that \<open>pp\<close> points to.\<close>

datatype cell = Bucket nat | Dup nat | Next nat

definition load :: "commit_buffer \<Rightarrow> cell \<Rightarrow> nat option" where
  "load b c = (case c of Bucket h \<Rightarrow> ref_hashtable b ! h | Dup e \<Rightarrow> edup (cb_entries b ! e) | Next e \<Rightarrow> enext (cb_entries b ! e))"

definition store_cell :: "cell \<Rightarrow> nat \<Rightarrow> commit_buffer \<Rightarrow> commit_buffer" where
  "store_cell c n b = (case c of
       Bucket h \<Rightarrow> b\<lparr>ref_hashtable := (ref_hashtable b)[h := Some n]\<rparr>
     | Dup e \<Rightarrow> b\<lparr>cb_entries := (cb_entries b)[e := (cb_entries b ! e)\<lparr>edup := Some n\<rparr>]\<rparr>
     | Next e \<Rightarrow> b\<lparr>cb_entries := (cb_entries b)[e := (cb_entries b ! e)\<lparr>enext := Some n\<rparr>]\<rparr>)"

datatype addref_pc = Start | Walk cell "nat option" | Install cell "nat option" | CountUp nat | Return bool

text \<open>The new entry becomes the head of its list of duplicates; its value is pending, and it counts two writes.\<close>

definition push_dup :: "nat \<Rightarrow> nat \<Rightarrow> commit_buffer \<Rightarrow> commit_buffer res" where
  "push_dup n seq b =
     (if seq \<ge> length (dup_hashtable b) then Inl OutOfBounds
      else Inr (b\<lparr>cb_entries := (cb_entries b)[n := (cb_entries b ! n)\<lparr>enext := dup_hashtable b ! (seq mod length (dup_hashtable b)),
                                                                    wcnt := wcnt (cb_entries b ! n) + 1\<rparr>],
                 dup_hashtable := (dup_hashtable b)[seq mod length (dup_hashtable b) := Some n]\<rparr>))"

definition AddRef_step :: "(nat \<Rightarrow> nat \<Rightarrow> nat) \<Rightarrow> nat \<Rightarrow> nat \<Rightarrow> nat \<Rightarrow> addref_pc \<Rightarrow> commit_buffer \<Rightarrow> (addref_pc \<times> commit_buffer) res" where
  "AddRef_step xxh core_id vh sid pc b =
     (case pc of
        Start \<Rightarrow>
          let pp = Bucket (ref_hash xxh (length (ref_hashtable b)) vh sid) in
          Inr (if EnsureReady b then Walk pp (load b pp) else Start, b)
      | Walk pp None \<Rightarrow> Inr (Install pp None, b)
      | Walk pp (Some p) \<Rightarrow>
          if short_sid (cb_entries b ! p) = short_of sid \<and> evhandle (cb_entries b ! p) = vh then
            (case edup (cb_entries b ! p) of
               Some t \<Rightarrow> Inr (CountUp t, b)
             | None \<Rightarrow> Inr (Install (Dup p) (Some p), b))
          else Inr (Walk (Next p) (load b (Next p)), b)
      | Install pp p \<Rightarrow>
          (case load b pp of
             None \<Rightarrow>
               let n = length (cb_entries b);
                   b1 = store_cell pp n (b\<lparr>cb_entries := cb_entries b @
                          [\<lparr>evhandle = vh, short_sid = seq_of sid, wcnt = 1, edup = None, enext = None\<rparr>]\<rparr>)
               in res_bind (if p \<noteq> None then push_dup n (seq_of sid) b1 else Inr b1) (\<lambda>b2.
                  res_bind (Brk_Alloc 32 (entbrks b2 ! core_id)) (\<lambda>(k, off).
                  Inr (Return (p \<noteq> None), b2\<lparr>entbrks := (entbrks b2)[core_id := k]\<rparr>)))
           | Some t \<Rightarrow> Inr (if p = None then Walk pp (Some t) else CountUp t, b))
      | CountUp t \<Rightarrow>
          Inr (Return True, b\<lparr>cb_entries := (cb_entries b)[t := (cb_entries b ! t)\<lparr>wcnt := wcnt (cb_entries b ! t) + 1\<rparr>]\<rparr>)
      | Return r \<Rightarrow> Inr (Return r, b))"

text \<open>One call that runs alone, with a bound on its steps.\<close>

fun AddRef :: "(nat \<Rightarrow> nat \<Rightarrow> nat) \<Rightarrow> nat \<Rightarrow> nat \<Rightarrow> nat \<Rightarrow> nat \<Rightarrow> addref_pc \<Rightarrow> commit_buffer \<Rightarrow> (bool \<times> commit_buffer) res option" where
  "AddRef xxh core_id vh sid 0 pc b = None"
| "AddRef xxh core_id vh sid (Suc k) (Return r) b = Some (Inr (r, b))"
| "AddRef xxh core_id vh sid (Suc k) pc b =
     (case AddRef_step xxh core_id vh sid pc b of
        Inl e \<Rightarrow> Some (Inl e)
      | Inr (pc', b') \<Rightarrow> AddRef xxh core_id vh sid k pc' b')"

fun dup_walk :: "nat \<Rightarrow> nat \<Rightarrow> commit_buffer \<Rightarrow> nat \<Rightarrow> nat option \<Rightarrow> nat option option" where
  "dup_walk vh sid b 0 p = None"
| "dup_walk vh sid b (Suc k) None = Some None"
| "dup_walk vh sid b (Suc k) (Some p) =
     (if evhandle (cb_entries b ! p) = vh \<and> short_sid (cb_entries b ! p) = short_of sid then Some (Some p)
      else dup_walk vh sid b k (enext (cb_entries b ! p)))"

definition LookupDuplicate :: "nat \<Rightarrow> nat \<Rightarrow> nat \<Rightarrow> commit_buffer \<Rightarrow> nat option option" where
  "LookupDuplicate fuel vh sid b = dup_walk vh sid b fuel (dup_hashtable b ! (seq_of sid mod length (dup_hashtable b)))"

section \<open>Clear by all cores\<close>

lemma length_clear_range [simp]: "a \<le> b \<Longrightarrow> b \<le> length xs \<Longrightarrow> length (clear_range a b xs) = length xs"
  by (simp add: clear_range_def)

lemma nth_clear_range:
  assumes "a \<le> b" "b \<le> length xs" "i < length xs"
  shows "clear_range a b xs ! i = (if a \<le> i \<and> i < b then None else xs ! i)"
  using assms by (auto simp: clear_range_def nth_append max_def)

lemma part_bounds:
  assumes "c < t" "n * t < 2 ^ 64"
  shows "n * c mod 2 ^ 64 div t = n * c div t" "n * (c + 1) mod 2 ^ 64 div t = n * (c + 1) div t"
    "n * c div t \<le> n * (c + 1) div t" "n * (c + 1) div t \<le> (n::nat)"
proof -
  have b: "n * (c + 1) \<le> n * t" "n * c \<le> n * t" using assms(1) by (intro mult_le_mono; simp)+
  then show "n * c mod 2 ^ 64 div t = n * c div t" "n * (c + 1) mod 2 ^ 64 div t = n * (c + 1) div t" using assms(2) by simp_all
  show "n * c div t \<le> n * (c + 1) div t" by (intro div_le_mono) simp
  show "n * (c + 1) div t \<le> n" using div_le_mono [OF b(1), of t] assms(1) by simp
qed

lemma clear_part_nth:
  assumes "c < t" "length xs * t < 2 ^ 64" "i < length xs"
  shows "clear_part c t xs ! i = (if length xs * c div t \<le> i \<and> i < length xs * (c + 1) div t then None else xs ! i)"
  unfolding clear_part_def part_bounds [OF assms(1,2)]
  by (rule nth_clear_range [OF part_bounds(3,4) [OF assms(1,2)] assms(3)])

lemma length_clear_part [simp]: "c < t \<Longrightarrow> length xs * t < 2 ^ 64 \<Longrightarrow> length (clear_part c t xs) = length xs"
  unfolding clear_part_def by (simp only: part_bounds(1,2)) (rule length_clear_range [OF part_bounds(3,4)])

text \<open>Every slot belongs to the part of some core.\<close>

lemma part_of_slot:
  assumes "0 < t" "i < (n::nat)"
  shows "\<exists>c<t. n * c div t \<le> i \<and> i < n * (c + 1) div t"
proof -
  let ?P = "\<lambda>k. i < n * k div t"
  have t: "?P t" using assms by simp
  define k where "k = (LEAST k. ?P k)"
  have k: "?P k" "k \<le> t" "\<And>j. j < k \<Longrightarrow> \<not> ?P j"
    unfolding k_def using LeastI [of ?P, OF t] Least_le [of ?P, OF t] not_less_Least [of _ ?P] by blast+
  then obtain c where c: "k = c + 1" by (cases k) auto
  have "n * c div t \<le> i" using k(3) [of c] c by simp
  then show ?thesis using k(1,2) c by (intro exI [of _ c]) simp
qed

lemma Clear_fold:
  assumes "set cs \<subseteq> {..<t}" "length cs \<le> clear_refcnt b" "length (ref_hashtable b) * t < 2 ^ 64" "length (dup_hashtable b) * t < 2 ^ 64"
  shows "clear_refcnt (fold (Clear t) cs b) = clear_refcnt b - length cs
    \<and> ref_hashtable (fold (Clear t) cs b) = fold (\<lambda>c. clear_part c t) cs (ref_hashtable b)
    \<and> dup_hashtable (fold (Clear t) cs b) = fold (\<lambda>c. clear_part c t) cs (dup_hashtable b)"
  using assms
proof (induction cs arbitrary: b)
  case (Cons c cs)
  have "clear_refcnt b \<noteq> 0" using Cons.prems(2) by auto
  then have "clear_refcnt (Clear t c b) = clear_refcnt b - 1" "ref_hashtable (Clear t c b) = clear_part c t (ref_hashtable b)"
    "dup_hashtable (Clear t c b) = clear_part c t (dup_hashtable b)" by (simp_all add: Clear_def)
  then show ?case using Cons.IH [of "Clear t c b"] Cons.prems by auto
qed simp

lemma clear_parts_all:
  assumes "set cs \<subseteq> {..<t}" "length xs * t < 2 ^ 64"
  shows "length (fold (\<lambda>c. clear_part c t) cs xs) = length xs \<and> (\<forall>i<length xs.
    fold (\<lambda>c. clear_part c t) cs xs ! i = (if \<exists>c\<in>set cs. length xs * c div t \<le> i \<and> i < length xs * (c + 1) div t then None else xs ! i))"
  using assms
proof (induction cs arbitrary: xs)
  case (Cons c cs)
  have c: "c < t" using Cons.prems(1) by simp
  have len: "length (clear_part c t xs) = length xs" using c Cons.prems(2) by simp
  have IH: "length (fold (\<lambda>c. clear_part c t) cs (clear_part c t xs)) = length xs"
    "\<And>i. i < length xs \<Longrightarrow> fold (\<lambda>c. clear_part c t) cs (clear_part c t xs) ! i =
      (if \<exists>c\<in>set cs. length xs * c div t \<le> i \<and> i < length xs * (c + 1) div t then None else clear_part c t xs ! i)"
    using Cons.IH [of "clear_part c t xs"] Cons.prems by (simp_all add: len)
  show ?case using IH clear_part_nth [OF c Cons.prems(2)] by auto
qed simp

text \<open>When every core has cleared its part, in any order, both tables are empty and the buffer is ready.\<close>

lemma Clear_all:
  assumes "set cs = {..<t}" "distinct cs" "0 < t" "clear_refcnt b = t"
    "length (ref_hashtable b) * t < 2 ^ 64" "length (dup_hashtable b) * t < 2 ^ 64"
  shows "EnsureReady (fold (Clear t) cs b)
    \<and> ref_hashtable (fold (Clear t) cs b) = replicate (length (ref_hashtable b)) None
    \<and> dup_hashtable (fold (Clear t) cs b) = replicate (length (dup_hashtable b)) None"
proof -
  have n: "length cs = t" using distinct_card [OF assms(2)] assms(1) by simp
  have F: "clear_refcnt (fold (Clear t) cs b) = 0" "ref_hashtable (fold (Clear t) cs b) = fold (\<lambda>c. clear_part c t) cs (ref_hashtable b)"
    "dup_hashtable (fold (Clear t) cs b) = fold (\<lambda>c. clear_part c t) cs (dup_hashtable b)"
    using Clear_fold [of cs t b] assms n by simp_all
  have all: "fold (\<lambda>c. clear_part c t) cs xs = replicate (length xs) None" if "length xs * t < 2 ^ 64" for xs :: "nat option list"
  proof (rule nth_equalityI)
    have A: "length (fold (\<lambda>c. clear_part c t) cs xs) = length xs"
      "\<And>i. i < length xs \<Longrightarrow> fold (\<lambda>c. clear_part c t) cs xs ! i =
        (if \<exists>c\<in>set cs. length xs * c div t \<le> i \<and> i < length xs * (c + 1) div t then None else xs ! i)"
      using clear_parts_all [of cs t xs] assms(1) that by auto
    show "length (fold (\<lambda>c. clear_part c t) cs xs) = length (replicate (length xs) None)" using A(1) by simp
    fix i assume "i < length (fold (\<lambda>c. clear_part c t) cs xs)"
    then have i: "i < length xs" using A(1) by simp
    then obtain c where "c < t" "length xs * c div t \<le> i" "i < length xs * (c + 1) div t" using part_of_slot [OF assms(3)] by blast
    then show "fold (\<lambda>c. clear_part c t) cs xs ! i = replicate (length xs) None ! i" using A(2) [OF i] i assms(1) by auto
  qed
  show ?thesis using F all assms(5,6) by (simp add: EnsureReady_def)
qed

section \<open>What the search finds\<close>

text \<open>
  The transactions of an epoch have the sequence numbers \<open>1..N\<close> in bits 8 to 31 of their
  serial ids. \<open>AddRef\<close> stores \<open>seq\<close> in a new entry, but compares the field with
  \<open>short_sid\<close>. The entries of a bucket all carry the sequence number of the bucket, so the
  comparison fails.
\<close>

definition sid_ok :: "nat \<Rightarrow> nat \<Rightarrow> bool" where
  "sid_ok n sid \<longleftrightarrow> 0 < short_of sid div 2 ^ 8 \<and> short_of sid div 2 ^ 8 \<le> n"

lemma seq_of_ok:
  assumes "sid_ok n sid"
  shows "seq_of sid = short_of sid div 2 ^ 8 - 1" "seq_of sid < n" "seq_of sid < short_of sid" "seq_of sid < 2 ^ 24"
proof -
  let ?q = "short_of sid div 2 ^ 8"
  have q: "?q < 2 ^ 24" "0 < ?q" using assms by (auto simp: sid_ok_def short_of_def less_mult_imp_div_less)
  then have "u32_of (int ?q - 1) = ?q - 1" unfolding u32_of_def by (simp add: nat_diff_distrib)
  then show e: "seq_of sid = ?q - 1" using q by (simp add: seq_of_def)
  show "seq_of sid < n" "seq_of sid < 2 ^ 24" unfolding e using q assms by (auto simp: sid_ok_def)
  have "?q \<le> short_of sid" by simp
  then show "seq_of sid < short_of sid" unfolding e using q(2) by linarith
qed

lemma ref_hash_bucket:
  assumes "sid_ok n sid"
  shows "ref_hash xxh (n * kPerTxnHashSize) vh sid div kPerTxnHashSize = seq_of sid"
    "ref_hash xxh (n * kPerTxnHashSize) vh sid < n * kPerTxnHashSize"
proof -
  let ?x = "xxh (vh div 2 ^ 6) (seq_of sid) mod 15"
  note s = seq_of_ok [OF assms]
  have x: "?x < 15" by simp
  have "seq_of sid * 16 + ?x < 2 ^ 32" using s(4) x by simp
  moreover have "seq_of sid * 16 + ?x < n * 16" using s(2) x by linarith
  ultimately have "ref_hash xxh (n * kPerTxnHashSize) vh sid = seq_of sid * 16 + ?x"
    by (simp add: ref_hash_def Let_def kPerTxnHashSize_def)
  then show "ref_hash xxh (n * kPerTxnHashSize) vh sid div kPerTxnHashSize = seq_of sid"
    "ref_hash xxh (n * kPerTxnHashSize) vh sid < n * kPerTxnHashSize"
    using \<open>seq_of sid * 16 + ?x < n * 16\<close> x by (simp_all add: kPerTxnHashSize_def)
qed

definition cb_inv :: "nat \<Rightarrow> commit_buffer \<Rightarrow> bool" where
  "cb_inv n b \<longleftrightarrow> length (ref_hashtable b) = n * kPerTxnHashSize
     \<and> (\<forall>h e. h < n * kPerTxnHashSize \<longrightarrow> ref_hashtable b ! h = Some e \<longrightarrow>
          e < length (cb_entries b) \<and> short_sid (cb_entries b ! e) = h div kPerTxnHashSize)
     \<and> (\<forall>d\<in>set (dup_hashtable b). d = None)
     \<and> (\<forall>e<length (cb_entries b). edup (cb_entries b ! e) = None \<and> (\<forall>e'. enext (cb_entries b ! e) = Some e' \<longrightarrow>
          e < e' \<and> e' < length (cb_entries b) \<and> short_sid (cb_entries b ! e') = short_sid (cb_entries b ! e)))"

text \<open>A cell and a pointer that a search for \<open>sid\<close> may hold.\<close>

definition cell_ok :: "nat \<Rightarrow> nat \<Rightarrow> cell \<Rightarrow> commit_buffer \<Rightarrow> bool" where
  "cell_ok n sid c b = (case c of
       Bucket h \<Rightarrow> h < n * kPerTxnHashSize \<and> h div kPerTxnHashSize = seq_of sid
     | Dup e \<Rightarrow> False
     | Next e \<Rightarrow> e < length (cb_entries b) \<and> short_sid (cb_entries b ! e) = seq_of sid)"

definition ptr_ok :: "nat \<Rightarrow> nat option \<Rightarrow> commit_buffer \<Rightarrow> bool" where
  "ptr_ok sid p b \<longleftrightarrow> (\<forall>e. p = Some e \<longrightarrow> e < length (cb_entries b) \<and> short_sid (cb_entries b ! e) = seq_of sid)"

definition pc_ok :: "nat \<Rightarrow> nat \<Rightarrow> addref_pc \<Rightarrow> commit_buffer \<Rightarrow> bool" where
  "pc_ok n sid pc b = (case pc of
       Start \<Rightarrow> True
     | Walk c p \<Rightarrow> cell_ok n sid c b \<and> ptr_ok sid p b
     | Install c p \<Rightarrow> cell_ok n sid c b \<and> p = None
     | CountUp t \<Rightarrow> False
     | Return r \<Rightarrow> \<not> r)"

lemma cb_invD:
  assumes "cb_inv n b"
  shows "length (ref_hashtable b) = n * kPerTxnHashSize"
    "\<And>h e. h < n * kPerTxnHashSize \<Longrightarrow> ref_hashtable b ! h = Some e \<Longrightarrow>
       e < length (cb_entries b) \<and> short_sid (cb_entries b ! e) = h div kPerTxnHashSize"
    "\<And>d. d \<in> set (dup_hashtable b) \<Longrightarrow> d = None"
    "\<And>e. e < length (cb_entries b) \<Longrightarrow> edup (cb_entries b ! e) = None"
    "\<And>e e'. e < length (cb_entries b) \<Longrightarrow> enext (cb_entries b ! e) = Some e' \<Longrightarrow>
       e < e' \<and> e' < length (cb_entries b) \<and> short_sid (cb_entries b ! e') = short_sid (cb_entries b ! e)"
  using assms unfolding cb_inv_def by blast+

lemma cb_invI:
  assumes "length (ref_hashtable b) = n * kPerTxnHashSize"
    "\<And>h e. h < n * kPerTxnHashSize \<Longrightarrow> ref_hashtable b ! h = Some e \<Longrightarrow>
       e < length (cb_entries b) \<and> short_sid (cb_entries b ! e) = h div kPerTxnHashSize"
    "\<And>d. d \<in> set (dup_hashtable b) \<Longrightarrow> d = None"
    "\<And>e. e < length (cb_entries b) \<Longrightarrow> edup (cb_entries b ! e) = None"
    "\<And>e e'. e < length (cb_entries b) \<Longrightarrow> enext (cb_entries b ! e) = Some e' \<Longrightarrow>
       e < e' \<and> e' < length (cb_entries b) \<and> short_sid (cb_entries b ! e') = short_sid (cb_entries b ! e)"
  shows "cb_inv n b"
  using assms unfolding cb_inv_def by blast

lemma load_ok:
  assumes "cb_inv n b" "cell_ok n sid c b"
  shows "ptr_ok sid (load b c) b"
  unfolding ptr_ok_def
proof (intro allI impI)
  fix q assume q: "load b c = Some q"
  show "q < length (cb_entries b) \<and> short_sid (cb_entries b ! q) = seq_of sid"
  proof (cases c)
    case (Bucket h)
    then have h: "h < n * kPerTxnHashSize" "h div kPerTxnHashSize = seq_of sid" "ref_hashtable b ! h = Some q"
      using assms(2) q by (simp_all add: cell_ok_def load_def)
    show ?thesis using cb_invD(2) [OF assms(1) h(1,3)] h(2) by simp
  next
    case (Next e)
    then have e: "e < length (cb_entries b)" "enext (cb_entries b ! e) = Some q" "short_sid (cb_entries b ! e) = seq_of sid"
      using assms(2) q by (simp_all add: cell_ok_def load_def)
    show ?thesis using cb_invD(5) [OF assms(1) e(1,2)] e(3) by simp
  qed (use assms(2) in \<open>simp add: cell_ok_def\<close>)
qed

text \<open>The store keeps the sequence numbers of its entries.\<close>

definition grows :: "commit_buffer \<Rightarrow> commit_buffer \<Rightarrow> bool" where
  "grows b b' \<longleftrightarrow> length (cb_entries b) \<le> length (cb_entries b')
     \<and> (\<forall>e<length (cb_entries b). short_sid (cb_entries b' ! e) = short_sid (cb_entries b ! e))"

lemma pc_ok_grows: "pc_ok n sid pc b \<Longrightarrow> grows b b' \<Longrightarrow> pc_ok n sid pc b'"
  by (cases pc) (auto simp: pc_ok_def cell_ok_def ptr_ok_def grows_def split: cell.splits)

definition fresh_entry :: "nat \<Rightarrow> nat \<Rightarrow> entry" where
  "fresh_entry vh sid = \<lparr>evhandle = vh, short_sid = seq_of sid, wcnt = 1, edup = None, enext = None\<rparr>"

lemma cell_install_inv:
  assumes inv: "cb_inv n b" and c: "cell_ok n sid c b"
    and b': "b' = store_cell c (length (cb_entries b)) (b\<lparr>cb_entries := cb_entries b @ [fresh_entry vh sid]\<rparr>)"
  shows "cb_inv n b' \<and> grows b b'"
proof (cases c)
  note I = cb_invD [OF inv]
  case (Bucket h)
  have e: "cb_entries b' = cb_entries b @ [fresh_entry vh sid]" "ref_hashtable b' = (ref_hashtable b)[h := Some (length (cb_entries b))]"
    "dup_hashtable b' = dup_hashtable b" using Bucket b' by (simp_all add: store_cell_def)
  have "h div kPerTxnHashSize = seq_of sid" "h < n * kPerTxnHashSize" using c Bucket by (simp_all add: cell_ok_def)
  note h = this
  have g: "grows b b'" by (simp add: grows_def e nth_append)
  have "cb_inv n b'"
  proof (rule cb_invI)
    show "length (ref_hashtable b') = n * kPerTxnHashSize" "\<And>d. d \<in> set (dup_hashtable b') \<Longrightarrow> d = None"
      using I(1,3) by (simp_all add: e)
    fix k q assume k: "k < n * kPerTxnHashSize" "ref_hashtable b' ! k = Some q"
    show "q < length (cb_entries b') \<and> short_sid (cb_entries b' ! q) = k div kPerTxnHashSize"
    proof (cases "k = h")
      case True
      then have "q = length (cb_entries b)" using k I(1) by (simp add: e)
      then show ?thesis using True h(1) by (simp add: e fresh_entry_def)
    next
      case False
      then have "ref_hashtable b ! k = Some q" using k by (simp add: e)
      then show ?thesis using I(2) [OF k(1)] by (simp add: e nth_append)
    qed
  next
    fix i assume i: "i < length (cb_entries b')"
    then show "edup (cb_entries b' ! i) = None" using I(4) by (auto simp: e nth_append fresh_entry_def)
    fix q assume q: "enext (cb_entries b' ! i) = Some q"
    then have "i < length (cb_entries b)" "enext (cb_entries b ! i) = Some q"
      using i by (auto simp: e nth_append fresh_entry_def split: if_splits)
    then show "i < q \<and> q < length (cb_entries b') \<and> short_sid (cb_entries b' ! q) = short_sid (cb_entries b' ! i)"
      using I(5) [of i q] by (simp add: e nth_append)
  qed
  then show ?thesis using g by simp
next
  case (Next p)
  note I = cb_invD [OF inv]
  let ?es = "cb_entries b" and ?m = "length (cb_entries b)"
  have p: "p < ?m" "short_sid (?es ! p) = seq_of sid" using c Next by (simp_all add: cell_ok_def)
  have e: "cb_entries b' = ?es[p := (?es ! p)\<lparr>enext := Some ?m\<rparr>] @ [fresh_entry vh sid]"
    "ref_hashtable b' = ref_hashtable b" "dup_hashtable b' = dup_hashtable b"
    using Next b' p by (simp_all add: store_cell_def nth_append list_update_append1)
  have g: "grows b b'" using p by (auto simp: grows_def e nth_append nth_list_update)
  have n: "cb_entries b' ! i = (if i = ?m then fresh_entry vh sid else if i = p then (?es ! p)\<lparr>enext := Some ?m\<rparr> else ?es ! i)"
    if "i \<le> ?m" for i using that p by (auto simp: e nth_append)
  have len: "length (cb_entries b') = Suc ?m" by (simp add: e)
  have s: "short_sid (cb_entries b' ! i) = short_sid (?es ! i)" if "i < ?m" for i using g that by (simp add: grows_def)
  have "cb_inv n b'"
  proof (rule cb_invI)
    show "length (ref_hashtable b') = n * kPerTxnHashSize" "\<And>d. d \<in> set (dup_hashtable b') \<Longrightarrow> d = None"
      using I(1,3) by (simp_all add: e)
    fix h q assume "h < n * kPerTxnHashSize" "ref_hashtable b' ! h = Some q"
    then have "q < ?m \<and> short_sid (?es ! q) = h div kPerTxnHashSize" using I(2) [of h q] by (simp add: e)
    then show "q < length (cb_entries b') \<and> short_sid (cb_entries b' ! q) = h div kPerTxnHashSize" using s len by auto
  next
    fix i assume "i < length (cb_entries b')"
    then have i: "i \<le> ?m" using len by simp
    then show "edup (cb_entries b' ! i) = None" using I(4) [of i] n [OF i] p by (auto simp: fresh_entry_def)
    fix q assume q: "enext (cb_entries b' ! i) = Some q"
    have "i < q \<and> q < Suc ?m \<and> short_sid (cb_entries b' ! q) = short_sid (cb_entries b' ! i)"
    proof (cases "i = p")
      case True
      then have "q = ?m" using q n [OF i] p by auto
      then show ?thesis using True p s n [of ?m] by (simp add: fresh_entry_def)
    next
      case False
      then have "i < ?m" "enext (?es ! i) = Some q" using q n [OF i] i by (auto simp: fresh_entry_def split: if_splits)
      then show ?thesis using I(5) [of i q] s by simp
    qed
    then show "i < q \<and> q < length (cb_entries b') \<and> short_sid (cb_entries b' ! q) = short_sid (cb_entries b' ! i)" using len by simp
  qed
  then show ?thesis using g by simp
qed (use c in \<open>simp add: cell_ok_def\<close>)

text \<open>One step of \<open>AddRef\<close> keeps the invariant of the buffer and of the call.\<close>

lemma install_step:
  assumes "load b c = None"
  shows "AddRef_step xxh core vh sid (Install c None) b =
    (let b1 = store_cell c (length (cb_entries b)) (b\<lparr>cb_entries := cb_entries b @ [fresh_entry vh sid]\<rparr>)
     in res_bind (Brk_Alloc 32 (entbrks b1 ! core)) (\<lambda>(k, off). Inr (Return False, b1\<lparr>entbrks := (entbrks b1)[core := k]\<rparr>)))"
  unfolding AddRef_step_def fresh_entry_def [symmetric] using assms by (simp add: Let_def)

lemma entbrks_inv [simp]: "cb_inv n (b\<lparr>entbrks := x\<rparr>) = cb_inv n b" "grows a (b\<lparr>entbrks := x\<rparr>) = grows a b"
  by (simp_all add: cb_inv_def grows_def)

lemma AddRef_step_inv:
  assumes inv: "cb_inv n b" and sid: "sid_ok n sid" and pc: "pc_ok n sid pc b"
    and st: "AddRef_step xxh core vh sid pc b = Inr (pc', b')"
  shows "cb_inv n b' \<and> pc_ok n sid pc' b' \<and> grows b b'"
proof -
  have refl: "grows b b" by (simp add: grows_def)
  show ?thesis
  proof (cases pc)
    case Start
    let ?pp = "Bucket (ref_hash xxh (length (ref_hashtable b)) vh sid)"
    have "length (ref_hashtable b) = n * kPerTxnHashSize" by (rule cb_invD(1) [OF inv])
    then have c: "cell_ok n sid ?pp b" using ref_hash_bucket [OF sid] by (simp add: cell_ok_def)
    have "b' = b" "pc' = Walk ?pp (load b ?pp) \<or> pc' = Start" using st Start by (auto simp: AddRef_step_def Let_def split: if_splits)
    then show ?thesis using inv c load_ok [OF inv c] refl by (auto simp: pc_ok_def)
  next
    case (Walk c p)
    show ?thesis
    proof (cases p)
      case None
      then show ?thesis using st Walk inv pc refl by (auto simp: AddRef_step_def pc_ok_def)
    next
      case (Some e)
      have e: "e < length (cb_entries b)" "short_sid (cb_entries b ! e) = seq_of sid" using pc Walk Some by (auto simp: pc_ok_def ptr_ok_def)
      then have "short_sid (cb_entries b ! e) \<noteq> short_of sid" using seq_of_ok(3) [OF sid] by simp
      then have q: "pc' = Walk (Next e) (load b (Next e))" "b' = b" using st Walk Some by (auto simp: AddRef_step_def)
      have "cell_ok n sid (Next e) b" using e by (simp add: cell_ok_def)
      then show ?thesis using q inv load_ok [OF inv] refl by (auto simp: pc_ok_def)
    qed
  next
    case (Install c p)
    have c: "cell_ok n sid c b" "p = None" using pc Install by (simp_all add: pc_ok_def)
    show ?thesis
    proof (cases "load b c")
      case (Some t)
      then show ?thesis using st Install c inv refl load_ok [OF inv c(1)] by (auto simp: AddRef_step_def pc_ok_def)
    next
      case None
      define b1 where "b1 = store_cell c (length (cb_entries b)) (b\<lparr>cb_entries := cb_entries b @ [fresh_entry vh sid]\<rparr>)"
      note ins = install_step [OF None, unfolded Let_def]
      obtain k where q: "pc' = Return False" "b' = b1\<lparr>entbrks := (entbrks b1)[core := k]\<rparr>"
        using st unfolding Install c(2) ins b1_def [symmetric] by (auto simp: res_bind_Inr_iff)
      have "cb_inv n b1 \<and> grows b b1" by (rule cell_install_inv [OF inv c(1) b1_def])
      then show ?thesis using q by (simp add: pc_ok_def)
    qed
  next
    case (CountUp t)
    then show ?thesis using pc by (simp add: pc_ok_def)
  next
    case (Return r)
    then show ?thesis using st pc inv refl by (auto simp: AddRef_step_def)
  qed
qed

section \<open>Threads\<close>

text \<open>
  Calls of \<open>AddRef\<close> on several threads: a thread starts a call, and the steps of the calls
  interleave.
\<close>

record addref_call =
  ar_core :: nat
  ar_vh :: nat
  ar_sid :: nat
  ar_pc :: addref_pc

inductive cb_reach :: "(nat \<Rightarrow> nat \<Rightarrow> nat) \<Rightarrow> nat \<Rightarrow> commit_buffer \<Rightarrow> (nat \<Rightarrow> addref_call option) \<Rightarrow> commit_buffer \<Rightarrow> bool" for xxh n b0 where
  init: "cb_reach xxh n b0 (\<lambda>t. None) b0"
| call: "cb_reach xxh n b0 T b \<Longrightarrow> sid_ok n sid \<Longrightarrow>
    cb_reach xxh n b0 (T(t \<mapsto> \<lparr>ar_core = core, ar_vh = vh, ar_sid = sid, ar_pc = Start\<rparr>)) b"
| step: "cb_reach xxh n b0 T b \<Longrightarrow> T t = Some c \<Longrightarrow> AddRef_step xxh (ar_core c) (ar_vh c) (ar_sid c) (ar_pc c) b = Inr (pc', b') \<Longrightarrow>
    cb_reach xxh n b0 (T(t \<mapsto> c\<lparr>ar_pc := pc'\<rparr>)) b'"

lemma cb_reach_inv:
  assumes "cb_reach xxh n b0 T b" "cb_inv n b0"
  shows "cb_inv n b \<and> (\<forall>t c. T t = Some c \<longrightarrow> sid_ok n (ar_sid c) \<and> pc_ok n (ar_sid c) (ar_pc c) b)"
  using assms(1)
proof induction
  case init
  then show ?case using assms(2) by simp
next
  case (call T b sid t core vh)
  then show ?case by (simp add: pc_ok_def)
next
  case (step T b t c pc' b')
  have c: "sid_ok n (ar_sid c)" "pc_ok n (ar_sid c) (ar_pc c) b" "cb_inv n b" using step.IH step.hyps(2) by auto
  have S: "cb_inv n b'" "pc_ok n (ar_sid c) pc' b'" "grows b b'" using AddRef_step_inv [OF c(3,1,2) step.hyps(3)] by auto
  show ?case
  proof (intro conjI allI impI)
    fix u d assume u: "(T(t \<mapsto> c\<lparr>ar_pc := pc'\<rparr>)) u = Some d"
    show "sid_ok n (ar_sid d)" using u step.IH c(1) by (cases "u = t") auto
    show "pc_ok n (ar_sid d) (ar_pc d) b'"
    proof (cases "u = t")
      case True
      then show ?thesis using u S(2) by auto
    next
      case False
      then have "pc_ok n (ar_sid d) (ar_pc d) b" using u step.IH by auto
      then show ?thesis by (rule pc_ok_grows [OF _ S(3)])
    qed
  qed (rule S(1))
qed

text \<open>An empty buffer satisfies the invariant.\<close>

lemma cb_inv_empty:
  assumes "ref_hashtable b = replicate (n * kPerTxnHashSize) None" "dup_hashtable b = replicate m None" "cb_entries b = []"
  shows "cb_inv n b"
  using assms by (auto simp: cb_inv_def)

text \<open>
  No call of \<open>AddRef\<close> ever reports a duplicate, and \<open>LookupDuplicate\<close> never finds one,
  whatever the rows and the transactions are: a transaction that updates a row twice is
  not noticed.
\<close>

lemma AddRef_never_duplicate:
  assumes "cb_reach xxh n b0 T b" "cb_inv n b0" "T t = Some c" "ar_pc c = Return r"
  shows "\<not> r"
  using cb_reach_inv [OF assms(1,2)] assms(3,4) by (fastforce simp: pc_ok_def)

lemma LookupDuplicate_none:
  assumes "cb_inv n b" "0 < length (dup_hashtable b)"
  shows "LookupDuplicate (Suc k) vh sid b = Some None"
proof -
  have "dup_hashtable b ! (seq_of sid mod length (dup_hashtable b)) \<in> set (dup_hashtable b)" using assms(2) by simp
  then have "dup_hashtable b ! (seq_of sid mod length (dup_hashtable b)) = None" by (rule cb_invD(3) [OF assms(1)])
  then show ?thesis by (simp add: LookupDuplicate_def)
qed

text \<open>A call that runs alone returns: its search follows entries of growing position.\<close>

definition walk_rank :: "nat option \<Rightarrow> commit_buffer \<Rightarrow> nat" where
  "walk_rank p b = (case p of None \<Rightarrow> 0 | Some e \<Rightarrow> length (cb_entries b) - e)"

lemma AddRef_walk:
  assumes inv: "cb_inv n b" and sid: "sid_ok n sid" and pc: "pc_ok n sid (Walk c p) b" and p: "p = load b c"
    and k: "walk_rank p b + 3 \<le> k"
  shows "\<exists>r. AddRef xxh core vh sid k (Walk c p) b = Some r \<and> (\<forall>x b'. r = Inr (x, b') \<longrightarrow> \<not> x)"
  using pc p k
proof (induction k arbitrary: c p)
  case (Suc k)
  show ?case
  proof (cases p)
    case None
    obtain k' where k': "k = Suc (Suc k')" using Suc.prems(3) by (cases k; cases "k - 1") auto
    show ?thesis
    proof (cases "AddRef_step xxh core vh sid (Install c None) b")
      case (Inl e)
      then show ?thesis using None k' by (auto simp: AddRef_step_def)
    next
      case (Inr y)
      obtain pc' b' where y: "y = (pc', b')" by (cases y)
      have "load b c = None" using Suc.prems(2) None by simp
      then have "pc' = Return False" using Inr y by (auto simp: install_step Let_def res_bind_Inr_iff)
      moreover have "AddRef_step xxh core vh sid (Walk c None) b = Inr (Install c None, b)" by (simp add: AddRef_step_def)
      ultimately show ?thesis using Inr y None k' by simp
    qed
  next
    case (Some e)
    have e: "e < length (cb_entries b)" "short_sid (cb_entries b ! e) = seq_of sid" using Suc.prems(1) Some by (auto simp: pc_ok_def ptr_ok_def)
    then have "short_sid (cb_entries b ! e) \<noteq> short_of sid" using seq_of_ok(3) [OF sid] by simp
    then have q: "AddRef_step xxh core vh sid (Walk c p) b = Inr (Walk (Next e) (load b (Next e)), b)" using Some by (simp add: AddRef_step_def)
    have ok: "cell_ok n sid (Next e) b" using e by (simp add: cell_ok_def)
    have "walk_rank (load b (Next e)) b < walk_rank p b"
      using cb_invD(5) [OF inv e(1)] e(1) Some by (auto simp: walk_rank_def load_def split: option.splits)
    then have "walk_rank (load b (Next e)) b + 3 \<le> k" using Suc.prems(3) by simp
    moreover have "pc_ok n sid (Walk (Next e) (load b (Next e))) b" using ok load_ok [OF inv ok] by (simp add: pc_ok_def)
    ultimately obtain r where "AddRef xxh core vh sid k (Walk (Next e) (load b (Next e))) b = Some r" "\<forall>x b'. r = Inr (x, b') \<longrightarrow> \<not> x"
      using Suc.IH by blast
    then show ?thesis using q Some by simp
  qed
qed simp

lemma AddRef_returns:
  assumes inv: "cb_inv n b" and sid: "sid_ok n sid" and ready: "EnsureReady b"
    and k: "length (cb_entries b) + 4 \<le> k"
  shows "\<exists>r. AddRef xxh core vh sid k Start b = Some r \<and> (\<forall>x b'. r = Inr (x, b') \<longrightarrow> \<not> x)"
proof -
  obtain k' where k': "k = Suc k'" using k by (cases k) auto
  let ?pp = "Bucket (ref_hash xxh (length (ref_hashtable b)) vh sid)"
  have st: "AddRef_step xxh core vh sid Start b = Inr (Walk ?pp (load b ?pp), b)" using ready by (simp add: AddRef_step_def Let_def)
  have "pc_ok n sid (Walk ?pp (load b ?pp)) b" using AddRef_step_inv [OF inv sid _ st] by (simp add: pc_ok_def)
  moreover have "walk_rank (load b ?pp) b + 3 \<le> k'" using k k' by (auto simp: walk_rank_def split: option.splits)
  ultimately have "\<exists>r. AddRef xxh core vh sid k' (Walk ?pp (load b ?pp)) b = Some r \<and> (\<forall>x b'. r = Inr (x, b') \<longrightarrow> \<not> x)"
    using AddRef_walk [OF inv sid] by blast
  then show ?thesis using st k' by simp
qed

end
