(* ===== verification/Epoch_Mem.thy ===== *)
theory Epoch_Mem
  imports Mem_Pool
begin

text \<open>
  The memory of an epoch (\<^verbatim>\<open>src/epoch.cc\<close>, \<^verbatim>\<open>src/epoch.h\<close>): the allocator of pieces and
  promises, one per thread, and the memory of transaction states, replicated on every node
  and addressed by (epoch, node, offset). Everything is given back by resetting the
  bump allocators at the start of the next epoch.
\<close>

section \<open>The interface of an allocator\<close>

text \<open>
  What the clients of an allocator rely on: the block returned was free, and is not free
  any more.
\<close>

locale block_alloc =
  fixes inv :: "'s \<Rightarrow> bool"
    and fits :: "nat \<Rightarrow> bool"
    and free_bytes :: "'s \<Rightarrow> nat set"
    and alloc :: "nat \<Rightarrow> 's \<Rightarrow> ('s \<times> nat) res"
  assumes alloc_law: "inv s \<Longrightarrow> fits sz \<Longrightarrow> alloc sz s = Inr (s', a) \<Longrightarrow>
      inv s' \<and> {a..<a + sz} \<subseteq> free_bytes s \<and> free_bytes s' \<subseteq> free_bytes s - {a..<a + sz}"
begin

fun alloc_all :: "nat list \<Rightarrow> 's \<Rightarrow> ('s \<times> nat list) res" where
  "alloc_all [] s = Inr (s, [])"
| "alloc_all (sz # szs) s = res_bind (alloc sz s) (\<lambda>(s1, a). res_bind (alloc_all szs s1) (\<lambda>(s2, as). Inr (s2, a # as)))"

lemma alloc_all_disjoint:
  "inv s \<Longrightarrow> \<forall>sz\<in>set szs. fits sz \<Longrightarrow> alloc_all szs s = Inr (s', as) \<Longrightarrow>
     inv s' \<and> length as = length szs \<and> free_bytes s' \<subseteq> free_bytes s
     \<and> (\<forall>i<length szs. {as ! i..<as ! i + szs ! i} \<subseteq> free_bytes s)
     \<and> (\<forall>i j. i < j \<longrightarrow> j < length szs \<longrightarrow> {as ! i..<as ! i + szs ! i} \<inter> {as ! j..<as ! j + szs ! j} = {})"
proof (induction szs arbitrary: s as)
  case (Cons sz szs)
  obtain s1 a as1 where r: "alloc sz s = Inr (s1, a)" "alloc_all szs s1 = Inr (s', as1)" "as = a # as1"
    using Cons.prems(3) by (auto simp: res_bind_Inr_iff)
  have A: "inv s1" "{a..<a + sz} \<subseteq> free_bytes s" "free_bytes s1 \<subseteq> free_bytes s - {a..<a + sz}"
    using alloc_law [OF Cons.prems(1) _ r(1)] Cons.prems(2) by auto
  have I: "inv s'" "length as1 = length szs" "free_bytes s' \<subseteq> free_bytes s1"
    "\<And>i. i < length szs \<Longrightarrow> {as1 ! i..<as1 ! i + szs ! i} \<subseteq> free_bytes s1"
    "\<And>i j. i < j \<Longrightarrow> j < length szs \<Longrightarrow> {as1 ! i..<as1 ! i + szs ! i} \<inter> {as1 ! j..<as1 ! j + szs ! j} = {}"
    using Cons.IH [OF A(1) _ r(2)] Cons.prems(2) by auto
  have one: "{as ! i..<as ! i + (sz # szs) ! i} \<subseteq> free_bytes s" if "i < length (sz # szs)" for i
  proof (cases i)
    case (Suc k)
    then show ?thesis using that I(4) [of k] A(3) r(3) by auto
  qed (use A r in simp)
  have two: "{as ! i..<as ! i + (sz # szs) ! i} \<inter> {as ! j..<as ! j + (sz # szs) ! j} = {}" if ij: "i < j" "j < length (sz # szs)" for i j
  proof -
    obtain k where k: "j = Suc k" using ij(1) by (cases j) auto
    show ?thesis
    proof (cases i)
      case 0
      have "{as1 ! k..<as1 ! k + szs ! k} \<subseteq> free_bytes s1" using I(4) [of k] ij(2) k by simp
      then have "{a..<a + sz} \<inter> {as1 ! k..<as1 ! k + szs ! k} = {}" using A(3) by blast
      then show ?thesis using 0 k r(3) by (simp only: nth_Cons_0 nth_Cons_Suc)
    next
      case (Suc l)
      then show ?thesis using I(5) [of l k] ij k r(3) by simp
    qed
  qed
  show ?case using I A r(3) one two by auto
qed simp

end

section \<open>EpochPromiseAllocationService\<close>

definition CACHE_LINE_SIZE :: nat where "CACHE_LINE_SIZE = 64"
definition sizeof_Brk :: nat where "sizeof_Brk = 32"
definition kEpochPromiseMiniBrkSize :: nat where "kEpochPromiseMiniBrkSize = 4 * CACHE_LINE_SIZE"
definition kEpochPromiseAllocationWorkerLimit :: nat where "kEpochPromiseAllocationWorkerLimit = 4096 * 2 ^ 20"
definition kEpochPromiseAllocationMainLimit :: nat where "kEpochPromiseAllocationMainLimit = 64 * 2 ^ 20"

text \<open>One thread: its large allocator and its mini allocator, each with the address of its data.\<close>

record promise_alloc =
  big_base :: nat
  big :: brk
  mini_base :: nat
  mini :: brk

definition new_mini :: "promise_alloc \<Rightarrow> (promise_alloc \<times> nat \<times> brk) res" where
  "new_mini st =
     res_bind (Brk_Alloc kEpochPromiseMiniBrkSize (big st)) (\<lambda>(b, off).
     let (h, m) = Brk_New sizeof_Brk kEpochPromiseMiniBrkSize in
     Inr (st\<lparr>big := b\<rparr>, big_base st + off + h, m))"

definition set_mini :: "promise_alloc \<times> nat \<times> brk \<Rightarrow> promise_alloc" where
  "set_mini x = (case x of (st, base, m) \<Rightarrow> st\<lparr>mini_base := base, mini := m\<rparr>)"

definition promise_ctor :: "nat \<Rightarrow> nat \<Rightarrow> promise_alloc res" where
  "promise_ctor addr s =
     (let (h, b) = Brk_New sizeof_Brk s in
      res_bind (new_mini \<lparr>big_base = addr + h, big = b, mini_base = 0, mini = Brk 0\<rparr>) (\<lambda>x. Inr (set_mini x)))"

definition promise_sizes :: "nat \<Rightarrow> nat list" where
  "promise_sizes nr_threads =
     kEpochPromiseAllocationMainLimit # replicate nr_threads (kEpochPromiseAllocationWorkerLimit div nr_threads)"

definition promise_Alloc :: "nat \<Rightarrow> promise_alloc \<Rightarrow> (promise_alloc \<times> nat) res" where
  "promise_Alloc sz st =
     (if sz < CACHE_LINE_SIZE then
        if Brk_Check (mini st) sz
        then res_bind (Brk_Alloc sz (mini st)) (\<lambda>(m, off). Inr (st\<lparr>mini := m\<rparr>, mini_base st + off))
        else res_bind (new_mini st) (\<lambda>(st', base, m). res_bind (Brk_Alloc sz m) (\<lambda>(m', off). Inr (st', base + off)))
      else res_bind (Brk_Alloc (Align sz CACHE_LINE_SIZE) (big st)) (\<lambda>(b, off). Inr (st\<lparr>big := b\<rparr>, big_base st + off)))"

definition promise_Reset :: "promise_alloc \<Rightarrow> promise_alloc res" where
  "promise_Reset st = res_bind (new_mini (st\<lparr>big := Brk_Reset (big st)\<rparr>)) (\<lambda>x. Inr (set_mini x))"

text \<open>The mini allocator lies below the free part of the large one.\<close>

definition promise_inv :: "promise_alloc \<Rightarrow> bool" where
  "promise_inv st \<longleftrightarrow> 16 dvd boffset (big st) \<and> 16 dvd boffset (mini st) \<and> blimit (mini st) = 224 \<and> boffset (mini st) \<le> 224
     \<and> boffset (big st) \<le> blimit (big st) \<and> big_base st \<le> mini_base st \<and> mini_base st + 224 \<le> big_base st + boffset (big st)"

definition promise_fits :: "nat \<Rightarrow> bool" where
  "promise_fits sz \<longleftrightarrow> 0 < sz \<and> sz < 2 ^ 63"

definition promise_free :: "promise_alloc \<Rightarrow> nat set" where
  "promise_free st = {mini_base st + boffset (mini st)..<mini_base st + blimit (mini st)}
     \<union> {big_base st + boffset (big st)..<big_base st + blimit (big st)}"

lemma new_mini_ok:
  assumes "new_mini st = Inr (st', base, m)"
  shows "boffset (big st') = boffset (big st) + 256" "boffset (big st') \<le> blimit (big st)" "blimit (big st') = blimit (big st)"
    "base = big_base st + boffset (big st) + 32" "m = Brk 224" "big_base st' = big_base st" "mini st' = mini st" "mini_base st' = mini_base st"
  using assms by (auto simp: new_mini_def Brk_New_def sizeof_Brk_def kEpochPromiseMiniBrkSize_def CACHE_LINE_SIZE_def res_bind_Inr_iff Let_def
    Brk_Alloc_def Align_def split: if_splits)

lemma set_mini_inv:
  assumes "new_mini st = Inr x" "16 dvd boffset (big st)"
  shows "promise_inv (set_mini x)"
proof -
  obtain st' base m where x: "x = (st', base, m)" by (cases x)
  note N = new_mini_ok [OF assms(1) [unfolded x]]
  show ?thesis using N assms(2) by (simp add: promise_inv_def set_mini_def x Brk_def)
qed

lemma promise_ctor_inv: "promise_ctor addr s = Inr st \<Longrightarrow> promise_inv st"
  by (auto simp: promise_ctor_def Brk_New_def Brk_def Let_def res_bind_Inr_iff intro!: set_mini_inv)

lemma promise_Reset_inv: "promise_Reset st = Inr st' \<Longrightarrow> promise_inv st'"
  by (auto simp: promise_Reset_def Brk_Reset_def res_bind_Inr_iff intro!: set_mini_inv)

text \<open>A size that passes \<open>Check\<close> also fits after it is rounded up.\<close>

lemma mini_alloc_fits:
  assumes "promise_inv st" "Brk_Check (mini st) sz" "0 < sz"
  shows "\<exists>m off. Brk_Alloc sz (mini st) = Inr (m, off)"
proof -
  have b: "16 dvd boffset (mini st)" "boffset (mini st) + sz \<le> 224" "blimit (mini st) = 224"
    using assms by (auto simp: promise_inv_def Brk_Check_def)
  have a: "16 dvd Align sz 16" "Align sz 16 < sz + 16" using Align_least [of sz 16] assms(3) b(2) by auto
  obtain k l where "boffset (mini st) = 16 * k" "Align sz 16 = 16 * l" using a b(1) by (auto elim!: dvdE)
  moreover from this have "k + l \<le> 14" using b(2) a(2) by linarith
  ultimately show ?thesis using b by (simp add: Brk_Alloc_def Let_def)
qed

lemma promise_Alloc_law:
  assumes inv: "promise_inv st" and sz: "promise_fits sz" and al: "promise_Alloc sz st = Inr (st', a)"
  shows "promise_inv st' \<and> {a..<a + sz} \<subseteq> promise_free st \<and> promise_free st' \<subseteq> promise_free st - {a..<a + sz}"
proof -
  have I: "16 dvd boffset (big st)" "16 dvd boffset (mini st)" "blimit (mini st) = 224" "boffset (mini st) \<le> 224" "boffset (big st) \<le> blimit (big st)"
    "big_base st \<le> mini_base st" "mini_base st + 224 \<le> big_base st + boffset (big st)" using inv by (auto simp: promise_inv_def)
  have s: "0 < sz" "sz + 64 < 2 ^ 64" using sz by (simp_all add: promise_fits_def)
  consider (small) "sz < CACHE_LINE_SIZE" "Brk_Check (mini st) sz" | (renew) "sz < CACHE_LINE_SIZE" "\<not> Brk_Check (mini st) sz" | (large) "\<not> sz < CACHE_LINE_SIZE" by blast
  then show ?thesis
  proof cases
    case small
    obtain m off where m: "Brk_Alloc sz (mini st) = Inr (m, off)" "st' = st\<lparr>mini := m\<rparr>" "a = mini_base st + off"
      using al small by (auto simp: promise_Alloc_def res_bind_Inr_iff)
    note B = Brk_Alloc_block [OF m(1) s(1) _ I(2)]
    show ?thesis using B I s m by (auto simp: promise_inv_def promise_free_def)
  next
    case renew
    obtain st1 base m m' off where n: "new_mini st = Inr (st1, base, m)" "Brk_Alloc sz m = Inr (m', off)" "st' = st1" "a = base + off"
      using al renew by (auto simp: promise_Alloc_def res_bind_Inr_iff)
    note N = new_mini_ok [OF n(1)]
    have "off = 0" using n(2) N(5) by (auto simp: Brk_Alloc_def Brk_def Let_def split: if_splits)
    then show ?thesis using N I s n renew(1) by (auto simp: promise_inv_def promise_free_def CACHE_LINE_SIZE_def)
  next
    case large
    obtain b off where b: "Brk_Alloc (Align sz CACHE_LINE_SIZE) (big st) = Inr (b, off)" "st' = st\<lparr>big := b\<rparr>" "a = big_base st + off"
      using al large by (auto simp: promise_Alloc_def res_bind_Inr_iff)
    have A: "sz \<le> Align sz 64" "Align sz 64 < sz + 64" using Align_least [of sz 64] s by auto
    have "0 < Align sz CACHE_LINE_SIZE" "Align sz CACHE_LINE_SIZE + 16 < 2 ^ 64" using A s sz by (auto simp: CACHE_LINE_SIZE_def promise_fits_def)
    note B = Brk_Alloc_block [OF b(1) this I(1)]
    show ?thesis using B I s b A by (auto simp: promise_inv_def promise_free_def CACHE_LINE_SIZE_def)
  qed
qed

interpretation pal: block_alloc promise_inv promise_fits promise_free promise_Alloc
  by unfold_locales (rule promise_Alloc_law)

text \<open>
  The allocator that replaces a full mini allocator is used once and not stored: every
  later small allocation takes 256 bytes.
\<close>

lemma mini_not_stored:
  assumes "sz < CACHE_LINE_SIZE" "\<not> Brk_Check (mini st) sz" "promise_Alloc sz st = Inr (st', a)"
  shows "mini st' = mini st \<and> boffset (big st') = boffset (big st) + 256 \<and> \<not> Brk_Check (mini st') sz"
proof -
  obtain base m where n: "new_mini st = Inr (st', base, m)" using assms by (auto simp: promise_Alloc_def res_bind_Inr_iff)
  show ?thesis using new_mini_ok [OF n] assms(2) by simp
qed

section \<open>EpochMemory\<close>

definition kEpochMemoryLimitPerCore :: nat where "kEpochMemoryLimitPerCore = 16 * 2 ^ 20"

record node_mem =
  mmap_buf :: nat
  core_brks :: "brk list"

definition fresh_brks :: "nat \<Rightarrow> brk list" where
  "fresh_brks nr_threads = replicate nr_threads (snd (Brk_New sizeof_Brk kEpochMemoryLimitPerCore))"

definition EpochMemory_Reset :: "nat \<Rightarrow> nat \<Rightarrow> node_mem list \<Rightarrow> node_mem list" where
  "EpochMemory_Reset node_id nr_threads ms = ms[node_id - 1 := (ms ! (node_id - 1))\<lparr>core_brks := fresh_brks nr_threads\<rparr>]"

text \<open>The constructor maps one buffer per node; \<open>bufs\<close> are the addresses the system gives.\<close>

definition EpochMemory :: "nat list \<Rightarrow> nat \<Rightarrow> nat \<Rightarrow> node_mem list" where
  "EpochMemory bufs node_id nr_threads =
     EpochMemory_Reset node_id nr_threads (map (\<lambda>b. \<lparr>mmap_buf = b, core_brks = []\<rparr>) bufs)"

definition core_base :: "nat \<Rightarrow> nat \<Rightarrow> nat" where
  "core_base buf t = buf + t * kEpochMemoryLimitPerCore + fst (Brk_New sizeof_Brk kEpochMemoryLimitPerCore)"

definition core_alloc :: "nat \<Rightarrow> nat \<Rightarrow> node_mem \<Rightarrow> (node_mem \<times> nat) res" where
  "core_alloc t sz m =
     (if t < length (core_brks m)
      then res_bind (Brk_Alloc sz (core_brks m ! t)) (\<lambda>(b, off). Inr (m\<lparr>core_brks := (core_brks m)[t := b]\<rparr>, core_base (mmap_buf m) t + off))
      else Inl OutOfBounds)"

definition core_inv :: "nat \<Rightarrow> node_mem \<Rightarrow> bool" where
  "core_inv t m \<longleftrightarrow> t < length (core_brks m) \<and> 16 dvd boffset (core_brks m ! t)
     \<and> boffset (core_brks m ! t) \<le> blimit (core_brks m ! t) \<and> blimit (core_brks m ! t) = kEpochMemoryLimitPerCore - 32"

definition core_free :: "nat \<Rightarrow> node_mem \<Rightarrow> nat set" where
  "core_free t m = {core_base (mmap_buf m) t + boffset (core_brks m ! t)..<core_base (mmap_buf m) t + blimit (core_brks m ! t)}"

lemma Brk_New_core: "Brk_New sizeof_Brk kEpochMemoryLimitPerCore = (32, Brk (kEpochMemoryLimitPerCore - 32))"
  by (simp add: Brk_New_def sizeof_Brk_def Align_def)

lemma core_base_eq: "core_base b t = b + t * kEpochMemoryLimitPerCore + 32"
  by (simp add: core_base_def Brk_New_core)

lemma core_alloc_law:
  assumes "core_inv t m" "promise_fits sz" "core_alloc t sz m = Inr (m', a)"
  shows "core_inv t m' \<and> {a..<a + sz} \<subseteq> core_free t m \<and> core_free t m' \<subseteq> core_free t m - {a..<a + sz}"
proof -
  obtain b off where b: "t < length (core_brks m)" "Brk_Alloc sz (core_brks m ! t) = Inr (b, off)"
    "m' = m\<lparr>core_brks := (core_brks m)[t := b]\<rparr>" "a = core_base (mmap_buf m) t + off"
    using assms(3) by (auto simp: core_alloc_def res_bind_Inr_iff split: if_splits)
  have "0 < sz" "sz + 16 < 2 ^ 64" "16 dvd boffset (core_brks m ! t)" using assms(1,2) by (auto simp: promise_fits_def core_inv_def)
  note B = Brk_Alloc_block [OF b(2) this]
  then show ?thesis using assms(1) b by (auto simp: core_inv_def core_free_def)
qed

interpretation cal: block_alloc "core_inv t" promise_fits "core_free t" "core_alloc t" for t
  by unfold_locales (rule core_alloc_law)

text \<open>The memory of a core is its own segment of the buffer; other cores are not touched.\<close>

lemma core_free_segment:
  "core_inv t m \<Longrightarrow> core_free t m \<subseteq> {mmap_buf m + t * kEpochMemoryLimitPerCore..<mmap_buf m + (t + 1) * kEpochMemoryLimitPerCore}"
  by (auto simp: core_inv_def core_free_def core_base_eq kEpochMemoryLimitPerCore_def)

lemma core_alloc_other:
  "core_alloc t sz m = Inr (m', a) \<Longrightarrow> t' \<noteq> t \<Longrightarrow> core_free t' m' = core_free t' m \<and> core_inv t' m' = core_inv t' m"
  by (auto simp: core_alloc_def res_bind_Inr_iff core_free_def core_inv_def split: if_splits)

lemma segments_disjoint:
  fixes s t :: nat
  assumes "s \<noteq> t"
  shows "{b + s * k..<b + (s + 1) * k} \<inter> {b + t * k..<b + (t + 1) * k} = {}"
proof -
  have "(s + 1) * k \<le> t * k \<or> (t + 1) * k \<le> s * k" using assms by (metis Suc_eq_plus1 linorder_neqE_nat mult_le_mono1 Suc_leI)
  then show ?thesis by auto
qed

lemma EpochMemory_Reset_inv:
  "0 < node_id \<Longrightarrow> node_id \<le> length ms \<Longrightarrow> t < nr \<Longrightarrow> core_inv t (EpochMemory_Reset node_id nr ms ! (node_id - 1))"
  by (simp add: EpochMemory_Reset_def core_inv_def fresh_brks_def Brk_New_core Brk_def)

section \<open>EpochManager and epoch objects\<close>

record epoch_mgr =
  cur_epoch_nr :: u64
  ep_nr :: u64
  ep_mem :: "node_mem list"

record epoch_obj =
  obj_epoch_nr :: u64
  obj_node_id :: nat
  obj_offset :: u64

definition EpochManager :: "node_mem list \<Rightarrow> epoch_mgr" where
  "EpochManager m = \<lparr>cur_epoch_nr = 0, ep_nr = 0, ep_mem = m\<rparr>"

definition DoAdvance :: "nat \<Rightarrow> nat \<Rightarrow> epoch_mgr \<Rightarrow> epoch_mgr" where
  "DoAdvance node_id nr_threads mgr =
     mgr\<lparr>cur_epoch_nr := cur_epoch_nr mgr + 1, ep_nr := cur_epoch_nr mgr + 1, ep_mem := EpochMemory_Reset node_id nr_threads (ep_mem mgr)\<rparr>"

definition mgr_epoch :: "u64 \<Rightarrow> epoch_mgr \<Rightarrow> u64 res" where
  "mgr_epoch nr mgr = (if nr \<noteq> cur_epoch_nr mgr then Inl (Abort ''Confused by epoch_nr'') else Inr (ep_nr mgr))"

definition mgr_ptr :: "u64 \<Rightarrow> nat \<Rightarrow> u64 \<Rightarrow> epoch_mgr \<Rightarrow> u64 res" where
  "mgr_ptr nr node_id offset mgr =
     (if nr \<noteq> cur_epoch_nr mgr then Inl (Abort ''Confused by epoch_nr'')
      else res_bind (mgr_epoch nr mgr) (\<lambda>_. res_bind (rd (ep_mem mgr) (node_id - 1)) (\<lambda>m. Inr (of_nat (mmap_buf m) + offset))))"

definition Convert :: "nat \<Rightarrow> u64 \<Rightarrow> epoch_mgr \<Rightarrow> epoch_obj res" where
  "Convert node_id p mgr =
     res_bind (mgr_ptr (cur_epoch_nr mgr) node_id 0 mgr) (\<lambda>basep.
     Inr \<lparr>obj_epoch_nr = cur_epoch_nr mgr, obj_node_id = node_id, obj_offset = p - basep\<rparr>)"

definition obj_deref :: "epoch_obj \<Rightarrow> epoch_mgr \<Rightarrow> u64 res" where
  "obj_deref ob mgr = mgr_ptr (obj_epoch_nr ob) (obj_node_id ob) (obj_offset ob) mgr"

text \<open>\<open>pool_id\<close> is the thread of the caller; workers start at 1.\<close>

definition AllocateEpochObjectOnCurrentNode :: "nat \<Rightarrow> nat \<Rightarrow> nat \<Rightarrow> epoch_mgr \<Rightarrow> (epoch_mgr \<times> epoch_obj) res" where
  "AllocateEpochObjectOnCurrentNode node_id pool_id sz mgr =
     (if pool_id = 0 then Inl (Abort ''Must run on the worker thread'')
      else res_bind (rd (ep_mem mgr) (node_id - 1)) (\<lambda>m.
           res_bind (core_alloc (pool_id - 1) sz m) (\<lambda>(m', ptr).
           Inr (mgr\<lparr>ep_mem := (ep_mem mgr)[node_id - 1 := m']\<rparr>,
                \<lparr>obj_epoch_nr = ep_nr mgr, obj_node_id = node_id, obj_offset = of_nat (ptr - mmap_buf m)\<rparr>))))"

text \<open>A pointer survives the trip through an epoch object.\<close>

lemma Convert_deref: "Convert node p mgr = Inr ob \<Longrightarrow> obj_deref ob mgr = Inr p"
  by (auto simp: Convert_def obj_deref_def mgr_ptr_def mgr_epoch_def res_bind_Inr_iff)

lemma deref_Convert: "obj_deref ob mgr = Inr p \<Longrightarrow> Convert (obj_node_id ob) p mgr = Inr ob"
  by (cases ob) (auto simp: Convert_def obj_deref_def mgr_ptr_def mgr_epoch_def res_bind_Inr_iff split: if_splits)

text \<open>Objects of the epoch before are refused.\<close>

lemma deref_stale: "obj_deref ob mgr = Inr p \<Longrightarrow> obj_deref ob (DoAdvance node nr mgr) = Inl (Abort ''Confused by epoch_nr'')"
  by (auto simp: obj_deref_def mgr_ptr_def DoAdvance_def split: if_splits)

lemma mgr_current: "ep_nr mgr = cur_epoch_nr mgr \<Longrightarrow> ep_nr (DoAdvance node nr mgr) = cur_epoch_nr (DoAdvance node nr mgr)"
  by (simp add: DoAdvance_def)

text \<open>A new object dereferences to the block that the core's allocator took.\<close>

lemma AllocateEpochObject_deref:
  assumes "AllocateEpochObjectOnCurrentNode node pool sz mgr = Inr (mgr', ob)" "ep_nr mgr = cur_epoch_nr mgr"
  shows "\<exists>m' a. core_alloc (pool - 1) sz (ep_mem mgr ! (node - 1)) = Inr (m', a) \<and> ep_mem mgr' ! (node - 1) = m' \<and> obj_deref ob mgr' = Inr (of_nat a)"
proof -
  obtain m' a where a: "node - 1 < length (ep_mem mgr)" "core_alloc (pool - 1) sz (ep_mem mgr ! (node - 1)) = Inr (m', a)"
    "mgr' = mgr\<lparr>ep_mem := (ep_mem mgr)[node - 1 := m']\<rparr>"
    "ob = \<lparr>obj_epoch_nr = ep_nr mgr, obj_node_id = node, obj_offset = of_nat (a - mmap_buf (ep_mem mgr ! (node - 1)))\<rparr>"
    using assms(1) by (auto simp: AllocateEpochObjectOnCurrentNode_def res_bind_Inr_iff rd_def split: if_splits)
  have "mmap_buf m' = mmap_buf (ep_mem mgr ! (node - 1))" "mmap_buf m' \<le> a"
    using a(2) by (auto simp: core_alloc_def res_bind_Inr_iff core_base_def split: if_splits)
  then show ?thesis using a assms(2)
    by (auto simp: obj_deref_def mgr_ptr_def mgr_epoch_def of_nat_diff)
qed

end
