(* ===== verification/Memory_Properties.thy ===== *)
theory Memory_Properties
  imports Mem_Region Commit_Buffer Epoch_Mem
begin

text \<open>
  Properties of the allocators and of the memory of an epoch, each with a concrete state
  that meets its hypotheses.
\<close>

section \<open>Pools\<close>

text \<open>
  C19. A pool never gives out a chunk that is in use, and takes back what it gave: after freeing, the
  chunks in use are those of before.
\<close>

theorem pool_alloc_free:
  assumes "bp_live q L"
  shows "\<exists>q1 x. bp_Alloc q = Inr (q1, x) \<and> (x = 0 \<and> bp_live q1 L
    \<or> x \<noteq> 0 \<and> x \<notin> L \<and> bp_live q1 (insert x L) \<and> (\<exists>q2. bp_Free x q1 = Inr q2 \<and> bp_live q2 L))"
proof -
  obtain q1 x where a: "bp_Alloc q = Inr (q1, x)" "x = 0 \<and> bp_live q1 L \<or> x \<noteq> 0 \<and> x \<notin> L \<and> bp_live q1 (insert x L)"
    using bp.alloc_ok [OF assms] by blast
  moreover have "\<exists>q2. bp_Free x q1 = Inr q2 \<and> bp_live q2 L" if "x \<notin> L" "bp_live q1 (insert x L)"
    using bp.free_ok [OF that(2), of x] that(1) by auto
  ultimately show ?thesis by blast
qed

theorem pool_alloc_free_witness:
  "\<exists>q1 x. bp_Alloc (WeakPool 64 4 4096 (\<lambda>_. 0)) = Inr (q1, x) \<and> (x = 0 \<and> bp_live q1 {} \<or> bp_live q1 {x})"
  using pool_alloc_free [where q = "WeakPool 64 4 4096 (\<lambda>_. 0)" and L = "{}"] WeakPool_live [of 64 4 4096 "\<lambda>_. 0"] by auto


definition ex_pools :: "basic_pool palloc" where
  "ex_pools = ParallelPool (\<lambda>n. 4096 * (n + 1)) 64 64 64 8 0 (\<lambda>_. 0)"


text \<open>
  C21. The size class of a request is the least power of two from 32 bytes on that holds it, and there is
  none above 16 megabytes.
\<close>

theorem size_class_least:
  assumes "1 < sz" "sz < 2 ^ 64"
  shows "SizeToClass sz = Inr (if sz \<le> 2 ^ 24 then int (LEAST k. sz \<le> 2 ^ (k + 5)) else -1)"
  using SizeToClass_least [OF assms] .

theorem size_class_least_witness: "SizeToClass 100 = Inr (int (LEAST k. 100 \<le> (2 :: nat) ^ (k + 5)))"
  using size_class_least [where sz = 100] by simp

section \<open>The memory of an epoch\<close>

text \<open>
  C22. The blocks that a thread allocates for pieces within an epoch lie in its free memory and do not overlap,
  whatever mixture of small and large sizes it asks for.
\<close>

theorem promise_blocks_disjoint:
  assumes "promise_inv st" "\<forall>sz\<in>set szs. 0 < sz \<and> sz < 2 ^ 63" "pal.alloc_all szs st = Inr (st', as)"
  shows "promise_inv st' \<and> length as = length szs
    \<and> (\<forall>i<length szs. {as ! i..<as ! i + szs ! i} \<subseteq> promise_free st)
    \<and> (\<forall>i j. i < j \<longrightarrow> j < length szs \<longrightarrow> {as ! i..<as ! i + szs ! i} \<inter> {as ! j..<as ! j + szs ! j} = {})"
  using pal.alloc_all_disjoint [OF assms(1) _ assms(3)] assms(2) by (auto simp: promise_fits_def)

lemma Align_small: "Align 24 16 = 32" "Align 100 64 = 128" "Align 128 16 = 128" "Align 256 16 = 256" "Align 32 16 = 32"
  by (simp_all add: Align_def)

definition ex_promise :: promise_alloc where
  "ex_promise = \<lparr>big_base = 4096, big = \<lparr>boffset = 256, blimit = 4064\<rparr>, mini_base = 4128, mini = Brk 224\<rparr>"

theorem promise_blocks_disjoint_witness:
  "\<exists>st' as. pal.alloc_all [24, 100] ex_promise = Inr (st', as) \<and> promise_inv st' \<and> {as ! 0..<as ! 0 + 24} \<inter> {as ! 1..<as ! 1 + 100} = {}"
proof -
  have i: "promise_inv ex_promise" by (simp add: promise_inv_def ex_promise_def Brk_def)
  obtain st' as where r: "pal.alloc_all [24, 100] ex_promise = Inr (st', as)"
    by (simp add: promise_Alloc_def ex_promise_def Brk_def Brk_Check_def Brk_Alloc_def CACHE_LINE_SIZE_def Align_small)
  note d = promise_blocks_disjoint [OF i _ r]
  have "promise_inv st'" using d by simp
  moreover have "\<forall>i j. i < j \<longrightarrow> j < length [24, 100 :: nat] \<longrightarrow> {as ! i..<as ! i + [24, 100] ! i} \<inter> {as ! j..<as ! j + [24, 100] ! j} = {}"
    by (rule d [THEN conjunct2, THEN conjunct2, THEN conjunct2]) simp
  from this [rule_format, of 0 1] have "{as ! 0..<as ! 0 + 24} \<inter> {as ! 1..<as ! 1 + 100} = {}" by simp
  ultimately show ?thesis using r by blast
qed

text \<open>
  C23. Epoch objects: on the current node a pointer converted to an epoch object dereferences to the same
  pointer, and the object is refused after the epoch has advanced.
\<close>

theorem epoch_object_round_trip:
  assumes "Convert node p mgr = Inr ob"
  shows "obj_deref ob mgr = Inr p \<and> Convert (obj_node_id ob) p mgr = Inr ob
    \<and> obj_deref ob (DoAdvance self nr mgr) = Inl (Abort ''Confused by epoch_nr'')"
  using Convert_deref [OF assms] deref_Convert [OF Convert_deref [OF assms]] deref_stale [OF Convert_deref [OF assms]] by blast

theorem epoch_object_round_trip_witness:
  "\<exists>ob. Convert 1 0x5040 (DoAdvance 1 8 (EpochManager (EpochMemory [0x5000] 1 8))) = Inr ob
    \<and> obj_deref ob (DoAdvance 1 8 (EpochManager (EpochMemory [0x5000] 1 8))) = Inr 0x5040"
proof -
  let ?m = "DoAdvance 1 8 (EpochManager (EpochMemory [0x5000] 1 8))"
  obtain ob where "Convert 1 0x5040 ?m = Inr ob"
    by (simp add: Convert_def mgr_ptr_def mgr_epoch_def DoAdvance_def EpochManager_def EpochMemory_def EpochMemory_Reset_def)
  then show ?thesis using epoch_object_round_trip [where node = 1 and p = "0x5040" and mgr = "?m" and ob = ob and self = 1 and nr = 8] by blast
qed

section \<open>The commit buffer\<close>



end
