(* ===== verification/Cpp_Heap.thy ===== *)
theory Cpp_Heap
  imports Cpp_Library
begin

text \<open>
  The binary heap of \<^verbatim>\<open><algorithm>\<close>, which the schedulers use with a comparison that makes
  it a min-heap: \<open>push_heap\<close> moves the last element up, \<open>pop_heap\<close> exchanges the first
  element with the last and moves the new first element down. The order is that of a key.
  Both work on the first \<open>n\<close> elements of an array.
\<close>

definition swap :: "nat \<Rightarrow> nat \<Rightarrow> 'a list \<Rightarrow> 'a list" where
  "swap i j xs = xs[i := xs ! j, j := xs ! i]"

definition parent :: "nat \<Rightarrow> nat" where
  "parent i = (i - 1) div 2"

function sift_up :: "('a \<Rightarrow> 'k::linorder) \<Rightarrow> nat \<Rightarrow> 'a list \<Rightarrow> 'a list" where
  "sift_up k i xs =
     (if i = 0 \<or> k (xs ! parent i) \<le> k (xs ! i) then xs
      else sift_up k (parent i) (swap (parent i) i xs))"
  by pat_completeness auto

termination
  by (relation "measure (\<lambda>(k, i, xs). i)") (auto simp: parent_def)

definition push_heap :: "('a \<Rightarrow> 'k::linorder) \<Rightarrow> nat \<Rightarrow> 'a list \<Rightarrow> 'a list" where
  "push_heap k n xs = sift_up k (n - 1) xs"

definition smaller_child :: "('a \<Rightarrow> 'k::linorder) \<Rightarrow> nat \<Rightarrow> nat \<Rightarrow> 'a list \<Rightarrow> nat" where
  "smaller_child k n i xs =
     (let l = 2 * i + 1; r = 2 * i + 2 in if r < n \<and> k (xs ! r) < k (xs ! l) then r else l)"

function sift_down :: "('a \<Rightarrow> 'k::linorder) \<Rightarrow> nat \<Rightarrow> nat \<Rightarrow> 'a list \<Rightarrow> 'a list" where
  "sift_down k n i xs =
     (if 2 * i + 1 < n \<and> k (xs ! smaller_child k n i xs) < k (xs ! i)
      then sift_down k n (smaller_child k n i xs) (swap i (smaller_child k n i xs) xs)
      else xs)"
  by pat_completeness auto

termination
  by (relation "measure (\<lambda>(k, n, i, xs). n - i)") (auto simp: smaller_child_def Let_def)

definition pop_heap :: "('a \<Rightarrow> 'k::linorder) \<Rightarrow> nat \<Rightarrow> 'a list \<Rightarrow> 'a list" where
  "pop_heap k n xs = sift_down k (n - 1) 0 (swap 0 (n - 1) xs)"

declare sift_up.simps [simp del] sift_down.simps [simp del]

section \<open>Exchanges\<close>

lemma length_swap [simp]: "length (swap i j xs) = length xs"
  by (simp add: swap_def)

lemma nth_swap: "i < length xs \<Longrightarrow> j < length xs \<Longrightarrow> m < length xs \<Longrightarrow>
    swap i j xs ! m = (if m = i then xs ! j else if m = j then xs ! i else xs ! m)"
  by (auto simp: swap_def nth_list_update)

lemma mset_swap_heap [simp]: "i < length xs \<Longrightarrow> j < length xs \<Longrightarrow> mset (swap i j xs) = mset xs"
  unfolding swap_def by (rule mset_swap)

lemma take_swap: "i < n \<Longrightarrow> j < n \<Longrightarrow> n \<le> length xs \<Longrightarrow> take n (swap i j xs) = swap i j (take n xs)"
  by (simp add: swap_def take_update_swap)

section \<open>The heap property\<close>

definition heap_on :: "('a \<Rightarrow> 'k::linorder) \<Rightarrow> nat \<Rightarrow> 'a list \<Rightarrow> bool" where
  "heap_on k n xs \<longleftrightarrow> (\<forall>i<n. 0 < i \<longrightarrow> k (xs ! parent i) \<le> k (xs ! i))"

lemma parent_less: "0 < i \<Longrightarrow> parent i < i"
  by (simp add: parent_def)

lemma heap_min:
  assumes "heap_on k n xs" "i < n"
  shows "k (xs ! 0) \<le> k (xs ! i)"
  using assms(2)
proof (induction i rule: less_induct)
  case (less i)
  show ?case
  proof (cases "i = 0")
    case False
    then have "k (xs ! 0) \<le> k (xs ! parent i)" using less parent_less [of i] by simp
    also have "\<dots> \<le> k (xs ! i)" using assms(1) less.prems False by (simp add: heap_on_def)
    finally show ?thesis .
  qed simp
qed

text \<open>While an element moves up, the heap is broken only above it.\<close>

definition up_inv :: "('a \<Rightarrow> 'k::linorder) \<Rightarrow> nat \<Rightarrow> nat \<Rightarrow> 'a list \<Rightarrow> bool" where
  "up_inv k n i xs \<longleftrightarrow> (\<forall>j<n. 0 < j \<longrightarrow> j \<noteq> i \<longrightarrow> k (xs ! parent j) \<le> k (xs ! j))
     \<and> (\<forall>j<n. 0 < j \<longrightarrow> parent j = i \<longrightarrow> 0 < i \<longrightarrow> k (xs ! parent i) \<le> k (xs ! j))"

lemma up_inv_step:
  assumes inv: "up_inv k n i xs" and i: "0 < i" "i < n" "n \<le> length xs" and gt: "k (xs ! i) < k (xs ! parent i)"
  shows "up_inv k n (parent i) (swap (parent i) i xs)"
proof -
  let ?p = "parent i" and ?ys = "swap (parent i) i xs"
  have p: "?p < i" using parent_less [OF i(1)] .
  have ys: "?ys ! m = (if m = ?p then xs ! i else if m = i then xs ! ?p else xs ! m)" if "m < n" for m
    using nth_swap [of ?p xs i m] p i that by simp
  have A: "k (xs ! parent j) \<le> k (xs ! j)" if "j < n" "0 < j" "j \<noteq> i" for j using inv that by (simp add: up_inv_def)
  have B: "k (xs ! ?p) \<le> k (xs ! j)" if "j < n" "0 < j" "parent j = i" for j using inv that i(1) by (simp add: up_inv_def)
  have one: "k (?ys ! parent j) \<le> k (?ys ! j)" if j: "j < n" "0 < j" "j \<noteq> ?p" for j
  proof -
    have pj: "parent j < n" "parent j \<noteq> j" using parent_less [OF j(2)] j(1) by auto
    consider "j = i" | "j \<noteq> i" "parent j = i" | "j \<noteq> i" "parent j = ?p" | "j \<noteq> i" "parent j \<noteq> i" "parent j \<noteq> ?p" by blast
    then show ?thesis
    proof cases
      case 1
      then show ?thesis using ys [OF pj(1)] ys [OF j(1)] gt p i by simp
    next
      case 2
      then show ?thesis using ys [OF pj(1)] ys [OF j(1)] B [OF j(1,2)] j(3) p by simp
    next
      case 3
      then show ?thesis using ys [OF pj(1)] ys [OF j(1)] A [OF j(1,2)] j(3) gt by simp
    next
      case 4
      then show ?thesis using ys [OF pj(1)] ys [OF j(1)] A [OF j(1,2)] j(3) by simp
    qed
  qed
  have two: "k (?ys ! parent ?p) \<le> k (?ys ! j)" if j: "j < n" "0 < j" "parent j = ?p" "0 < ?p" for j
  proof -
    have pp: "parent ?p < ?p" using parent_less [OF j(4)] .
    have e: "?ys ! parent ?p = xs ! parent ?p" using ys [of "parent ?p"] pp p i(2) by simp
    have g: "k (xs ! parent ?p) \<le> k (xs ! ?p)" using A [of ?p] j(4) p i(2) by simp
    show ?thesis
    proof (cases "j = i")
      case True
      then show ?thesis using ys [OF j(1)] e g p by simp
    next
      case False
      have "j \<noteq> ?p" using parent_less [OF j(2)] j(3) by auto
      then have "?ys ! j = xs ! j" using ys [OF j(1)] False by simp
      moreover have "k (xs ! ?p) \<le> k (xs ! j)" using A [OF j(1,2) False] j(3) by simp
      ultimately show ?thesis using e g by simp
    qed
  qed
  show ?thesis unfolding up_inv_def using one two by blast
qed

lemma sift_up_heap:
  assumes "up_inv k n i xs" "i < n" "n \<le> length xs"
  shows "heap_on k n (sift_up k i xs) \<and> mset (sift_up k i xs) = mset xs \<and> length (sift_up k i xs) = length xs
    \<and> drop n (sift_up k i xs) = drop n xs \<and> mset (take n (sift_up k i xs)) = mset (take n xs)"
  using assms
proof (induction k i xs rule: sift_up.induct)
  case (1 k i xs)
  show ?case
  proof (cases "i = 0 \<or> k (xs ! parent i) \<le> k (xs ! i)")
    case True
    then have "heap_on k n xs" using 1(2) by (auto simp: up_inv_def heap_on_def)
    then show ?thesis using True by (simp add: sift_up.simps [of k i xs])
  next
    case False
    then have i: "0 < i" "k (xs ! i) < k (xs ! parent i)" by auto
    let ?ys = "swap (parent i) i xs"
    have p: "parent i < n" "parent i < length xs" "i < length xs" using parent_less [OF i(1)] 1(3,4) by simp_all
    have "up_inv k n (parent i) ?ys" by (rule up_inv_step [OF 1(2) i(1) 1(3,4) i(2)])
    note IH = 1(1) [OF False this p(1)]
    have "drop n ?ys = drop n xs" using p 1(3) by (simp add: swap_def)
    moreover have "mset (take n ?ys) = mset (take n xs)" using p 1(3,4) by (simp add: take_swap)
    ultimately show ?thesis using IH p 1(4) False by (simp add: sift_up.simps [of k i xs])
  qed
qed

text \<open>\<open>push_heap\<close>: the first \<open>n - 1\<close> elements are a heap, the first \<open>n\<close> become one.\<close>

lemma push_heap_heap:
  assumes "heap_on k (n - 1) xs" "0 < n" "n \<le> length xs"
  shows "heap_on k n (push_heap k n xs) \<and> length (push_heap k n xs) = length xs
    \<and> drop n (push_heap k n xs) = drop n xs \<and> mset (take n (push_heap k n xs)) = mset (take n xs)"
proof -
  have "up_inv k n (n - 1) xs"
    using assms(1) by (auto simp: up_inv_def heap_on_def parent_def)
  then show ?thesis using sift_up_heap [of k n "n - 1" xs] assms(2,3) by (simp add: push_heap_def)
qed

text \<open>While an element moves down, the heap is broken only below it.\<close>

definition down_inv :: "('a \<Rightarrow> 'k::linorder) \<Rightarrow> nat \<Rightarrow> nat \<Rightarrow> 'a list \<Rightarrow> bool" where
  "down_inv k n i xs \<longleftrightarrow> (\<forall>j<n. 0 < j \<longrightarrow> parent j \<noteq> i \<longrightarrow> k (xs ! parent j) \<le> k (xs ! j))
     \<and> (\<forall>j<n. 0 < j \<longrightarrow> parent j = i \<longrightarrow> 0 < i \<longrightarrow> k (xs ! parent i) \<le> k (xs ! j))"

lemma parent_cases: "0 < j \<Longrightarrow> parent j = i \<longleftrightarrow> j = 2 * i + 1 \<or> j = 2 * i + 2"
  by (auto simp: parent_def)

lemma smaller_child_least:
  assumes "2 * i + 1 < n"
  shows "smaller_child k n i xs < n" "parent (smaller_child k n i xs) = i" "i < smaller_child k n i xs"
    "\<And>j. j < n \<Longrightarrow> 0 < j \<Longrightarrow> parent j = i \<Longrightarrow> k (xs ! smaller_child k n i xs) \<le> k (xs ! j)"
proof -
  show "smaller_child k n i xs < n" "parent (smaller_child k n i xs) = i" "i < smaller_child k n i xs"
    using assms by (simp_all add: smaller_child_def Let_def parent_def)
  fix j assume "j < n" "0 < j" "parent j = i"
  then have "j < n" "j = 2 * i + 1 \<or> j = 2 * i + 2" using parent_cases [of j i] by auto
  then show "k (xs ! smaller_child k n i xs) \<le> k (xs ! j)"
    by (elim disjE) (auto simp: smaller_child_def Let_def less_imp_le)
qed

lemma down_inv_step:
  assumes inv: "down_inv k n i xs" and n: "n \<le> length xs" and l: "2 * i + 1 < n"
    and c: "c = smaller_child k n i xs" and lt: "k (xs ! c) < k (xs ! i)"
  shows "down_inv k n c (swap i c xs)"
proof -
  let ?ys = "swap i c xs"
  have cn: "c < n" "parent c = i" "i < c" "i < n" using smaller_child_least(1-3) [OF l, of k xs] l by (simp_all add: c)
  have least: "k (xs ! c) \<le> k (xs ! j)" if "j < n" "0 < j" "parent j = i" for j
    using smaller_child_least(4) [OF l that] by (simp add: c)
  have ys: "?ys ! m = (if m = i then xs ! c else if m = c then xs ! i else xs ! m)" if "m < n" for m
    using nth_swap [of i xs c m] cn n that by simp
  have A: "k (xs ! parent j) \<le> k (xs ! j)" if "j < n" "0 < j" "parent j \<noteq> i" for j using inv that by (simp add: down_inv_def)
  have B: "k (xs ! parent i) \<le> k (xs ! j)" if "j < n" "0 < j" "parent j = i" "0 < i" for j using inv that by (simp add: down_inv_def)
  have one: "k (?ys ! parent j) \<le> k (?ys ! j)" if j: "j < n" "0 < j" "parent j \<noteq> c" for j
  proof -
    have pj: "parent j < n" using parent_less [OF j(2)] j(1) by simp
    consider "parent j = i" "j = c" | "parent j = i" "j \<noteq> c" | "parent j \<noteq> i" "j = i" | "parent j \<noteq> i" "j \<noteq> i" by blast
    then show ?thesis
    proof cases
      case 1
      then show ?thesis using ys [OF pj] ys [OF j(1)] lt cn by simp
    next
      case 2
      then have "j \<noteq> i" using parent_less [OF j(2)] by auto
      then show ?thesis using 2 ys [OF pj] ys [OF j(1)] least [OF j(1,2)] by simp
    next
      case 3
      then show ?thesis using ys [OF pj] ys [OF j(1)] B [OF cn(1) _ cn(2)] j cn(3) by simp
    next
      case 4
      then have "j \<noteq> c" using cn(2) by auto
      then show ?thesis using 4 ys [OF pj] ys [OF j(1)] A [OF j(1,2)] j(3) by simp
    qed
  qed
  have two: "k (?ys ! parent c) \<le> k (?ys ! j)" if j: "j < n" "0 < j" "parent j = c" for j
  proof -
    have "j \<noteq> c" "j \<noteq> i" using parent_less [OF j(2)] j(3) cn(3) by auto
    then show ?thesis using ys [OF j(1)] ys [OF cn(4)] A [OF j(1,2)] j(3) cn by simp
  qed
  show ?thesis unfolding down_inv_def using one two by blast
qed

lemma sift_down_heap:
  assumes "down_inv k n i xs" "n \<le> length xs" "i < n \<or> n = 0"
  shows "heap_on k n (sift_down k n i xs) \<and> length (sift_down k n i xs) = length xs
    \<and> drop n (sift_down k n i xs) = drop n xs \<and> mset (take n (sift_down k n i xs)) = mset (take n xs)"
  using assms
proof (induction k n i xs rule: sift_down.induct)
  case (1 k n i xs)
  let ?c = "smaller_child k n i xs"
  show ?case
  proof (cases "2 * i + 1 < n \<and> k (xs ! ?c) < k (xs ! i)")
    case True
    then have l: "2 * i + 1 < n" "k (xs ! ?c) < k (xs ! i)" by auto
    have c: "?c < n" "i < n" using smaller_child_least(1) [OF l(1), of k xs] l(1) by auto
    have "down_inv k n ?c (swap i ?c xs)" by (rule down_inv_step [OF 1(2,3) l(1) refl l(2)])
    note IH = 1(1) [OF True this]
    have "drop n (swap i ?c xs) = drop n xs" using c by (simp add: swap_def)
    moreover have "mset (take n (swap i ?c xs)) = mset (take n xs)" using c 1(3) by (simp add: take_swap)
    ultimately show ?thesis using IH c 1(3) True by (simp add: sift_down.simps [of k n i xs])
  next
    case False
    have "heap_on k n xs"
      unfolding heap_on_def
    proof (intro allI impI)
      fix j assume j: "j < n" "0 < j"
      show "k (xs ! parent j) \<le> k (xs ! j)"
      proof (cases "parent j = i")
        case True
        then have l: "2 * i + 1 < n" using j parent_cases [of j i] by auto
        then have "k (xs ! i) \<le> k (xs ! ?c)" using False by simp
        also have "\<dots> \<le> k (xs ! j)" by (rule smaller_child_least(4) [OF l j True])
        finally show ?thesis using True by simp
      next
        case False
        then show ?thesis using 1(2) j by (simp add: down_inv_def)
      qed
    qed
    moreover have "sift_down k n i xs = xs" using False by (subst sift_down.simps) (rule if_not_P)
    ultimately show ?thesis by simp
  qed
qed

text \<open>\<open>pop_heap\<close>: the least element goes to the end, the others stay a heap.\<close>

lemma pop_heap_heap:
  assumes "heap_on k n xs" "0 < n" "n \<le> length xs"
  shows "heap_on k (n - 1) (pop_heap k n xs) \<and> length (pop_heap k n xs) = length xs
    \<and> drop n (pop_heap k n xs) = drop n xs \<and> pop_heap k n xs ! (n - 1) = xs ! 0
    \<and> mset (take n xs) = add_mset (xs ! 0) (mset (take (n - 1) (pop_heap k n xs)))"
proof -
  let ?ys = "swap 0 (n - 1) xs"
  have ys: "?ys ! m = (if m = 0 then xs ! (n - 1) else if m = n - 1 then xs ! 0 else xs ! m)" if "m < n" for m
    by (rule nth_swap) (use assms that in linarith)+
  have "k (?ys ! parent j) \<le> k (?ys ! j)" if "j < n - 1" "0 < j" "parent j \<noteq> 0" for j
    using ys [of j] ys [of "parent j"] parent_less [of j] assms that by (auto simp: heap_on_def)
  then have "down_inv k (n - 1) 0 ?ys" by (simp add: down_inv_def)
  have nl: "n - 1 \<le> length ?ys" "0 < n - 1 \<or> n - 1 = 0" using assms by auto
  from \<open>down_inv k (n - 1) 0 ?ys\<close> have D: "heap_on k (n - 1) (pop_heap k n xs)" "length (pop_heap k n xs) = length xs"
    "drop (n - 1) (pop_heap k n xs) = drop (n - 1) ?ys" "mset (take (n - 1) (pop_heap k n xs)) = mset (take (n - 1) ?ys)"
    using sift_down_heap [of k "n - 1" 0 ?ys] nl unfolding pop_heap_def by auto
  have e: "pop_heap k n xs ! (n - 1 + m) = ?ys ! (n - 1 + m)" if "n - 1 + m < length xs" for m
    using arg_cong [OF D(3), of "\<lambda>l. l ! m"] that D(2) by simp
  have "n - 1 + 0 < length xs" using assms(2,3) by linarith
  then have last: "pop_heap k n xs ! (n - 1) = xs ! 0" using e [of 0] ys [of "n - 1"] assms(2) by (cases "n = 1") auto
  have "drop n (pop_heap k n xs) = drop 1 (drop (n - 1) (pop_heap k n xs))" using assms(2) by simp
  also have "\<dots> = drop n ?ys" unfolding D(3) using assms(2) by simp
  also have "\<dots> = drop n xs" using assms by (simp add: swap_def)
  finally have dn: "drop n (pop_heap k n xs) = drop n xs" .
  have "take n ?ys = take (n - 1) ?ys @ [?ys ! (n - 1)]"
    using take_Suc_conv_app_nth [of "n - 1" ?ys] assms(2,3) by simp
  moreover have "?ys ! (n - 1) = xs ! 0" using ys [of "n - 1"] assms(2) by (cases "n = 1") auto
  moreover have "mset (take n ?ys) = mset (take n xs)" using assms by (simp add: take_swap)
  ultimately have "mset (take n xs) = add_mset (xs ! 0) (mset (take (n - 1) ?ys))" by (metis mset_append mset_single_iff_right add_mset_add_single mset.simps)
  then show ?thesis using D last dn by simp
qed

end
