(* ===== verification/Prio_Queue.thy ===== *)
theory Prio_Queue
  imports Cpp_Heap Mem_Pool
begin

text \<open>
  The priority queue of pieces of a core, \<^verbatim>\<open>src/routine_sched.cc\<close>: many pieces have the same
  key, so a heap holds one element per key, and a hash table finds the entry of a key with
  its list of pieces (\<open>AddToPriorityQueue\<close>, \<open>ConservativePriorityScheduler\<close>). Nodes and
  entries come from a bump allocator; an entry is named by its position in the order of
  allocation. The interface is a map from keys to first-in first-out lists.
\<close>

section \<open>Pieces\<close>

record piece =
  piece_id :: nat
  sched_key :: u64

record pvalue =
  vroutine :: piece
  vstate :: "nat option"

record hash_entry =
  hkey :: u64
  hvalues :: "pvalue list"

record prio_queue =
  heap_q :: "(u64 \<times> nat) list"
  hents :: "hash_entry list"
  ht :: "nat list list"
  pbrk :: brk

definition kHashTableSize :: nat where "kHashTableSize = 100001"

definition Hash :: "u64 \<Rightarrow> nat" where
  "Hash key = unat (drop_bit 8 key) mod 2 ^ 32"

definition bucket_of :: "nat \<Rightarrow> u64 \<Rightarrow> nat" where
  "bucket_of sz key = Hash key mod sz"

definition pq_init :: "nat \<Rightarrow> nat \<Rightarrow> prio_queue" where
  "pq_init sz brk_sz = \<lparr>heap_q = [], hents = [], ht = replicate sz [], pbrk = Brk brk_sz\<rparr>"

section \<open>Operations\<close>

definition set_values :: "nat \<Rightarrow> pvalue list \<Rightarrow> prio_queue \<Rightarrow> prio_queue" where
  "set_values e vs q = q\<lparr>hents := (hents q)[e := (hents q ! e)\<lparr>hvalues := vs\<rparr>]\<rparr>"

definition IngestPending :: "nat \<Rightarrow> pvalue \<Rightarrow> prio_queue \<Rightarrow> prio_queue" where
  "IngestPending e v q =
     (let ent = hents q ! e;
          q1 = (if hvalues ent = []
                then q\<lparr>heap_q := push_heap fst (Suc (length (heap_q q))) (heap_q q @ [(hkey ent, e)])\<rparr>
                else q)
      in set_values e (hvalues ent @ [v]) q1)"

fun find_entry :: "u64 \<Rightarrow> hash_entry list \<Rightarrow> nat list \<Rightarrow> nat option" where
  "find_entry key es [] = None"
| "find_entry key es (e # bs) = (if hkey (es ! e) = key then Some e else find_entry key es bs)"

definition AddToPriorityQueue :: "piece \<Rightarrow> nat option \<Rightarrow> prio_queue \<Rightarrow> prio_queue res" where
  "AddToPriorityQueue rt st q =
     res_bind (Brk_Alloc 64 (pbrk q)) (\<lambda>(b1, o1).
     let key = sched_key rt; h = bucket_of (length (ht q)) key; q1 = q\<lparr>pbrk := b1\<rparr> in
     case find_entry key (hents q1) (ht q1 ! h) of
       Some e \<Rightarrow> Inr (IngestPending e \<lparr>vroutine = rt, vstate = st\<rparr> q1)
     | None \<Rightarrow>
         res_bind (Brk_Alloc 64 (pbrk q1)) (\<lambda>(b2, o2).
         let e = length (hents q1);
             q2 = q1\<lparr>pbrk := b2, hents := hents q1 @ [\<lparr>hkey = key, hvalues = []\<rparr>], ht := (ht q1)[h := ht q1 ! h @ [e]]\<rparr>
         in Inr (IngestPending e \<lparr>vroutine = rt, vstate = st\<rparr> q2)))"

definition pq_empty :: "prio_queue \<Rightarrow> bool" where
  "pq_empty q \<longleftrightarrow> length (heap_q q) = 0"

definition Pick :: "prio_queue \<Rightarrow> pvalue" where
  "Pick q = hd (hvalues (hents q ! snd (heap_q q ! 0)))"

text \<open>\<open>Consume\<close> unlinks the node that \<open>Pick\<close> returned.\<close>

definition Consume :: "prio_queue \<Rightarrow> prio_queue" where
  "Consume q =
     (let top = heap_q q ! 0; e = snd top;
          q1 = set_values e (tl (hvalues (hents q ! e))) q
      in if hvalues (hents q1 ! e) = []
         then let h = bucket_of (length (ht q1)) (hkey (hents q1 ! e))
              in q1\<lparr>heap_q := butlast (pop_heap fst (length (heap_q q1)) (heap_q q1)),
                    ht := (ht q1)[h := removeAll e (ht q1 ! h)]\<rparr>
         else q1)"

definition pq_Reset :: "prio_queue \<Rightarrow> prio_queue res" where
  "pq_Reset q = (if length (heap_q q) > 0 then Inl (Abort ''Reset() called, but len > 0'')
                 else Inr (q\<lparr>pbrk := Brk_Reset (pbrk q)\<rparr>))"

section \<open>The interface\<close>

text \<open>A sorted list with the same elements of each key in the same order is the stable sort.\<close>

lemma stable_sort_unique:
  assumes "sorted (map f ys)" "\<And>k. filter (\<lambda>p. f p = k) ys = filter (\<lambda>p. f p = k) xs"
  shows "ys = sort_key f xs"
proof -
  have "count (mset ys) x = count (mset xs) x" for x
  proof -
    have c: "count (mset zs) x = count (mset (filter (\<lambda>p. f p = f x) zs)) x" for zs by simp
    show ?thesis using assms(2) [of "f x"] c [of ys] c [of xs] by presburger
  qed
  then have "mset ys = mset xs" by (rule multiset_eqI)
  moreover have "filter (\<lambda>x. f k = f x) ys = filter (\<lambda>x. f k = f x) xs" for k
    using assms(2) [of "f k"] by (simp add: eq_commute)
  ultimately show ?thesis using assms(1) by (intro properties_for_sort_key [symmetric])
qed

text \<open>
  A queue of pieces by priority promises: pieces of one key in the order in which they were
  added, and of all keys the least first.
\<close>

locale prio_fifo =
  fixes inv :: "'q \<Rightarrow> bool"
    and by_key :: "'q \<Rightarrow> u64 \<Rightarrow> pvalue list"
    and add :: "piece \<Rightarrow> nat option \<Rightarrow> 'q \<Rightarrow> 'q res"
    and is_empty_q :: "'q \<Rightarrow> bool"
    and pick :: "'q \<Rightarrow> pvalue"
    and consume :: "'q \<Rightarrow> 'q"
  assumes add_law: "inv q \<Longrightarrow> add p s q = Inr q' \<Longrightarrow>
      inv q' \<and> by_key q' = (by_key q)(sched_key p := by_key q (sched_key p) @ [\<lparr>vroutine = p, vstate = s\<rparr>])"
    and keys_law: "inv q \<Longrightarrow> v \<in> set (by_key q k) \<Longrightarrow> sched_key (vroutine v) = k"
    and empty_law: "inv q \<Longrightarrow> is_empty_q q \<longleftrightarrow> (\<forall>k. by_key q k = [])"
    and finite_law: "inv q \<Longrightarrow> finite {k. by_key q k \<noteq> []}"
    and pick_law: "inv q \<Longrightarrow> \<not> is_empty_q q \<Longrightarrow> \<exists>k vs. by_key q k = pick q # vs
      \<and> (\<forall>j. by_key q j \<noteq> [] \<longrightarrow> k \<le> j) \<and> inv (consume q) \<and> by_key (consume q) = (by_key q)(k := vs)"
begin

definition total :: "'q \<Rightarrow> nat" where
  "total q = (\<Sum>k\<in>{k. by_key q k \<noteq> []}. length (by_key q k))"

fun drain :: "nat \<Rightarrow> 'q \<Rightarrow> pvalue list" where
  "drain 0 q = []"
| "drain (Suc n) q = (if is_empty_q q then [] else pick q # drain n (consume q))"

fun add_all :: "piece list \<Rightarrow> 'q \<Rightarrow> 'q res" where
  "add_all [] q = Inr q"
| "add_all (p # ps) q = res_bind (add p None q) (add_all ps)"

lemma total_pos: "inv q \<Longrightarrow> \<not> is_empty_q q \<Longrightarrow> 0 < total q"
  using finite_law [of q] empty_law [of q] by (auto simp: total_def sum_pos2 intro!: sum_pos)

lemma total_consume:
  assumes "inv q" "\<not> is_empty_q q"
  shows "total q = Suc (total (consume q))"
proof -
  obtain k vs where k: "by_key q k = pick q # vs" "by_key (consume q) = (by_key q)(k := vs)" using pick_law [OF assms] by blast
  let ?A = "{j. by_key q j \<noteq> []}"
  have fin: "finite ?A" "k \<in> ?A" using finite_law [OF assms(1)] k(1) by auto
  have "total q = length (by_key q k) + (\<Sum>j\<in>?A - {k}. length (by_key q j))"
    unfolding total_def by (rule sum.remove [OF fin])
  moreover have "total (consume q) = (\<Sum>j\<in>?A. length (by_key (consume q) j))"
    unfolding total_def by (rule sum.mono_neutral_left) (use fin k in \<open>auto split: if_splits\<close>)
  moreover have "\<dots> = length (by_key (consume q) k) + (\<Sum>j\<in>?A - {k}. length (by_key (consume q) j))"
    by (rule sum.remove [OF fin])
  moreover have "(\<Sum>j\<in>?A - {k}. length (by_key (consume q) j)) = (\<Sum>j\<in>?A - {k}. length (by_key q j))"
    by (rule sum.cong) (auto simp: k(2))
  ultimately show ?thesis using k by simp
qed

lemma total_empty: "inv q \<Longrightarrow> total q = 0 \<Longrightarrow> is_empty_q q"
  using total_pos by fastforce

text \<open>Draining the queue gives every piece, sorted by key, first in first out for each key.\<close>

lemma drain_order:
  assumes "inv q" "total q \<le> n"
  shows "sorted (map (\<lambda>v. sched_key (vroutine v)) (drain n q)) \<and> (\<forall>k. filter (\<lambda>v. sched_key (vroutine v) = k) (drain n q) = by_key q k)"
  using assms
proof (induction n arbitrary: q)
  case 0
  then have "is_empty_q q" using total_empty by simp
  then show ?case using 0 empty_law [of q] by simp
next
  case (Suc n)
  show ?case
  proof (cases "is_empty_q q")
    case True
    then show ?thesis using empty_law [of q] Suc.prems by simp
  next
    case False
    obtain k vs where k: "by_key q k = pick q # vs" "\<forall>j. by_key q j \<noteq> [] \<longrightarrow> k \<le> j" "inv (consume q)" "by_key (consume q) = (by_key q)(k := vs)"
      using pick_law [OF Suc.prems(1) False] by blast
    have pk: "sched_key (vroutine (pick q)) = k" using keys_law [OF Suc.prems(1), of "pick q" k] k(1) by simp
    have "total (consume q) \<le> n" using total_consume [OF Suc.prems(1) False] Suc.prems(2) by simp
    note IH = Suc.IH [OF k(3) this]
    have flt: "filter (\<lambda>v. sched_key (vroutine v) = j) (drain n (consume q)) = by_key (consume q) j" for j using IH by simp
    have "k \<le> sched_key (vroutine v)" if v: "v \<in> set (drain n (consume q))" for v
    proof -
      let ?j = "sched_key (vroutine v)"
      have "v \<in> set (filter (\<lambda>w. sched_key (vroutine w) = ?j) (drain n (consume q)))" using v by simp
      then have "v \<in> set (by_key (consume q) ?j)" unfolding flt .
      then have "by_key q ?j \<noteq> []" using k(1,4) by (cases "?j = k") auto
      then show ?thesis using k(2) by simp
    qed
    then have "sorted (map (\<lambda>v. sched_key (vroutine v)) (drain (Suc n) q))" using False IH pk by simp
    moreover have "filter (\<lambda>v. sched_key (vroutine v) = j) (drain (Suc n) q) = by_key q j" for j
      using False flt [of j] pk k(1,4) by (cases "j = k") auto
    ultimately show ?thesis by blast
  qed
qed

lemma drain_length: "inv q \<Longrightarrow> total q = n \<Longrightarrow> length (drain n q) = n"
proof (induction n arbitrary: q)
  case (Suc n)
  then have ne: "\<not> is_empty_q q" using empty_law [of q] by (auto simp: total_def)
  then have "inv (consume q)" using pick_law [OF Suc.prems(1)] by blast
  then show ?case using Suc ne total_consume [OF Suc.prems(1) ne] by simp
qed simp

lemma add_all_keys:
  assumes "inv q" "add_all ps q = Inr q'"
  shows "inv q' \<and> (\<forall>k. by_key q' k = by_key q k @ map (\<lambda>p. \<lparr>vroutine = p, vstate = None\<rparr>) (filter (\<lambda>p. sched_key p = k) ps))"
  using assms
proof (induction ps arbitrary: q)
  case (Cons p ps)
  obtain q1 where a: "add p None q = Inr q1" "add_all ps q1 = Inr q'" using Cons.prems(2) by (auto simp: res_bind_Inr_iff)
  note L = add_law [OF Cons.prems(1) a(1)]
  show ?case using Cons.IH [OF _ a(2)] L by auto
qed simp

text \<open>The pieces of a queue.\<close>

definition contents :: "'q \<Rightarrow> piece multiset" where
  "contents q = (\<Sum>k\<in>{k. by_key q k \<noteq> []}. mset (map vroutine (by_key q k)))"

lemma contents_key:
  assumes "inv q" "inv q'" "by_key q' = (by_key q)(k := vs)"
  shows "contents q + mset (map vroutine vs) = contents q' + mset (map vroutine (by_key q k))"
proof -
  let ?A = "insert k ({j. by_key q j \<noteq> []} \<union> {j. by_key q' j \<noteq> []})"
  have fin: "finite ?A" using finite_law assms(1,2) by simp
  have c: "contents p = (\<Sum>j\<in>?A. mset (map vroutine (by_key p j)))" if "p = q \<or> p = q'" for p
    unfolding contents_def by (rule sum.mono_neutral_left) (use fin that in auto)
  have "(\<Sum>j\<in>?A - {k}. mset (map vroutine (by_key q' j))) = (\<Sum>j\<in>?A - {k}. mset (map vroutine (by_key q j)))"
    by (rule sum.cong) (auto simp: assms(3))
  moreover have r: "(\<Sum>j\<in>?A. mset (map vroutine (by_key p j))) = mset (map vroutine (by_key p k)) + (\<Sum>j\<in>?A - {k}. mset (map vroutine (by_key p j)))" for p
    by (rule sum.remove [OF fin]) simp
  ultimately show ?thesis using c [of q] c [of q'] r [of q] r [of q'] assms(3) by simp
qed

lemma contents_add:
  assumes "inv q" "add p s q = Inr q'"
  shows "contents q' = add_mset p (contents q)"
  using contents_key [OF assms(1), of q' "sched_key p" "by_key q (sched_key p) @ [\<lparr>vroutine = p, vstate = s\<rparr>]"] add_law [OF assms] by simp

lemma contents_add_all:
  assumes "inv q" "add_all ps q = Inr q'"
  shows "contents q' = contents q + mset ps"
  using assms
proof (induction ps arbitrary: q)
  case (Cons p ps)
  obtain q1 where a: "add p None q = Inr q1" "add_all ps q1 = Inr q'" using Cons.prems(2) by (auto simp: res_bind_Inr_iff)
  show ?case using Cons.IH [OF _ a(2)] add_law [OF Cons.prems(1) a(1)] contents_add [OF Cons.prems(1) a(1)] by simp
qed simp

lemma contents_consume:
  assumes "inv q" "\<not> is_empty_q q"
  shows "contents q = add_mset (vroutine (pick q)) (contents (consume q))"
proof -
  obtain k vs where k: "by_key q k = pick q # vs" "inv (consume q)" "by_key (consume q) = (by_key q)(k := vs)" using pick_law [OF assms] by blast
  show ?thesis using contents_key [OF assms(1) k(2,3)] k(1) by simp
qed

lemma contents_keys: "inv q \<Longrightarrow> p \<in># contents q \<longleftrightarrow> (\<exists>v\<in>set (by_key q (sched_key p)). vroutine v = p)"
proof -
  assume inv: "inv q"
  have "p \<in># contents q \<longleftrightarrow> (\<exists>k. \<exists>v\<in>set (by_key q k). vroutine v = p)"
    unfolding contents_def set_mset_sum [OF finite_law [OF inv]] by (auto simp: image_iff) force
  then show ?thesis using keys_law [OF inv] by blast
qed

lemma contents_empty: "inv q \<Longrightarrow> is_empty_q q \<longleftrightarrow> contents q = {#}"
proof
  assume "inv q" "is_empty_q q"
  then show "contents q = {#}" using empty_law [of q] by (simp add: contents_def)
next
  assume "inv q" "contents q = {#}"
  then show "is_empty_q q" using contents_consume [of q] by fastforce
qed

lemma pick_least: "inv q \<Longrightarrow> \<not> is_empty_q q \<Longrightarrow> p \<in># contents q \<Longrightarrow> sched_key (vroutine (pick q)) \<le> sched_key p"
proof -
  assume q: "inv q" "\<not> is_empty_q q" "p \<in># contents q"
  obtain k vs where k: "by_key q k = pick q # vs" "\<forall>j. by_key q j \<noteq> [] \<longrightarrow> k \<le> j" using pick_law [OF q(1,2)] by blast
  have "sched_key (vroutine (pick q)) = k" using keys_law [OF q(1), of "pick q" k] k(1) by simp
  moreover have "by_key q (sched_key p) \<noteq> []" using q(3) contents_keys [OF q(1)] by auto
  ultimately show ?thesis using k(2) by simp
qed

text \<open>Pieces added to an empty queue come out as a stable sort by their keys.\<close>

lemma add_all_drain:
  assumes "inv q" "is_empty_q q" "add_all ps q = Inr q'" "total q' \<le> n"
  shows "map vroutine (drain n q') = sort_key sched_key ps"
proof -
  let ?f = "\<lambda>v. sched_key (vroutine v)"
  have K: "inv q'" "\<And>k. by_key q' k = map (\<lambda>p. \<lparr>vroutine = p, vstate = None\<rparr>) (filter (\<lambda>p. sched_key p = k) ps)"
    using add_all_keys [OF assms(1,3)] empty_law [OF assms(1)] assms(2) by auto
  have D: "sorted (map ?f (drain n q'))" "\<And>k. filter (\<lambda>v. ?f v = k) (drain n q') = by_key q' k"
    using drain_order [OF K(1) assms(4)] by auto
  let ?ys = "map vroutine (drain n q')"
  have F: "filter (\<lambda>p. sched_key p = k) ?ys = filter (\<lambda>p. sched_key p = k) ps" for k
  proof -
    have "filter (\<lambda>p. sched_key p = k) ?ys = map vroutine (filter (\<lambda>v. ?f v = k) (drain n q'))"
      by (simp add: filter_map comp_def)
    also have "\<dots> = filter (\<lambda>p. sched_key p = k) ps" by (simp add: D(2) K(2) comp_def)
    finally show ?thesis .
  qed
  show ?thesis using stable_sort_unique [of sched_key ?ys ps] D(1) F by (simp add: comp_def)
qed

lemma add_all_total:
  assumes "inv q" "is_empty_q q" "add_all ps q = Inr q'"
  shows "total q' = length ps"
proof -
  have "inv q'" using add_all_keys [OF assms(1,3)] by blast
  then have "length (drain (total q') q') = total q'" by (rule drain_length) simp
  moreover have "length (map vroutine (drain (total q') q')) = length ps" using add_all_drain [OF assms order.refl] by simp
  ultimately show ?thesis by simp
qed

end

section \<open>The implementation\<close>

definition pq_inv :: "prio_queue \<Rightarrow> bool" where
  "pq_inv q \<longleftrightarrow> heap_on fst (length (heap_q q)) (heap_q q) \<and> distinct (map fst (heap_q q)) \<and> 0 < length (ht q)
     \<and> (\<forall>k e. (k, e) \<in> set (heap_q q) \<longrightarrow> e < length (hents q) \<and> hkey (hents q ! e) = k \<and> hvalues (hents q ! e) \<noteq> []
          \<and> (\<forall>v\<in>set (hvalues (hents q ! e)). sched_key (vroutine v) = k) \<and> e \<in> set (ht q ! bucket_of (length (ht q)) k))
     \<and> (\<forall>b<length (ht q). \<forall>e\<in>set (ht q ! b). (hkey (hents q ! e), e) \<in> set (heap_q q) \<and> bucket_of (length (ht q)) (hkey (hents q ! e)) = b)"

definition pq_by_key :: "prio_queue \<Rightarrow> u64 \<Rightarrow> pvalue list" where
  "pq_by_key q k = (case map_of (heap_q q) k of None \<Rightarrow> [] | Some e \<Rightarrow> hvalues (hents q ! e))"

lemma pq_invD:
  assumes "pq_inv q"
  shows "heap_on fst (length (heap_q q)) (heap_q q)" "distinct (map fst (heap_q q))" "0 < length (ht q)"
    "\<And>k e. (k, e) \<in> set (heap_q q) \<Longrightarrow> e < length (hents q)"
    "\<And>k e. (k, e) \<in> set (heap_q q) \<Longrightarrow> hkey (hents q ! e) = k"
    "\<And>k e. (k, e) \<in> set (heap_q q) \<Longrightarrow> hvalues (hents q ! e) \<noteq> []"
    "\<And>k e v. (k, e) \<in> set (heap_q q) \<Longrightarrow> v \<in> set (hvalues (hents q ! e)) \<Longrightarrow> sched_key (vroutine v) = k"
    "\<And>k e. (k, e) \<in> set (heap_q q) \<Longrightarrow> e \<in> set (ht q ! bucket_of (length (ht q)) k)"
    "\<And>b e. b < length (ht q) \<Longrightarrow> e \<in> set (ht q ! b) \<Longrightarrow> (hkey (hents q ! e), e) \<in> set (heap_q q)"
    "\<And>b e. b < length (ht q) \<Longrightarrow> e \<in> set (ht q ! b) \<Longrightarrow> bucket_of (length (ht q)) (hkey (hents q ! e)) = b"
  using assms unfolding pq_inv_def by blast+

lemma pq_invI:
  assumes "heap_on fst (length (heap_q q)) (heap_q q)" "distinct (map fst (heap_q q))" "0 < length (ht q)"
    "\<And>k e. (k, e) \<in> set (heap_q q) \<Longrightarrow> e < length (hents q) \<and> hkey (hents q ! e) = k \<and> hvalues (hents q ! e) \<noteq> []
       \<and> (\<forall>v\<in>set (hvalues (hents q ! e)). sched_key (vroutine v) = k) \<and> e \<in> set (ht q ! bucket_of (length (ht q)) k)"
    "\<And>b e. b < length (ht q) \<Longrightarrow> e \<in> set (ht q ! b) \<Longrightarrow>
       (hkey (hents q ! e), e) \<in> set (heap_q q) \<and> bucket_of (length (ht q)) (hkey (hents q ! e)) = b"
  shows "pq_inv q"
  using assms unfolding pq_inv_def by blast

lemma bucket_less: "0 < sz \<Longrightarrow> bucket_of sz k < sz"
  by (simp add: bucket_of_def)

lemma pq_init_inv: "0 < sz \<Longrightarrow> pq_inv (pq_init sz n)"
  by (rule pq_invI) (auto simp: pq_init_def heap_on_def)

lemma heap_perm:
  assumes "mset xs = mset ys" "distinct (map fst ys)"
  shows "distinct (map fst xs)" "map_of xs = map_of ys" "set xs = set ys"
proof -
  have s: "set xs = set ys" using assms(1) by (rule mset_eq_setD)
  have "mset (map fst xs) = mset (map fst ys)" using assms(1) by simp
  then show d: "distinct (map fst xs)" using assms(2) by (metis mset_eq_imp_distinct_iff)
  show "map_of xs = map_of ys" using map_of_inject_set [OF d assms(2)] s by simp
  show "set xs = set ys" by (rule s)
qed

lemma heap_key_unique: "pq_inv q \<Longrightarrow> (k, e) \<in> set (heap_q q) \<Longrightarrow> (k', e) \<in> set (heap_q q) \<Longrightarrow> k' = k"
  using pq_invD(5) by blast

lemma find_entry_Some: "find_entry k es bs = Some e \<Longrightarrow> e \<in> set bs \<and> hkey (es ! e) = k"
  by (induction bs) (auto split: if_splits)

lemma find_entry_None: "find_entry k es bs = None \<longleftrightarrow> (\<forall>e\<in>set bs. hkey (es ! e) \<noteq> k)"
  by (induction bs) auto

lemma find_entry_heap:
  assumes "pq_inv q"
  shows "find_entry k (hents q) (ht q ! bucket_of (length (ht q)) k) = map_of (heap_q q) k"
proof (cases "find_entry k (hents q) (ht q ! bucket_of (length (ht q)) k)")
  case None
  have "(k, e) \<notin> set (heap_q q)" for e
    using None pq_invD(5,8) [OF assms] unfolding find_entry_None by blast
  then have "map_of (heap_q q) k = None" by (metis map_of_SomeD option.exhaust)
  then show ?thesis using None by simp
next
  case (Some e)
  have b: "bucket_of (length (ht q)) k < length (ht q)" using bucket_less pq_invD(3) [OF assms] by blast
  have "(k, e) \<in> set (heap_q q)" using find_entry_Some [OF Some] pq_invD(9) [OF assms b] by blast
  then have "map_of (heap_q q) k = Some e" using pq_invD(2) [OF assms] by simp
  then show ?thesis using Some by simp
qed

text \<open>The list of one live entry changes, and stays a list of its key.\<close>

lemma set_values_inv:
  assumes inv: "pq_inv q" and e: "(k, e) \<in> set (heap_q q)" and vs: "vs \<noteq> []" "\<forall>v\<in>set vs. sched_key (vroutine v) = k"
  shows "pq_inv (set_values e vs q) \<and> pq_by_key (set_values e vs q) = (pq_by_key q)(k := vs)"
proof -
  note D = pq_invD [OF inv]
  have el: "e < length (hents q)" using D(4) e by blast
  have n: "hkey (hents (set_values e vs q) ! i) = hkey (hents q ! i)"
    "hvalues (hents (set_values e vs q) ! i) = (if i = e then vs else hvalues (hents q ! i))" for i
    using el by (cases "i = e"; simp add: set_values_def)+
  have same: "heap_q (set_values e vs q) = heap_q q" "ht (set_values e vs q) = ht q" "length (hents (set_values e vs q)) = length (hents q)"
    by (simp_all add: set_values_def)
  have "pq_inv (set_values e vs q)"
  proof (rule pq_invI; unfold same n)
    fix j i assume ji: "(j, i) \<in> set (heap_q q)"
    then have "i = e \<Longrightarrow> j = k" using heap_key_unique [OF inv e] by blast
    then show "i < length (hents q) \<and> hkey (hents q ! i) = j \<and> (if i = e then vs else hvalues (hents q ! i)) \<noteq> [] \<and>
        (\<forall>v\<in>set (if i = e then vs else hvalues (hents q ! i)). sched_key (vroutine v) = j) \<and> i \<in> set (ht q ! bucket_of (length (ht q)) j)"
      using D(4-8) [OF ji] vs by auto
  qed (use D(1-3,9,10) in blast)+
  moreover have "pq_by_key (set_values e vs q) j = ((pq_by_key q)(k := vs)) j" for j
  proof (cases "j = k")
    case True
    then show ?thesis using D(2) e by (simp add: pq_by_key_def same n)
  next
    case False
    then have "map_of (heap_q q) j \<noteq> Some e" using heap_key_unique [OF inv e] map_of_SomeD by fastforce
    then show ?thesis using False by (auto simp: pq_by_key_def same n split: option.splits)
  qed
  ultimately show ?thesis by blast
qed

lemma pbrk_inv [simp]: "pq_inv (q\<lparr>pbrk := b\<rparr>) = pq_inv q" "pq_by_key (q\<lparr>pbrk := b\<rparr>) = pq_by_key q"
  by (simp add: pq_inv_def) (auto simp: pq_by_key_def fun_eq_iff split: option.splits)

definition with_entry :: "u64 \<Rightarrow> pvalue \<Rightarrow> prio_queue \<Rightarrow> prio_queue" where
  "with_entry k v q = q\<lparr>heap_q := push_heap fst (Suc (length (heap_q q))) (heap_q q @ [(k, length (hents q))]),
     hents := hents q @ [\<lparr>hkey = k, hvalues = [v]\<rparr>],
     ht := (ht q)[bucket_of (length (ht q)) k := ht q ! bucket_of (length (ht q)) k @ [length (hents q)]]\<rparr>"

lemma with_entry_inv:
  assumes inv: "pq_inv q" and k: "map_of (heap_q q) k = None" and v: "sched_key (vroutine v) = k"
  shows "pq_inv (with_entry k v q) \<and> pq_by_key (with_entry k v q) = (pq_by_key q)(k := [v])"
proof -
  note D = pq_invD [OF inv]
  let ?q = "with_entry k v q" and ?e = "length (hents q)" and ?H = "heap_q q @ [(k, length (hents q))]" and ?h = "bucket_of (length (ht q)) k"
  have up: "heap_on fst (length ?H - 1) ?H" 
    unfolding heap_on_def
  proof (intro allI impI)
    fix i assume i: "i < length ?H - 1" "0 < i"
    then have "parent i < length (heap_q q)" using parent_less [of i] by simp
    then show "fst (?H ! parent i) \<le> fst (?H ! i)" using D(1) i by (simp add: heap_on_def nth_append)
  qed
  have P: "heap_on fst (length ?H) (heap_q ?q)" "length (heap_q ?q) = length ?H" "mset (heap_q ?q) = mset ?H"
    using push_heap_heap [OF up] by (auto simp: with_entry_def)
  have kn: "k \<notin> fst ` set (heap_q q)" using k by (simp add: map_of_eq_None_iff)
  have Hp: "distinct (map fst (heap_q ?q))" "map_of (heap_q ?q) = map_of ?H" "set (heap_q ?q) = set ?H"
    by (rule heap_perm [OF P(3)]; use D(2) kn in simp)+
  have hb: "?h < length (ht q)" using bucket_less D(3) by blast
  have es: "hents ?q ! i = (if i = ?e then \<lparr>hkey = k, hvalues = [v]\<rparr> else hents q ! i)" if "i \<le> ?e" for i
    using that by (simp add: with_entry_def nth_append)
  have len: "length (ht ?q) = length (ht q)" "length (hents ?q) = Suc ?e" by (simp_all add: with_entry_def)
  have htq: "ht ?q ! b = (if b = ?h then ht q ! ?h @ [?e] else ht q ! b)" for b using hb by (simp add: with_entry_def)
  have old: "i < ?e" if "b < length (ht q)" "i \<in> set (ht q ! b)" for b i using D(4) D(9) [OF that] by blast
  have "pq_inv ?q"
  proof (rule pq_invI)
    show "heap_on fst (length (heap_q ?q)) (heap_q ?q)" using P by simp
    show "distinct (map fst (heap_q ?q))" by (rule Hp(1))
    show "0 < length (ht ?q)" using D(3) len by simp
    fix j i assume "(j, i) \<in> set (heap_q ?q)"
    then consider "(j, i) \<in> set (heap_q q)" | "j = k" "i = ?e" unfolding Hp(3) by auto
    then show "i < length (hents ?q) \<and> hkey (hents ?q ! i) = j \<and> hvalues (hents ?q ! i) \<noteq> []
       \<and> (\<forall>v\<in>set (hvalues (hents ?q ! i)). sched_key (vroutine v) = j) \<and> i \<in> set (ht ?q ! bucket_of (length (ht ?q)) j)"
    proof cases
      case 1
      have "i < ?e" by (rule D(4) [OF 1])
      then show ?thesis using D(5-8) [OF 1] es [of i] len htq by auto
    next
      case 2
      then show ?thesis using es [of ?e] len htq v by simp
    qed
  next
    fix b i assume b: "b < length (ht ?q)" "i \<in> set (ht ?q ! b)"
    then consider "i \<in> set (ht q ! b)" | "i = ?e" "b = ?h" unfolding htq by (auto split: if_splits)
    then show "(hkey (hents ?q ! i), i) \<in> set (heap_q ?q) \<and> bucket_of (length (ht ?q)) (hkey (hents ?q ! i)) = b"
    proof cases
      case 1
      have bl: "b < length (ht q)" using b(1) len by simp
      show ?thesis using D(9,10) [OF bl 1] old [OF bl 1] es [of i] len by (simp add: Hp(3))
    next
      case 2
      then show ?thesis using es [of ?e] len by (simp add: Hp(3))
    qed
  qed
  moreover have "pq_by_key ?q j = ((pq_by_key q)(k := [v])) j" for j
  proof (cases "j = k")
    case True
    then show ?thesis using kn k es [of ?e] by (simp add: pq_by_key_def Hp(2) map_of_append map_add_def)
  next
    case False
    have m: "map_of (heap_q ?q) j = map_of (heap_q q) j" using False by (simp add: Hp(2) map_add_def split: option.splits)
    show ?thesis
    proof (cases "map_of (heap_q q) j")
      case None
      then show ?thesis using False m by (simp add: pq_by_key_def)
    next
      case (Some i)
      have "i < ?e" using D(4) map_of_SomeD [OF Some] by blast
      then show ?thesis using False m Some es [of i] by (simp add: pq_by_key_def)
    qed
  qed
  ultimately show ?thesis by blast
qed

lemma AddToPriorityQueue_keys:
  assumes inv: "pq_inv q" and a: "AddToPriorityQueue p s q = Inr q'"
  shows "pq_inv q' \<and> pq_by_key q' = (pq_by_key q)(sched_key p := pq_by_key q (sched_key p) @ [\<lparr>vroutine = p, vstate = s\<rparr>])"
proof -
  let ?k = "sched_key p" and ?v = "\<lparr>vroutine = p, vstate = s\<rparr>"
  obtain b1 o1 where b1: "Brk_Alloc 64 (pbrk q) = Inr (b1, o1)" using a by (auto simp: AddToPriorityQueue_def res_bind_Inr_iff)
  let ?q1 = "q\<lparr>pbrk := b1\<rparr>"
  have inv1: "pq_inv ?q1" using inv by simp
  have fe: "find_entry ?k (hents q) (ht q ! bucket_of (length (ht q)) ?k) = map_of (heap_q q) ?k" by (rule find_entry_heap [OF inv])
  show ?thesis
  proof (cases "map_of (heap_q q) ?k")
    case (Some e)
    have e: "(?k, e) \<in> set (heap_q ?q1)" using map_of_SomeD [OF Some] by simp
    have ne: "hvalues (hents q ! e) \<noteq> []" "\<forall>v\<in>set (hvalues (hents q ! e)). sched_key (vroutine v) = ?k"
      using pq_invD(6,7) [OF inv] e by auto
    then have "q' = set_values e (hvalues (hents q ! e) @ [?v]) ?q1"
      using a b1 fe Some by (simp add: AddToPriorityQueue_def IngestPending_def Let_def)
    moreover have "pq_by_key q ?k = hvalues (hents q ! e)" using Some by (simp add: pq_by_key_def)
    ultimately show ?thesis using set_values_inv [OF inv1 e, of "hvalues (hents q ! e) @ [?v]"] ne by simp
  next
    case None
    obtain b2 o2 where b2: "Brk_Alloc 64 b1 = Inr (b2, o2)"
      using a b1 fe None by (auto simp: AddToPriorityQueue_def Let_def res_bind_Inr_iff)
    have "q' = (with_entry ?k ?v q)\<lparr>pbrk := b2\<rparr>"
      using a b1 b2 fe None by (cases q) (simp add: AddToPriorityQueue_def IngestPending_def set_values_def with_entry_def Let_def)
    moreover have "pq_by_key q ?k = []" using None by (simp add: pq_by_key_def)
    ultimately show ?thesis using with_entry_inv [OF inv None, of ?v] by simp
  qed
qed

definition without_top :: "prio_queue \<Rightarrow> prio_queue" where
  "without_top q =
     (let (k, e) = heap_q q ! 0; h = bucket_of (length (ht q)) k in
      q\<lparr>heap_q := butlast (pop_heap fst (length (heap_q q)) (heap_q q)), hents := (hents q)[e := (hents q ! e)\<lparr>hvalues := []\<rparr>],
        ht := (ht q)[h := removeAll e (ht q ! h)]\<rparr>)"

lemma without_top_inv:
  assumes inv: "pq_inv q" and t: "heap_q q \<noteq> []" "heap_q q ! 0 = (k, e)"
  shows "pq_inv (without_top q) \<and> pq_by_key (without_top q) = (pq_by_key q)(k := [])"
proof -
  note D = pq_invD [OF inv]
  let ?q = "without_top q" and ?n = "length (heap_q q)" and ?h = "bucket_of (length (ht q)) k"
  have ke: "(k, e) \<in> set (heap_q q)" using t nth_mem [of 0 "heap_q q"] by simp
  have P: "heap_on fst (?n - 1) (pop_heap fst ?n (heap_q q))" "length (pop_heap fst ?n (heap_q q)) = ?n"
    "mset (heap_q q) = add_mset (k, e) (mset (take (?n - 1) (pop_heap fst ?n (heap_q q))))"
    using pop_heap_heap [OF D(1)] t by auto
  have hq: "heap_q ?q = take (?n - 1) (pop_heap fst ?n (heap_q q))" using t(2) P(2) by (simp add: without_top_def Let_def butlast_conv_take)
  then have M: "mset (heap_q q) = mset ((k, e) # heap_q ?q)" using P(3) by simp
  have S: "distinct (map fst ((k, e) # heap_q ?q))" "map_of ((k, e) # heap_q ?q) = map_of (heap_q q)" "set ((k, e) # heap_q ?q) = set (heap_q q)"
    by (rule heap_perm [OF M [symmetric] D(2)])+
  have hb: "?h < length (ht q)" using bucket_less D(3) by blast
  have htq: "ht ?q ! b = (if b = ?h then removeAll e (ht q ! ?h) else ht q ! b)" for b using hb t(2) by (simp add: without_top_def Let_def)
  have len: "length (ht ?q) = length (ht q)" "length (hents ?q) = length (hents q)" using t(2) by (simp_all add: without_top_def Let_def)
  have es: "hents ?q ! i = hents q ! i" if "i \<noteq> e" for i using that t(2) by (simp add: without_top_def Let_def)
  have other: "(j, i) \<in> set (heap_q ?q) \<longleftrightarrow> (j, i) \<in> set (heap_q q) \<and> i \<noteq> e" for j i
  proof -
    have "(k, e) \<notin> set (heap_q ?q)" using S(1) by (metis distinct.simps(2) fst_conv image_eqI list.set_map list.simps(9))
    moreover have "(j, e) \<in> set (heap_q q) \<Longrightarrow> j = k" for j using heap_key_unique [OF inv ke] by blast
    ultimately show ?thesis using S(3) by auto
  qed
  have "pq_inv ?q"
  proof (rule pq_invI)
    show "heap_on fst (length (heap_q ?q)) (heap_q ?q)" using P(1,2) unfolding hq by (simp add: heap_on_def parent_def less_le_trans)
    show "distinct (map fst (heap_q ?q))" using S(1) by simp
    show "0 < length (ht ?q)" using D(3) len by simp
    fix j i assume "(j, i) \<in> set (heap_q ?q)"
    then have i: "(j, i) \<in> set (heap_q q)" "i \<noteq> e" using other by auto
    then show "i < length (hents ?q) \<and> hkey (hents ?q ! i) = j \<and> hvalues (hents ?q ! i) \<noteq> []
       \<and> (\<forall>v\<in>set (hvalues (hents ?q ! i)). sched_key (vroutine v) = j) \<and> i \<in> set (ht ?q ! bucket_of (length (ht ?q)) j)"
      using D(4-8) [OF i(1)] es len htq by auto
  next
    fix b i assume b: "b < length (ht ?q)" "i \<in> set (ht ?q ! b)"
    then have i: "b < length (ht q)" "i \<in> set (ht q ! b)" using htq len by (auto split: if_splits)
    have "i \<noteq> e"
    proof
      assume "i = e"
      then have "b = ?h" using D(10) [OF i] D(5) [OF ke] by simp
      then show False using b(2) \<open>i = e\<close> by (simp add: htq)
    qed
    then show "(hkey (hents ?q ! i), i) \<in> set (heap_q ?q) \<and> bucket_of (length (ht ?q)) (hkey (hents ?q ! i)) = b"
      using D(9,10) [OF i] es len other by simp
  qed
  moreover have "pq_by_key ?q j = ((pq_by_key q)(k := [])) j" for j
  proof (cases "j = k")
    case True
    have "map_of (heap_q ?q) k = None" using S(1) by (simp add: map_of_eq_None_iff)
    then show ?thesis using True by (simp add: pq_by_key_def)
  next
    case False
    then have m: "map_of (heap_q ?q) j = map_of (heap_q q) j" using fun_cong [OF S(2), of j] by simp
    have "map_of (heap_q q) j \<noteq> Some e" using False heap_key_unique [OF inv ke] map_of_SomeD by fastforce
    then show ?thesis using False m es by (auto simp: pq_by_key_def split: option.splits)
  qed
  ultimately show ?thesis by blast
qed

lemma pq_pick:
  assumes inv: "pq_inv q" and ne: "\<not> pq_empty q"
  shows "\<exists>k vs. pq_by_key q k = Pick q # vs \<and> (\<forall>j. pq_by_key q j \<noteq> [] \<longrightarrow> k \<le> j)
    \<and> pq_inv (Consume q) \<and> pq_by_key (Consume q) = (pq_by_key q)(k := vs) \<and> fst (heap_q q ! 0) = k"
proof -
  note D = pq_invD [OF inv]
  have t: "heap_q q \<noteq> []" using ne by (simp add: pq_empty_def)
  obtain k e where ke: "heap_q q ! 0 = (k, e)" by (cases "heap_q q ! 0")
  have m: "(k, e) \<in> set (heap_q q)" using t ke nth_mem [of 0 "heap_q q"] by simp
  obtain v vs where v: "hvalues (hents q ! e) = v # vs" using D(6) [OF m] by (cases "hvalues (hents q ! e)") auto
  have el: "e < length (hents q)" by (rule D(4) [OF m])
  have pv: "Pick q = v" using ke v by (simp add: Pick_def)
  have bk: "pq_by_key q k = v # vs" using D(2) m v by (simp add: pq_by_key_def)
  have least: "k \<le> j" if j: "pq_by_key q j \<noteq> []" for j
  proof -
    obtain i where "map_of (heap_q q) j = Some i" using j by (auto simp: pq_by_key_def split: option.splits)
    then have "(j, i) \<in> set (heap_q q)" by (rule map_of_SomeD)
    then obtain x where "x < length (heap_q q)" "heap_q q ! x = (j, i)" by (auto simp: in_set_conv_nth)
    then show ?thesis using heap_min [OF D(1), of x] ke by simp
  qed
  have "pq_inv (Consume q) \<and> pq_by_key (Consume q) = (pq_by_key q)(k := vs)"
  proof (cases "vs = []")
    case True
    have "Consume q = without_top q"
      using ke v True el D(5) [OF m] by (simp add: Consume_def without_top_def set_values_def Let_def)
    then show ?thesis using without_top_inv [OF inv t ke] True by simp
  next
    case False
    have "Consume q = set_values e vs q" using ke v False el by (simp add: Consume_def set_values_def Let_def)
    then show ?thesis using set_values_inv [OF inv m False] D(7) [OF m] v by simp
  qed
  then show ?thesis using bk pv least ke by auto
qed

interpretation cq: prio_fifo pq_inv pq_by_key AddToPriorityQueue pq_empty Pick Consume
proof unfold_locales
  fix q assume inv: "pq_inv q"
  show "pq_empty q \<longleftrightarrow> (\<forall>k. pq_by_key q k = [])"
  proof
    assume "\<forall>k. pq_by_key q k = []"
    then show "pq_empty q" using pq_pick [OF inv] by fastforce
  qed (simp add: pq_empty_def pq_by_key_def)
  have "{k. pq_by_key q k \<noteq> []} \<subseteq> dom (map_of (heap_q q))" by (auto simp: pq_by_key_def split: option.splits)
  then show "finite {k. pq_by_key q k \<noteq> []}" using finite_dom_map_of finite_subset by blast
  show "sched_key (vroutine v) = k" if v: "v \<in> set (pq_by_key q k)" for v k
  proof -
    obtain i where i: "map_of (heap_q q) k = Some i" "v \<in> set (hvalues (hents q ! i))"
      using v by (cases "map_of (heap_q q) k") (auto simp: pq_by_key_def)
    show ?thesis by (rule pq_invD(7) [OF inv map_of_SomeD [OF i(1)] i(2)])
  qed
next
  show "pq_inv q \<Longrightarrow> \<not> pq_empty q \<Longrightarrow> \<exists>k vs. pq_by_key q k = Pick q # vs \<and> (\<forall>j. pq_by_key q j \<noteq> [] \<longrightarrow> k \<le> j) \<and>
    pq_inv (Consume q) \<and> pq_by_key (Consume q) = (pq_by_key q)(k := vs)" for q
    using pq_pick by blast
qed (rule AddToPriorityQueue_keys)

text \<open>A piece takes at most two cache lines of the queue's memory.\<close>

lemma AddToPriorityQueue_room:
  assumes "boffset (pbrk q) + 128 \<le> blimit (pbrk q)"
  shows "\<exists>q'. AddToPriorityQueue r st q = Inr q' \<and> boffset (pbrk q') \<le> boffset (pbrk q) + 128 \<and> blimit (pbrk q') = blimit (pbrk q)"
  using assms
  by (cases "find_entry (sched_key r) (hents q) (ht q ! bucket_of (length (ht q)) (sched_key r))")
    (simp_all add: AddToPriorityQueue_def Brk_Alloc_def Align_def IngestPending_def set_values_def Let_def)

lemma add_all_room:
  "boffset (pbrk q) + 128 * length ps \<le> blimit (pbrk q) \<Longrightarrow> \<exists>q'. cq.add_all ps q = Inr q'"
proof (induction ps arbitrary: q)
  case (Cons p ps)
  obtain q1 where q1: "AddToPriorityQueue p None q = Inr q1" "boffset (pbrk q1) \<le> boffset (pbrk q) + 128" "blimit (pbrk q1) = blimit (pbrk q)"
    using AddToPriorityQueue_room [of q p None] Cons.prems by auto
  show ?case using Cons.IH [of q1] Cons.prems q1 by auto
qed simp

end
