(* ===== verification/Routine_Sched.thy ===== *)
theory Routine_Sched
  imports Prio_Queue "HOL-Library.Product_Lexorder"
begin

text \<open>
  \<open>EpochExecutionDispatchService\<close> of \<^verbatim>\<open>src/routine_sched.cc\<close>: the queues of one core. Pieces
  with key 0 go to the zero queue, others to the pending ring and from there to the
  priority queue (theory \<open>Prio_Queue\<close>); preempted routines wait in a small heap. \<open>Add\<close> runs
  on any core under the lock, the other operations on the core of the queue. The
  decision of the caller whether to take the offered piece is the argument \<open>should_pop\<close>.
\<close>

section \<open>State\<close>

record wait_state =
  ws_state :: nat
  ws_key :: u64
  preempt_ts :: nat
  preempt_key :: u64
  preempt_times :: nat

record sched_queue =
  pq :: prio_queue
  pend_q :: "piece list"
  pend_start :: nat
  pend_end :: nat
  wstates :: "wait_state list"
  unique_preempts :: nat
  wlen :: nat
  zq :: "piece list"
  z_start :: nat
  z_end :: nat
  current_sched_key :: u64
  state_ts :: nat
  completed :: nat
  running :: int

definition kOutOfOrderWindow :: nat where "kOutOfOrderWindow = 25"
definition keyThreshold :: nat where "keyThreshold = 17000"
definition max_backoff :: nat where "max_backoff = 40"

definition kSleeping :: int where "kSleeping = 0"
definition kRunning :: int where "kRunning = 1"
definition kDeciding :: int where "kDeciding = -1"

definition no_piece :: piece where "no_piece = \<lparr>piece_id = 0, sched_key = 0\<rparr>"
definition no_wait :: wait_state where
  "no_wait = \<lparr>ws_state = 0, ws_key = 0, preempt_ts = 0, preempt_key = 0, preempt_times = 0\<rparr>"

text \<open>A new queue; fresh memory is zero.\<close>

definition sched_init :: "nat \<Rightarrow> sched_queue" where
  "sched_init max_item = \<lparr>pq = pq_init kHashTableSize (64 * max_item), pend_q = replicate max_item no_piece, pend_start = 0, pend_end = 0,
     wstates = replicate kOutOfOrderWindow no_wait, unique_preempts = 0, wlen = 0, zq = replicate max_item no_piece, z_start = 0, z_end = 0,
     current_sched_key = 0, state_ts = 0, completed = 0, running = kSleeping\<rparr>"

section \<open>Add\<close>

text \<open>
  The loop of \<open>Add\<close>. \<open>zend\<close> and \<open>pend\<close> do not change while the lock is held; the consumer
  may advance \<open>pending.start\<close>, and \<open>starts\<close> are the values that the passes after the first
  read at the label \<open>again\<close>. Without one the loop still waits (\<open>None\<close>).
\<close>

definition pend_limit :: "nat \<Rightarrow> nat \<Rightarrow> nat \<Rightarrow> nat" where
  "pend_limit max_item pend start = (max_item + 2 ^ 64 - (pend + 2 ^ 64 - start) mod 2 ^ 64) mod 2 ^ 64"

fun add_loop :: "nat \<Rightarrow> nat \<Rightarrow> nat \<Rightarrow> nat list \<Rightarrow> nat \<Rightarrow> nat \<Rightarrow> nat \<Rightarrow> piece list \<Rightarrow> piece list \<times> piece list \<Rightarrow>
    (piece list \<times> piece list \<times> nat \<times> nat) res option" where
  "add_loop max_item zend pend starts start zdelta pdelta [] (z, p) = Some (Inr (z, p, zdelta, pdelta))"
| "add_loop max_item zend pend starts start zdelta pdelta (r # rs) (z, p) =
     (if sched_key r = 0 then
        (let pos = zend + zdelta in
         if pos \<ge> max_item then Some (Inl (Abort ''Preallocation of DispatchService is too small''))
         else add_loop max_item zend pend starts start (zdelta + 1) pdelta rs (z[pos := r], p))
      else if pdelta \<ge> pend_limit max_item pend start then
        (case starts of
           [] \<Rightarrow> None
         | s # ss \<Rightarrow> add_loop max_item zend pend ss s 0 0 (r # rs) (z, p))
      else add_loop max_item zend pend starts start zdelta (pdelta + 1) rs (z, p[(pend + pdelta) mod max_item := r]))"

definition Add :: "nat \<Rightarrow> nat list \<Rightarrow> piece list \<Rightarrow> sched_queue \<Rightarrow> sched_queue res option" where
  "Add max_item starts routines q =
     (case add_loop max_item (z_end q) (pend_end q) starts (pend_start q) 0 0 routines (zq q, pend_q q) of
        None \<Rightarrow> None
      | Some (Inl e) \<Rightarrow> Some (Inl e)
      | Some (Inr (z, p, zdelta, pdelta)) \<Rightarrow>
          Some (Inr (q\<lparr>zq := z, pend_q := p, z_end := z_end q + zdelta, pend_end := (pend_end q + pdelta) mod 2 ^ 32\<rparr>)))"

section \<open>Peek\<close>

fun process_loop :: "nat \<Rightarrow> nat \<Rightarrow> nat \<Rightarrow> piece list \<Rightarrow> prio_queue \<Rightarrow> prio_queue res" where
  "process_loop max_item pos 0 p q = Inr q"
| "process_loop max_item pos (Suc n) p q =
     res_bind (AddToPriorityQueue (p ! (pos mod max_item)) None q) (process_loop max_item (pos + 1) n p)"

definition ProcessPending :: "nat \<Rightarrow> sched_queue \<Rightarrow> sched_queue res" where
  "ProcessPending max_item q =
     (let plen = (pend_end q + 2 ^ 64 - pend_start q) mod 2 ^ 64 in
      res_bind (process_loop max_item (pend_start q) plen (pend_q q) (pq q)) (\<lambda>p.
      Inr (q\<lparr>pq := p, pend_start := (pend_start q + plen) mod 2 ^ 32\<rparr>)))"

definition ws_order :: "wait_state \<Rightarrow> u64 \<times> u64" where
  "ws_order ws = (preempt_key ws, ws_key ws)"

definition ShouldPickWaiting :: "prio_queue \<Rightarrow> wait_state \<Rightarrow> bool" where
  "ShouldPickWaiting p ws \<longleftrightarrow> length (heap_q p) = 0 \<or> fst (heap_q p ! 0) > preempt_key ws"

text \<open>What \<open>Peek\<close> offers to its caller; the boolean is whether the caller took it.\<close>

datatype offer = Not_ready | Offer_zero piece bool | Offer_waiting wait_state bool | Offer_piece pvalue bool | Completions nat

definition Peek :: "nat \<Rightarrow> bool \<Rightarrow> (piece option \<Rightarrow> nat option \<Rightarrow> bool) \<Rightarrow> sched_queue \<Rightarrow> nat \<Rightarrow> (offer \<times> sched_queue \<times> nat) res" where
  "Peek max_item ready should_pop q0 tot_bubbles =
     (if \<not> ready then Inr (Not_ready, q0\<lparr>running := kSleeping\<rparr>, tot_bubbles)
      else if z_start q0 < z_end q0 then
        let q = q0\<lparr>running := kRunning\<rparr>; r = zq q ! z_start q in
        if should_pop (Some r) None
        then Inr (Offer_zero r True, q\<lparr>z_start := z_start q + 1, current_sched_key := sched_key r\<rparr>, tot_bubbles)
        else Inr (Offer_zero r False, q, tot_bubbles)
      else
        let q1 = q0\<lparr>running := if pq_empty (pq q0) \<and> wlen q0 = 0 \<and> pend_end q0 = pend_start q0 then kSleeping else kRunning\<rparr> in
        res_bind (ProcessPending max_item q1) (\<lambda>q.
        let ws = wstates q ! 0 in
        if wlen q > 0 \<and> (wlen q = kOutOfOrderWindow \<or> ShouldPickWaiting (pq q) ws) then
          if should_pop None (Some (ws_state ws))
          then Inr (Offer_waiting ws True,
                    q\<lparr>current_sched_key := ws_key ws, state_ts := state_ts q + 1,
                      wstates := pop_heap ws_order (wlen q) (wstates q), wlen := wlen q - 1\<rparr>, tot_bubbles)
          else Inr (Offer_waiting ws False, q, tot_bubbles)
        else if \<not> pq_empty (pq q) then
          let v = Pick (pq q) in
          if should_pop (Some (vroutine v)) (vstate v)
          then Inr (Offer_piece v True, q\<lparr>pq := Consume (pq q), current_sched_key := sched_key (vroutine v), state_ts := state_ts q + 1\<rparr>, tot_bubbles)
          else Inr (Offer_piece v False, q, tot_bubbles)
        else Inr (Completions (completed q + tot_bubbles), q\<lparr>completed := 0\<rparr>, 0)))"

section \<open>Preempt and the rest\<close>

definition Preempt :: "nat \<Rightarrow> nat \<Rightarrow> sched_queue \<Rightarrow> (bool \<times> sched_queue) res" where
  "Preempt max_item routine_state q0 =
     res_bind (ProcessPending max_item q0) (\<lambda>q.
     let key = current_sched_key q in
     if key = 0 then Inr (False, q)
     else if wlen q = kOutOfOrderWindow then Inl (Abort ''out-of-order scheduling window is full'')
     else
       let old = wstates q ! wlen q;
           times = (if ws_key old = key then preempt_times old + 1 else 1);
           ups = (if ws_key old = key then unique_preempts q else unique_preempts q + 1);
           ws = \<lparr>ws_state = routine_state, ws_key = key, preempt_ts = state_ts q,
                 preempt_key = key + of_nat (keyThreshold * min times max_backoff), preempt_times = times\<rparr>;
           q1 = q\<lparr>wstates := (wstates q)[wlen q := ws], unique_preempts := ups\<rparr>
       in if wlen q = 0 \<and> ShouldPickWaiting (pq q) ws then Inr (False, q1)
          else Inr (True, q1\<lparr>wlen := wlen q + 1, wstates := push_heap ws_order (wlen q + 1) (wstates q1)\<rparr>))"

definition Complete :: "sched_queue \<Rightarrow> sched_queue" where
  "Complete q = q\<lparr>completed := completed q + 1\<rparr>"

definition AddBubble :: "nat \<Rightarrow> nat" where
  "AddBubble tot_bubbles = tot_bubbles + 1"

text \<open>\<open>IsRunning\<close> waits while the core decides.\<close>

definition IsRunning :: "sched_queue \<Rightarrow> bool option" where
  "IsRunning q = (if running q = kDeciding then None else Some (running q = kRunning))"

definition Reset_queue :: "sched_queue \<Rightarrow> sched_queue res" where
  "Reset_queue q =
     res_bind (pq_Reset (pq q)) (\<lambda>p.
     Inr (q\<lparr>z_end := 0, z_start := 0, state_ts := 0, current_sched_key := 0, pq := p\<rparr>))"

fun TraceDependency :: "u64 \<Rightarrow> sched_queue list \<Rightarrow> nat \<Rightarrow> int res" where
  "TraceDependency key [] core = Inr (-1)"
| "TraceDependency key (q # qs) core =
     (if pend_end q < pend_start q then Inl (Abort ''pending queue underflows'')
      else if find_entry key (hents (pq q)) (ht (pq q) ! bucket_of (length (ht (pq q))) key) \<noteq> None then Inr (int core)
      else if current_sched_key q = key then Inr (int core)
      else TraceDependency key qs (core + 1))"

section \<open>Invariant and contents\<close>

definition pending_pieces :: "nat \<Rightarrow> sched_queue \<Rightarrow> piece list" where
  "pending_pieces max_item q = map (\<lambda>i. pend_q q ! (i mod max_item)) [pend_start q..<pend_end q]"

definition zero_pieces :: "sched_queue \<Rightarrow> piece list" where
  "zero_pieces q = map (\<lambda>i. zq q ! i) [z_start q..<z_end q]"

definition sched_inv :: "nat \<Rightarrow> sched_queue \<Rightarrow> bool" where
  "sched_inv max_item q \<longleftrightarrow> 0 < max_item \<and> max_item < 2 ^ 32 \<and> pq_inv (pq q)
     \<and> length (pend_q q) = max_item \<and> pend_start q \<le> pend_end q \<and> pend_end q \<le> pend_start q + max_item \<and> pend_end q < 2 ^ 32
     \<and> length (wstates q) = kOutOfOrderWindow \<and> wlen q \<le> kOutOfOrderWindow \<and> heap_on ws_order (wlen q) (wstates q)
     \<and> length (zq q) = max_item \<and> z_start q \<le> z_end q \<and> z_end q \<le> max_item
     \<and> (\<forall>i<z_end q. sched_key (zq q ! i) = 0)"

lemma sched_init_inv: "0 < n \<Longrightarrow> n < 2 ^ 32 \<Longrightarrow> sched_inv n (sched_init n)"
  using pq_init_inv [of kHashTableSize] by (simp add: sched_inv_def sched_init_def heap_on_def kHashTableSize_def)

lemma pend_limit_eq:
  "start \<le> pend \<Longrightarrow> pend \<le> start + n \<Longrightarrow> n < 2 ^ 32 \<Longrightarrow> pend < 2 ^ 32 \<Longrightarrow> pend_limit n pend start = n - (pend - start)"
proof -
  assume a: "start \<le> pend" "pend \<le> start + n" "n < 2 ^ 32" "pend < 2 ^ 32"
  have "(pend + 2 ^ 64 - start) mod 2 ^ 64 = ((pend - start) + 2 ^ 64) mod (2 ^ 64 :: nat)" using a(1) by simp
  also have "\<dots> = pend - start" using a(4) by (simp only: mod_add_self2) simp
  finally have e: "(pend + 2 ^ 64 - start) mod 2 ^ 64 = pend - start" .
  have "(n + 2 ^ 64 - (pend - start)) mod 2 ^ 64 = ((n - (pend - start)) + 2 ^ 64) mod (2 ^ 64 :: nat)" using a(2) by simp
  also have "\<dots> = n - (pend - start)" using a(3) by (simp only: mod_add_self2) simp
  finally show ?thesis by (simp only: pend_limit_def e)
qed

section \<open>Add publishes what fits\<close>

lemma add_loop_fits:
  assumes "zend + zd + length (filter (\<lambda>r. sched_key r = 0) rs) \<le> n" "pd + length (filter (\<lambda>r. sched_key r \<noteq> 0) rs) \<le> pend_limit n pend start"
    "length z = n" "length p = n" "pend_limit n pend start \<le> n" "0 < n"
  shows "\<exists>z' p'. add_loop n zend pend starts start zd pd rs (z, p) =
      Some (Inr (z', p', zd + length (filter (\<lambda>r. sched_key r = 0) rs), pd + length (filter (\<lambda>r. sched_key r \<noteq> 0) rs)))
    \<and> length z' = n \<and> length p' = n
    \<and> (\<forall>i<zend + zd. z' ! i = z ! i) \<and> (\<forall>i<length (filter (\<lambda>r. sched_key r = 0) rs). z' ! (zend + zd + i) = filter (\<lambda>r. sched_key r = 0) rs ! i)
    \<and> (\<forall>i<n. (\<forall>j<length (filter (\<lambda>r. sched_key r \<noteq> 0) rs). (pend + pd + j) mod n \<noteq> i) \<longrightarrow> p' ! i = p ! i)
    \<and> (\<forall>i<length (filter (\<lambda>r. sched_key r \<noteq> 0) rs). p' ! ((pend + pd + i) mod n) = filter (\<lambda>r. sched_key r \<noteq> 0) rs ! i)"
  using assms
proof (induction rs arbitrary: zd pd z p)
  case (Cons r rs)
  let ?z = "\<lambda>r. sched_key r = (0 :: u64)"
  show ?case
  proof (cases "?z r")
    case True
    have "zend + zd < n" using Cons.prems(1) True by simp
    moreover have "zend + (zd + 1) + length (filter ?z rs) \<le> n" "pd + length (filter (\<lambda>r. sched_key r \<noteq> 0) rs) \<le> pend_limit n pend start"
      using Cons.prems(1,2) True by simp_all
    ultimately obtain z' p' where I: "add_loop n zend pend starts start (zd + 1) pd rs (z[zend + zd := r], p) =
        Some (Inr (z', p', zd + 1 + length (filter ?z rs), pd + length (filter (\<lambda>r. sched_key r \<noteq> 0) rs)))"
      "length z' = n" "length p' = n" "\<And>i. i < zend + (zd + 1) \<Longrightarrow> z' ! i = z[zend + zd := r] ! i"
      "\<And>i. i < length (filter ?z rs) \<Longrightarrow> z' ! (zend + (zd + 1) + i) = filter ?z rs ! i"
      "\<And>i. i < n \<Longrightarrow> \<forall>j<length (filter (\<lambda>r. sched_key r \<noteq> 0) rs). (pend + pd + j) mod n \<noteq> i \<Longrightarrow> p' ! i = p ! i"
      "\<And>i. i < length (filter (\<lambda>r. sched_key r \<noteq> 0) rs) \<Longrightarrow> p' ! ((pend + pd + i) mod n) = filter (\<lambda>r. sched_key r \<noteq> 0) rs ! i"
      using Cons.IH [of "zd + 1" pd "z[zend + zd := r]" p] Cons.prems(3-6) by auto
    have "z' ! (zend + zd + i) = (r # filter ?z rs) ! i" if "i < Suc (length (filter ?z rs))" for i
      using that I(4) [of "zend + zd"] I(5) [of "i - 1"] \<open>zend + zd < n\<close> Cons.prems(3) by (cases i) auto
    then show ?thesis using True I(1-3,6,7) I(4) \<open>zend + zd < n\<close> by (intro exI [of _ z'] exI [of _ p']) simp
  next
    case False
    let ?f = "filter (\<lambda>r. sched_key r \<noteq> 0) rs"
    have lim: "pd < pend_limit n pend start" "zend + zd + length (filter ?z rs) \<le> n" "pd + 1 + length ?f \<le> pend_limit n pend start"
      using Cons.prems(1,2) False by simp_all
    let ?m = "(pend + pd) mod n"
    have m: "?m < n" using Cons.prems(6) by simp
    obtain z' p' where I: "add_loop n zend pend starts start zd (pd + 1) rs (z, p[?m := r]) =
        Some (Inr (z', p', zd + length (filter ?z rs), pd + 1 + length ?f))"
      "length z' = n" "length p' = n" "\<And>i. i < zend + zd \<Longrightarrow> z' ! i = z ! i"
      "\<And>i. i < length (filter ?z rs) \<Longrightarrow> z' ! (zend + zd + i) = filter ?z rs ! i"
      "\<And>i. i < n \<Longrightarrow> \<forall>j<length ?f. (pend + (pd + 1) + j) mod n \<noteq> i \<Longrightarrow> p' ! i = p[?m := r] ! i"
      "\<And>i. i < length ?f \<Longrightarrow> p' ! ((pend + (pd + 1) + i) mod n) = ?f ! i"
      using Cons.IH [of zd "pd + 1" z "p[?m := r]"] lim Cons.prems(3-6) by auto
    have ne: "(pend + (pd + 1) + j) mod n \<noteq> ?m" if "j < length ?f" for j
    proof
      assume "(pend + (pd + 1) + j) mod n = ?m"
      then have "n dvd (pend + (pd + 1) + j) - (pend + pd)" by (metis mod_eq_dvd_iff_nat le_add1 add.assoc)
      then have "n dvd j + 1" by simp
      then have "n \<le> j + 1" by (rule dvd_imp_le) simp
      then show False using that lim(3) Cons.prems(5) by simp
    qed
    have hd: "p' ! ?m = r" using I(6) [OF m] ne m Cons.prems(4) by simp
    have "p' ! ((pend + pd + i) mod n) = (r # ?f) ! i" if "i < Suc (length ?f)" for i
      using that hd I(7) [of "i - 1"] by (cases i) (simp_all add: add.assoc)
    moreover have "p' ! i = p ! i" if "i < n" "\<forall>j<Suc (length ?f). (pend + pd + j) mod n \<noteq> i" for i
    proof -
      have "?m \<noteq> i" using that(2) by (metis add_0_right zero_less_Suc)
      moreover have "\<forall>j<length ?f. (pend + (pd + 1) + j) mod n \<noteq> i"
      proof (intro allI impI)
        fix j assume "j < length ?f"
        then show "(pend + (pd + 1) + j) mod n \<noteq> i" using that(2) [rule_format, of "Suc j"] by simp
      qed
      ultimately show ?thesis using I(6) [OF that(1)] by simp
    qed
    ultimately show ?thesis using False I(1-5) lim by (intro exI [of _ z'] exI [of _ p']) simp
  qed
qed simp

lemma ring_append:
  assumes "length p' = n" "0 < n" "s \<le> e" "e + length xs \<le> s + n"
    and old: "\<And>i. i < n \<Longrightarrow> \<forall>j<length xs. (e + j) mod n \<noteq> i \<Longrightarrow> p' ! i = p ! i"
    and new: "\<And>i. i < length xs \<Longrightarrow> p' ! ((e + i) mod n) = xs ! i"
  shows "map (\<lambda>i. p' ! (i mod n)) [s..<e + length xs] = map (\<lambda>i. p ! (i mod n)) [s..<e] @ xs"
proof -
  have "p' ! (i mod n) = p ! (i mod n)" if i: "s \<le> i" "i < e" for i
  proof (rule old)
    show "i mod n < n" using assms(2) by simp
    show "\<forall>j<length xs. (e + j) mod n \<noteq> i mod n"
    proof (intro allI impI notI)
      fix j assume j: "j < length xs" "(e + j) mod n = i mod n"
      then have "n dvd e + j - i" using i by (metis mod_eq_dvd_iff_nat le_add1 order_less_imp_le order_trans)
      then have "n \<le> e + j - i" using i j by (intro dvd_imp_le) auto
      then show False using i j assms(4) by simp
    qed
  qed
  then have "map (\<lambda>i. p' ! (i mod n)) [s..<e] = map (\<lambda>i. p ! (i mod n)) [s..<e]" by simp
  moreover have "map (\<lambda>i. p' ! (i mod n)) [e..<e + length xs] = xs"
    by (rule nth_equalityI) (simp_all add: new)
  ultimately show ?thesis using upt_add_eq_append [OF assms(3), of "length xs"] by simp
qed

text \<open>
  When the new pieces fit, \<open>Add\<close> appends them to the zero queue and to the pending ring, in
  their order.
\<close>

lemma Add_publishes:
  assumes inv: "sched_inv n q" and z: "z_end q + length (filter (\<lambda>r. sched_key r = 0) rs) \<le> n"
    and p: "pend_end q + length (filter (\<lambda>r. sched_key r \<noteq> 0) rs) \<le> pend_start q + n" "pend_end q + length (filter (\<lambda>r. sched_key r \<noteq> 0) rs) < 2 ^ 32"
  shows "\<exists>q'. Add n starts rs q = Some (Inr q') \<and> sched_inv n q'
    \<and> zero_pieces q' = zero_pieces q @ filter (\<lambda>r. sched_key r = 0) rs
    \<and> pending_pieces n q' = pending_pieces n q @ filter (\<lambda>r. sched_key r \<noteq> 0) rs
    \<and> pq q' = pq q \<and> wstates q' = wstates q \<and> wlen q' = wlen q"
proof -
  let ?zs = "filter (\<lambda>r. sched_key r = 0) rs" and ?ps = "filter (\<lambda>r. sched_key r \<noteq> 0) rs"
  have I: "0 < n" "length (pend_q q) = n" "length (zq q) = n" "pend_start q \<le> pend_end q" "pend_end q \<le> pend_start q + n" "n < 2 ^ 32" "pend_end q < 2 ^ 32"
    "z_start q \<le> z_end q" "\<forall>i<z_end q. sched_key (zq q ! i) = 0" using inv by (simp_all add: sched_inv_def)
  have lim: "pend_limit n (pend_end q) (pend_start q) = n - (pend_end q - pend_start q)" by (rule pend_limit_eq [OF I(4,5,6,7)])
  have "\<exists>z' p'. add_loop n (z_end q) (pend_end q) starts (pend_start q) 0 0 rs (zq q, pend_q q) = Some (Inr (z', p', 0 + length ?zs, 0 + length ?ps))
    \<and> length z' = n \<and> length p' = n \<and> (\<forall>i<z_end q + 0. z' ! i = zq q ! i) \<and> (\<forall>i<length ?zs. z' ! (z_end q + 0 + i) = ?zs ! i)
    \<and> (\<forall>i<n. (\<forall>j<length ?ps. (pend_end q + 0 + j) mod n \<noteq> i) \<longrightarrow> p' ! i = pend_q q ! i)
    \<and> (\<forall>i<length ?ps. p' ! ((pend_end q + 0 + i) mod n) = ?ps ! i)"
    by (rule add_loop_fits) (use I z p lim in auto)
  then obtain z' p' where L: "add_loop n (z_end q) (pend_end q) starts (pend_start q) 0 0 rs (zq q, pend_q q) = Some (Inr (z', p', length ?zs, length ?ps))"
    "length z' = n" "length p' = n" "\<And>i. i < z_end q \<Longrightarrow> z' ! i = zq q ! i" "\<And>i. i < length ?zs \<Longrightarrow> z' ! (z_end q + i) = ?zs ! i"
    "\<And>i. i < n \<Longrightarrow> \<forall>j<length ?ps. (pend_end q + j) mod n \<noteq> i \<Longrightarrow> p' ! i = pend_q q ! i"
    "\<And>i. i < length ?ps \<Longrightarrow> p' ! ((pend_end q + i) mod n) = ?ps ! i" by auto
  define q' where "q' = q\<lparr>zq := z', pend_q := p', z_end := z_end q + length ?zs, pend_end := pend_end q + length ?ps\<rparr>"
  have a: "Add n starts rs q = Some (Inr q')" using L(1) p(2) by (simp add: Add_def q'_def)
  have "pending_pieces n q' = pending_pieces n q @ ?ps"
    using ring_append [OF L(3) I(1,4) p(1) L(6,7)] by (simp add: pending_pieces_def q'_def)
  moreover have "map ((!) z') [z_end q..<z_end q + length ?zs] = ?zs" by (rule nth_equalityI) (simp_all add: L(5))
  then have "zero_pieces q' = zero_pieces q @ ?zs"
    using upt_add_eq_append [OF I(8), of "length ?zs"] L(4) by (simp add: zero_pieces_def q'_def)
  moreover have "sched_key (z' ! i) = 0" if "i < z_end q + length ?zs" for i
  proof (cases "i < z_end q")
    case True
    then show ?thesis using L(4) I(9) by simp
  next
    case False
    then have "i - z_end q < length ?zs" using that by simp
    then show ?thesis using L(5) [of "i - z_end q"] False nth_mem [of "i - z_end q" ?zs] by auto
  qed
  then have "sched_inv n q'" using inv L(2,3) z p by (simp add: sched_inv_def q'_def)
  ultimately show ?thesis using a by (simp add: q'_def)
qed

text \<open>
  When the ring has no room for all of them, the loop starts over at \<open>again\<close> with
  \<open>pdelta = 0\<close>: it writes the remaining pieces over the ones it wrote before, and publishes
  only the remaining ones. The pieces \<open>as\<close> are lost.
\<close>

lemma add_loop_prefix:
  assumes "pd + length as \<le> pend_limit n pend start" "\<forall>r\<in>set as. sched_key r \<noteq> 0" "length p = n"
  shows "\<exists>p'. length p' = n \<and> add_loop n zend pend starts start zd pd (as @ rs) (z, p) = add_loop n zend pend starts start zd (pd + length as) rs (z, p')"
  using assms
proof (induction as arbitrary: pd p)
  case (Cons a as)
  obtain p' where "length p' = n"
    "add_loop n zend pend starts start zd (pd + 1) (as @ rs) (z, p[(pend + pd) mod n := a]) = add_loop n zend pend starts start zd (pd + 1 + length as) rs (z, p')"
    using Cons.IH [of "pd + 1" "p[(pend + pd) mod n := a]"] Cons.prems by auto
  then show ?case using Cons.prems by (intro exI [of _ p']) simp
qed auto

lemma Add_overflow_loses:
  assumes inv: "sched_inv n q" and full: "pend_end q + length as = pend_start q + n"
    and keys: "\<forall>r\<in>set (as @ b # bs). sched_key r \<noteq> 0"
    and again: "pend_start q \<le> s" "s \<le> pend_end q" "pend_end q + length (b # bs) \<le> s + n" "pend_end q + length (b # bs) < 2 ^ 32"
  shows "\<exists>q'. Add n [s] (as @ b # bs) q = Some (Inr q') \<and> pend_end q' = pend_end q + length (b # bs)
    \<and> (\<forall>i<length (b # bs). pend_q q' ! ((pend_end q + i) mod n) = (b # bs) ! i)"
proof -
  have I: "0 < n" "length (pend_q q) = n" "length (zq q) = n" "pend_start q \<le> pend_end q" "pend_end q \<le> pend_start q + n" "n < 2 ^ 32" "pend_end q < 2 ^ 32"
    "z_end q \<le> n" using inv by (simp_all add: sched_inv_def)
  let ?e = "pend_end q"
  have lim: "pend_limit n ?e (pend_start q) = length as" using pend_limit_eq [OF I(4,5,6,7)] full I(4,5) by linarith
  have lim2: "pend_limit n ?e s = n - (?e - s)" by (rule pend_limit_eq) (use again I in auto)
  obtain p1 where p1: "length p1 = n"
    "add_loop n (z_end q) ?e [s] (pend_start q) 0 0 (as @ b # bs) (zq q, pend_q q) = add_loop n (z_end q) ?e [s] (pend_start q) 0 (length as) (b # bs) (zq q, p1)"
    using add_loop_prefix [of 0 as n ?e "pend_start q" "pend_q q" "z_end q" "[s]" 0 "b # bs" "zq q"] lim keys I(2) by auto
  have b: "sched_key b \<noteq> 0" using keys by simp
  have again_step: "add_loop n (z_end q) ?e [s] (pend_start q) 0 (length as) (b # bs) (zq q, p1) = add_loop n (z_end q) ?e [] s 0 0 (b # bs) (zq q, p1)"
    using b lim by simp
  have flt: "filter (\<lambda>r. sched_key r \<noteq> 0) (b # bs) = b # bs" "filter (\<lambda>r. sched_key r = 0) (b # bs) = []" using keys by (auto simp: filter_empty_conv intro: filter_True)
  have "\<exists>z' p'. add_loop n (z_end q) ?e [] s 0 0 (b # bs) (zq q, p1) = Some (Inr (z', p', 0 + length (filter (\<lambda>r. sched_key r = 0) (b # bs)), 0 + length (filter (\<lambda>r. sched_key r \<noteq> 0) (b # bs))))
    \<and> length z' = n \<and> length p' = n \<and> (\<forall>i<z_end q + 0. z' ! i = zq q ! i) \<and> (\<forall>i<length (filter (\<lambda>r. sched_key r = 0) (b # bs)). z' ! (z_end q + 0 + i) = filter (\<lambda>r. sched_key r = 0) (b # bs) ! i)
    \<and> (\<forall>i<n. (\<forall>j<length (filter (\<lambda>r. sched_key r \<noteq> 0) (b # bs)). (?e + 0 + j) mod n \<noteq> i) \<longrightarrow> p' ! i = p1 ! i)
    \<and> (\<forall>i<length (filter (\<lambda>r. sched_key r \<noteq> 0) (b # bs)). p' ! ((?e + 0 + i) mod n) = filter (\<lambda>r. sched_key r \<noteq> 0) (b # bs) ! i)"
    by (rule add_loop_fits) (use I p1(1) again lim2 flt in auto)
  then obtain z' p' where L: "add_loop n (z_end q) ?e [] s 0 0 (b # bs) (zq q, p1) = Some (Inr (z', p', 0, length (b # bs)))"
    "\<And>i. i < length (b # bs) \<Longrightarrow> p' ! ((?e + i) mod n) = (b # bs) ! i" unfolding flt by auto
  have run: "add_loop n (z_end q) ?e [s] (pend_start q) 0 0 (as @ b # bs) (zq q, pend_q q) = Some (Inr (z', p', 0, length (b # bs)))"
    unfolding p1(2) again_step by (rule L(1))
  show ?thesis unfolding Add_def run using L(2) again(4) by simp
qed

section \<open>Peek offers the right piece\<close>

definition out_pieces :: "nat \<Rightarrow> sched_queue \<Rightarrow> piece multiset" where
  "out_pieces n q = mset (zero_pieces q) + mset (pending_pieces n q) + cq.contents (pq q)"

definition waits :: "sched_queue \<Rightarrow> wait_state multiset" where
  "waits q = mset (take (wlen q) (wstates q))"

lemma process_loop_add_all: "process_loop n pos m p q = cq.add_all (map (\<lambda>i. p ! (i mod n)) [pos..<pos + m]) q"
proof (induction m arbitrary: pos q)
  case (Suc m)
  have "[pos..<pos + Suc m] = pos # [pos + 1..<pos + 1 + m]" by (simp add: upt_conv_Cons)
  moreover have "process_loop n (pos + 1) m p = cq.add_all (map (\<lambda>i. p ! (i mod n)) [pos + 1..<pos + 1 + m])"
    by (rule ext) (rule Suc)
  ultimately show ?case by (simp del: upt_Suc)
qed simp

lemma ProcessPending_spec:
  assumes inv: "sched_inv n q" and p: "ProcessPending n q = Inr q'"
  shows "sched_inv n q' \<and> pending_pieces n q' = [] \<and> out_pieces n q' = out_pieces n q \<and> waits q' = waits q \<and> wlen q' = wlen q
    \<and> current_sched_key q' = current_sched_key q \<and> zero_pieces q' = zero_pieces q \<and> completed q' = completed q \<and> z_end q' = z_end q"
proof -
  have I: "pend_start q \<le> pend_end q" "pend_end q < 2 ^ 32" "pq_inv (pq q)" using inv by (simp_all add: sched_inv_def)
  have "(pend_end q + 2 ^ 64 - pend_start q) mod 2 ^ 64 = ((pend_end q - pend_start q) + 2 ^ 64) mod (2 ^ 64 :: nat)" using I(1) by simp
  also have "\<dots> = pend_end q - pend_start q" using I(2) by (simp only: mod_add_self2) simp
  finally have plen: "(pend_end q + 2 ^ 64 - pend_start q) mod 2 ^ 64 = pend_end q - pend_start q" .
  obtain p' where p': "process_loop n (pend_start q) (pend_end q - pend_start q) (pend_q q) (pq q) = Inr p'"
    "q' = q\<lparr>pq := p', pend_start := (pend_start q + (pend_end q - pend_start q)) mod 2 ^ 32\<rparr>"
    using p unfolding ProcessPending_def plen Let_def by (auto simp: res_bind_Inr_iff)
  have q': "q' = q\<lparr>pq := p', pend_start := pend_end q\<rparr>" using p'(2) I(1,2) by simp
  have a: "cq.add_all (pending_pieces n q) (pq q) = Inr p'" using p'(1) I(1) by (simp add: process_loop_add_all pending_pieces_def)
  have "pq_inv p'" using cq.add_all_keys [OF I(3) a] by blast
  then have "sched_inv n q'" using inv by (simp add: sched_inv_def q')
  moreover have "out_pieces n q' = out_pieces n q"
    using cq.contents_add_all [OF I(3) a] by (simp add: out_pieces_def q' zero_pieces_def pending_pieces_def)
  ultimately show ?thesis by (simp add: q' pending_pieces_def waits_def zero_pieces_def)
qed

lemma sched_invD:
  assumes "sched_inv n q"
  shows "pq_inv (pq q)" "length (wstates q) = kOutOfOrderWindow" "wlen q \<le> kOutOfOrderWindow" "heap_on ws_order (wlen q) (wstates q)"
    "z_start q \<le> z_end q" "z_end q \<le> n" "length (zq q) = n" "\<And>i. i < z_end q \<Longrightarrow> sched_key (zq q ! i) = 0"
  using assms by (simp_all add: sched_inv_def)

lemma running_same [simp]: "sched_inv n (q\<lparr>running := r\<rparr>) = sched_inv n q" "out_pieces n (q\<lparr>running := r\<rparr>) = out_pieces n q"
  "waits (q\<lparr>running := r\<rparr>) = waits q" "zero_pieces (q\<lparr>running := r\<rparr>) = zero_pieces q"
  by (simp_all add: sched_inv_def out_pieces_def waits_def zero_pieces_def pending_pieces_def)

text \<open>
  What the caller takes leaves the queues, and nothing else does; an offer that it does not
  take stays.
\<close>

definition peek_takes :: "nat \<Rightarrow> offer \<Rightarrow> sched_queue \<Rightarrow> sched_queue \<Rightarrow> bool" where
  "peek_takes n r q q' = (case r of
       Offer_zero p True \<Rightarrow> out_pieces n q = add_mset p (out_pieces n q') \<and> waits q' = waits q
     | Offer_waiting ws True \<Rightarrow> out_pieces n q' = out_pieces n q \<and> waits q = add_mset ws (waits q')
     | Offer_piece v True \<Rightarrow> out_pieces n q = add_mset (vroutine v) (out_pieces n q') \<and> waits q' = waits q
     | _ \<Rightarrow> out_pieces n q' = out_pieces n q \<and> waits q' = waits q)"

lemma pop_waiting:
  assumes inv: "sched_inv n q" and l: "0 < wlen q"
    and q': "q' = q\<lparr>current_sched_key := k, state_ts := t, wstates := pop_heap ws_order (wlen q) (wstates q), wlen := wlen q - 1\<rparr>"
  shows "sched_inv n q' \<and> waits q = add_mset (wstates q ! 0) (waits q') \<and> out_pieces n q' = out_pieces n q"
proof -
  note D = sched_invD [OF inv]
  have len: "wlen q \<le> length (wstates q)" using D(2,3) by simp
  note P = pop_heap_heap [OF D(4) l len]
  have "wlen q - 1 \<le> kOutOfOrderWindow" using D(3) by simp
  then have "sched_inv n q'" using inv P by (simp add: sched_inv_def q')
  moreover have "out_pieces n q' = out_pieces n q" by (simp add: out_pieces_def q' zero_pieces_def pending_pieces_def)
  ultimately show ?thesis using P by (simp add: waits_def q')
qed

lemma take_zero:
  assumes inv: "sched_inv n q" and z: "z_start q < z_end q" and q': "q' = q\<lparr>z_start := z_start q + 1, current_sched_key := k\<rparr>"
  shows "sched_inv n q' \<and> out_pieces n q = add_mset (zq q ! z_start q) (out_pieces n q') \<and> waits q' = waits q"
proof -
  have "zero_pieces q = zq q ! z_start q # zero_pieces q'" using z by (simp add: zero_pieces_def q' upt_conv_Cons)
  moreover have "sched_inv n q'" using inv z by (simp add: sched_inv_def q')
  ultimately show ?thesis by (simp add: out_pieces_def q' pending_pieces_def waits_def)
qed

lemma take_piece:
  assumes inv: "sched_inv n q" and ne: "\<not> pq_empty (pq q)" and q': "q' = q\<lparr>pq := Consume (pq q), current_sched_key := k, state_ts := t\<rparr>"
  shows "sched_inv n q' \<and> out_pieces n q = add_mset (vroutine (Pick (pq q))) (out_pieces n q') \<and> waits q' = waits q"
proof -
  have i: "pq_inv (pq q)" using inv by (simp add: sched_inv_def)
  then have "pq_inv (Consume (pq q))" using pq_pick [OF _ ne] by blast
  then have "sched_inv n q'" using inv by (simp add: sched_inv_def q')
  then show ?thesis using cq.contents_consume [OF i ne] by (simp add: out_pieces_def q' zero_pieces_def pending_pieces_def waits_def)
qed

lemma Peek_cases:
  assumes "Peek n True f q b = Inr (r, q', b')"
  obtains (zero) "z_start q < z_end q" "r = Offer_zero (zq q ! z_start q) (f (Some (zq q ! z_start q)) None)" "b' = b"
      "q' = (if f (Some (zq q ! z_start q)) None then (q\<lparr>running := kRunning\<rparr>)\<lparr>z_start := z_start q + 1, current_sched_key := sched_key (zq q ! z_start q)\<rparr>
             else q\<lparr>running := kRunning\<rparr>)"
    | (waiting) s p where "\<not> z_start q < z_end q" "ProcessPending n (q\<lparr>running := s\<rparr>) = Inr p" "0 < wlen p"
      "wlen p = kOutOfOrderWindow \<or> ShouldPickWaiting (pq p) (wstates p ! 0)"
      "r = Offer_waiting (wstates p ! 0) (f None (Some (ws_state (wstates p ! 0))))" "b' = b"
      "q' = (if f None (Some (ws_state (wstates p ! 0)))
             then p\<lparr>current_sched_key := ws_key (wstates p ! 0), state_ts := state_ts p + 1, wstates := pop_heap ws_order (wlen p) (wstates p), wlen := wlen p - 1\<rparr>
             else p)"
    | (piece) s p where "\<not> z_start q < z_end q" "ProcessPending n (q\<lparr>running := s\<rparr>) = Inr p"
      "wlen p = 0 \<or> wlen p \<noteq> kOutOfOrderWindow \<and> \<not> ShouldPickWaiting (pq p) (wstates p ! 0)" "\<not> pq_empty (pq p)"
      "r = Offer_piece (Pick (pq p)) (f (Some (vroutine (Pick (pq p)))) (vstate (Pick (pq p))))" "b' = b"
      "q' = (if f (Some (vroutine (Pick (pq p)))) (vstate (Pick (pq p)))
             then p\<lparr>pq := Consume (pq p), current_sched_key := sched_key (vroutine (Pick (pq p))), state_ts := state_ts p + 1\<rparr> else p)"
    | (none) s p where "\<not> z_start q < z_end q" "ProcessPending n (q\<lparr>running := s\<rparr>) = Inr p"
      "wlen p = 0 \<or> wlen p \<noteq> kOutOfOrderWindow \<and> \<not> ShouldPickWaiting (pq p) (wstates p ! 0)" "pq_empty (pq p)"
      "r = Completions (completed p + b)" "b' = 0" "q' = p\<lparr>completed := 0\<rparr>"
proof (cases "z_start q < z_end q")
  case True
  show ?thesis by (rule zero) (use assms True in \<open>auto simp: Peek_def Let_def split: if_splits\<close>)
next
  case False
  define s where "s = (if pq_empty (pq q) \<and> wlen q = 0 \<and> pend_end q = pend_start q then kSleeping else kRunning)"
  obtain p where p: "ProcessPending n (q\<lparr>running := s\<rparr>) = Inr p"
    using assms False by (auto simp: Peek_def Let_def s_def res_bind_Inr_iff)
  let ?w = "0 < wlen p \<and> (wlen p = kOutOfOrderWindow \<or> ShouldPickWaiting (pq p) (wstates p ! 0))"
  have e: "(if ?w then
          if f None (Some (ws_state (wstates p ! 0)))
          then Inr (Offer_waiting (wstates p ! 0) True,
                    p\<lparr>current_sched_key := ws_key (wstates p ! 0), state_ts := state_ts p + 1, wstates := pop_heap ws_order (wlen p) (wstates p), wlen := wlen p - 1\<rparr>, b)
          else Inr (Offer_waiting (wstates p ! 0) False, p, b)
        else if \<not> pq_empty (pq p) then
          if f (Some (vroutine (Pick (pq p)))) (vstate (Pick (pq p)))
          then Inr (Offer_piece (Pick (pq p)) True, p\<lparr>pq := Consume (pq p), current_sched_key := sched_key (vroutine (Pick (pq p))), state_ts := state_ts p + 1\<rparr>, b)
          else Inr (Offer_piece (Pick (pq p)) False, p, b)
        else Inr (Completions (completed p + b), p\<lparr>completed := 0\<rparr>, 0)) = (Inr (r, q', b') :: (offer \<times> sched_queue \<times> nat) res)"
    using assms False p unfolding Peek_def Let_def s_def [symmetric] by simp
  show ?thesis
  proof (cases ?w)
    case True
    show ?thesis by (rule waiting [OF False p]) (use e True in \<open>auto split: if_splits\<close>)
  next
    case w: False
    show ?thesis
    proof (cases "pq_empty (pq p)")
      case True
      show ?thesis by (rule none [OF False p]) (use e w True in \<open>auto\<close>)
    next
      case ne: False
      show ?thesis by (rule piece [OF False p]) (use e w ne in \<open>auto split: if_splits\<close>)
    qed
  qed
qed

lemma Peek_conserves:
  assumes inv: "sched_inv n q" and p: "Peek n ready f q b = Inr (r, q', b')"
  shows "sched_inv n q' \<and> peek_takes n r q q'"
proof (cases ready)
  case False
  then show ?thesis using p inv by (auto simp: Peek_def peek_takes_def)
next
  case True
  then have pk: "Peek n True f q b = Inr (r, q', b')" using p by simp
  show ?thesis
    using pk
  proof (cases rule: Peek_cases)
    case zero
    let ?q = "q\<lparr>running := kRunning\<rparr>"
    have "sched_inv n ?q" "z_start ?q < z_end ?q" using inv zero(1) by simp_all
    then show ?thesis using take_zero [of n ?q _ "sched_key (zq q ! z_start q)", OF _ _ refl] zero(2,4) inv by (auto simp: peek_takes_def)
  next
    case (waiting s p)
    have P: "sched_inv n p" "out_pieces n p = out_pieces n q" "waits p = waits q" using ProcessPending_spec [OF _ waiting(2)] inv by simp_all
    then show ?thesis using pop_waiting [OF P(1) waiting(3) refl] waiting(5,7) by (auto simp: peek_takes_def)
  next
    case (piece s p)
    have P: "sched_inv n p" "out_pieces n p = out_pieces n q" "waits p = waits q" using ProcessPending_spec [OF _ piece(2)] inv by simp_all
    then show ?thesis using take_piece [OF P(1) piece(4) refl] piece(5,7) by (auto simp: peek_takes_def)
  next
    case (none s p)
    have P: "sched_inv n p" "out_pieces n p = out_pieces n q" "waits p = waits q" using ProcessPending_spec [OF _ none(2)] inv by simp_all
    then show ?thesis using none(5,7)
      by (simp add: peek_takes_def sched_inv_def out_pieces_def waits_def zero_pieces_def pending_pieces_def)
  qed
qed

lemma waits_least:
  assumes "sched_inv n q" "ws \<in># waits q"
  shows "ws_order (wstates q ! 0) \<le> ws_order ws"
proof -
  have "ws \<in> set (take (wlen q) (wstates q))" using assms(2) by (simp add: waits_def)
  then obtain i where "i < wlen q" "wstates q ! i = ws" by (auto simp: in_set_conv_nth)
  then show ?thesis using heap_min [OF sched_invD(4) [OF assms(1)]] by blast
qed

lemma processed_pieces:
  assumes "sched_inv n p" "pending_pieces n p = []" "\<not> z_start p < z_end p" "x \<in># out_pieces n p"
  shows "x \<in># cq.contents (pq p)"
  using assms by (simp add: out_pieces_def zero_pieces_def)

lemma ProcessPending_zq: "ProcessPending n q = Inr q' \<Longrightarrow> z_start q' = z_start q \<and> z_end q' = z_end q"
  by (auto simp: ProcessPending_def Let_def res_bind_Inr_iff)

text \<open>
  A piece that is offered has the least key of all pieces in the queues, and no waiting
  routine is due before it. A waiting routine that is offered is the first in their order,
  and is due before every piece unless the window is full. Completions are reported only
  when every queue is empty.
\<close>

definition peek_order :: "nat \<Rightarrow> offer \<Rightarrow> sched_queue \<Rightarrow> bool" where
  "peek_order n r q = (case r of
       Not_ready \<Rightarrow> True
     | Offer_zero p t \<Rightarrow> p = hd (zero_pieces q) \<and> zero_pieces q \<noteq> []
     | Offer_waiting ws t \<Rightarrow> zero_pieces q = [] \<and> ws \<in># waits q \<and> (\<forall>x\<in>#waits q. ws_order ws \<le> ws_order x)
         \<and> (wlen q = kOutOfOrderWindow \<or> (\<forall>x\<in>#out_pieces n q. preempt_key ws < sched_key x))
     | Offer_piece v t \<Rightarrow> zero_pieces q = [] \<and> vroutine v \<in># out_pieces n q \<and> (\<forall>x\<in>#out_pieces n q. sched_key (vroutine v) \<le> sched_key x)
         \<and> (\<forall>x\<in>#waits q. sched_key (vroutine v) \<le> preempt_key x)
     | Completions c \<Rightarrow> out_pieces n q = {#} \<and> waits q = {#})"

lemma top_key:
  assumes "sched_inv n p" "\<not> pq_empty (pq p)"
  shows "fst (heap_q (pq p) ! 0) = sched_key (vroutine (Pick (pq p)))"
proof -
  have i: "pq_inv (pq p)" by (rule sched_invD(1) [OF assms(1)])
  obtain k vs where k: "pq_by_key (pq p) k = Pick (pq p) # vs" "fst (heap_q (pq p) ! 0) = k" using pq_pick [OF i assms(2)] by blast
  then have "sched_key (vroutine (Pick (pq p))) = k" using cq.keys_law [OF i, of "Pick (pq p)" k] by simp
  then show ?thesis using k(2) by simp
qed

lemma waits_none: "sched_inv n p \<Longrightarrow> waits p = {#} \<longleftrightarrow> wlen p = 0"
  using sched_invD(2,3) [of n p] by (auto simp: waits_def kOutOfOrderWindow_def)

lemma Peek_order:
  assumes inv: "sched_inv n q" and p: "Peek n ready f q b = Inr (r, q', b')"
  shows "peek_order n r q"
proof (cases ready)
  case False
  then show ?thesis using p by (auto simp: Peek_def peek_order_def)
next
  case True
  then have pk: "Peek n True f q b = Inr (r, q', b')" using p by simp
  have zp: "\<not> z_start q < z_end q \<Longrightarrow> zero_pieces q = []" by (simp add: zero_pieces_def)
  show ?thesis
    using pk
  proof (cases rule: Peek_cases)
    case zero
    then show ?thesis by (simp add: peek_order_def zero_pieces_def upt_conv_Cons)
  next
    case (waiting s p)
    have P: "sched_inv n p" "out_pieces n p = out_pieces n q" "waits p = waits q" "wlen p = wlen q" "pending_pieces n p = []"
      using ProcessPending_spec [OF _ waiting(2)] inv by simp_all
    have z: "\<not> z_start p < z_end p" using ProcessPending_zq [OF waiting(2)] waiting(1) by simp
    let ?ws = "wstates p ! 0"
    have "?ws \<in># waits p" using waiting(3) sched_invD(2,3) [OF P(1)] unfolding waits_def by (auto simp: in_set_conv_nth intro!: exI [of _ 0])
    moreover have "preempt_key ?ws < sched_key x" if x: "ShouldPickWaiting (pq p) ?ws" "x \<in># out_pieces n p" for x
    proof -
      have c: "x \<in># cq.contents (pq p)" by (rule processed_pieces [OF P(1,5) z x(2)])
      then have ne: "\<not> pq_empty (pq p)" using cq.contents_empty [OF sched_invD(1) [OF P(1)]] by auto
      then have "preempt_key ?ws < fst (heap_q (pq p) ! 0)" using x(1) by (simp add: ShouldPickWaiting_def pq_empty_def)
      also have "\<dots> \<le> sched_key x" unfolding top_key [OF P(1) ne] by (rule cq.pick_least [OF sched_invD(1) [OF P(1)] ne c])
      finally show ?thesis .
    qed
    ultimately show ?thesis using waiting(1,4,5) waits_least [OF P(1)] P(2-4) zp by (auto simp: peek_order_def)
  next
    case (piece s p)
    have P: "sched_inv n p" "out_pieces n p = out_pieces n q" "waits p = waits q" "wlen p = wlen q" "pending_pieces n p = []"
      using ProcessPending_spec [OF _ piece(2)] inv by simp_all
    have z: "\<not> z_start p < z_end p" using ProcessPending_zq [OF piece(2)] piece(1) by simp
    note i = sched_invD(1) [OF P(1)]
    let ?k = "sched_key (vroutine (Pick (pq p)))"
    have "vroutine (Pick (pq p)) \<in># out_pieces n p" using cq.contents_consume [OF i piece(4)] by (simp add: out_pieces_def)
    moreover have "?k \<le> sched_key x" if "x \<in># out_pieces n p" for x
      using cq.pick_least [OF i piece(4)] processed_pieces [OF P(1,5) z that] by blast
    moreover have "?k \<le> preempt_key x" if x: "x \<in># waits p" for x
    proof -
      have "wlen p \<noteq> 0" using x waits_none [OF P(1)] by auto
      then have "\<not> ShouldPickWaiting (pq p) (wstates p ! 0)" using piece(3) by simp
      then have "?k \<le> preempt_key (wstates p ! 0)" using top_key [OF P(1) piece(4)] by (auto simp: ShouldPickWaiting_def not_less)
      also have "\<dots> \<le> preempt_key x" using waits_least [OF P(1) x] by (auto simp: ws_order_def)
      finally show ?thesis .
    qed
    ultimately show ?thesis using piece(1,5) P(2,3) zp by (simp add: peek_order_def)
  next
    case (none s p)
    have P: "sched_inv n p" "out_pieces n p = out_pieces n q" "waits p = waits q" "pending_pieces n p = []"
      using ProcessPending_spec [OF _ none(2)] inv by simp_all
    have z: "\<not> z_start p < z_end p" using ProcessPending_zq [OF none(2)] none(1) by simp
    have "cq.contents (pq p) = {#}" using cq.contents_empty [OF sched_invD(1) [OF P(1)]] none(4) by simp
    then have "out_pieces n p = {#}" using processed_pieces [OF P(1,4) z] by (metis multiset_nonemptyE empty_iff set_mset_empty)
    moreover have "wlen p = 0" using none(3,4) by (auto simp: ShouldPickWaiting_def pq_empty_def)
    ultimately show ?thesis using none(5) P(2,3) waits_none [OF P(1)] by (simp add: peek_order_def)
  qed
qed

section \<open>Preempt\<close>

lemma Preempt_waits:
  assumes inv: "sched_inv n q" and p: "Preempt n st q = Inr (t, q')"
  shows "sched_inv n q' \<and> out_pieces n q' = out_pieces n q
    \<and> (if t then \<exists>ws. waits q' = add_mset ws (waits q) \<and> ws_state ws = st \<and> ws_key ws = current_sched_key q else waits q' = waits q)"
proof -
  obtain m where m: "ProcessPending n q = Inr m" using p by (auto simp: Preempt_def res_bind_Inr_iff)
  have P: "sched_inv n m" "out_pieces n m = out_pieces n q" "waits m = waits q" "current_sched_key m = current_sched_key q"
    using ProcessPending_spec [OF inv m] by simp_all
  note D = sched_invD [OF P(1)]
  show ?thesis
  proof (cases "current_sched_key m = 0")
    case True
    then have "t = False" "q' = m" using p m by (auto simp: Preempt_def)
    then show ?thesis using P by simp
  next
    case key: False
    have lt: "wlen m < kOutOfOrderWindow" using p m key D(3) by (auto simp: Preempt_def Let_def split: if_splits)
    define old where "old = wstates m ! wlen m"
    define times where "times = (if ws_key old = current_sched_key m then preempt_times old + 1 else 1)"
    define ups where "ups = (if ws_key old = current_sched_key m then unique_preempts m else unique_preempts m + 1)"
    define ws where "ws = \<lparr>ws_state = st, ws_key = current_sched_key m, preempt_ts = state_ts m,
      preempt_key = current_sched_key m + of_nat (keyThreshold * min times max_backoff), preempt_times = times\<rparr>"
    define q1 where "q1 = m\<lparr>wstates := (wstates m)[wlen m := ws], unique_preempts := ups\<rparr>"
    have e: "(if wlen m = 0 \<and> ShouldPickWaiting (pq m) ws then Inr (False, q1)
        else Inr (True, q1\<lparr>wlen := wlen m + 1, wstates := push_heap ws_order (wlen m + 1) (wstates q1)\<rparr>)) = (Inr (t, q') :: (bool \<times> sched_queue) res)"
      using p m key lt unfolding Preempt_def Let_def old_def times_def ups_def ws_def q1_def by simp
    have h: "heap_on ws_order (wlen m) (wstates q1)"
      unfolding heap_on_def
    proof (intro allI impI)
      fix i assume i: "i < wlen m" "0 < i"
      then have "parent i < wlen m" using parent_less [of i] by simp
      then show "ws_order (wstates q1 ! parent i) \<le> ws_order (wstates q1 ! i)" using D(4) i by (simp add: q1_def heap_on_def)
    qed
    have inv1: "sched_inv n q1" using P(1) h by (simp add: sched_inv_def q1_def)
    have same: "out_pieces n q1 = out_pieces n m" "waits q1 = waits m"
      by (simp_all add: q1_def out_pieces_def zero_pieces_def pending_pieces_def waits_def)
    show ?thesis
    proof (cases t)
      case False
      then have "q' = q1" using e by (auto split: if_splits)
      then show ?thesis using inv1 same P False by simp
    next
      case True
      then have q': "q' = q1\<lparr>wlen := wlen m + 1, wstates := push_heap ws_order (wlen m + 1) (wstates q1)\<rparr>" using e by (auto split: if_splits)
      have len: "wlen m + 1 \<le> length (wstates q1)" using lt D(2) by (simp add: q1_def)
      have H: "heap_on ws_order (wlen m + 1) (push_heap ws_order (wlen m + 1) (wstates q1))"
        "length (push_heap ws_order (wlen m + 1) (wstates q1)) = length (wstates q1)"
        "mset (take (wlen m + 1) (push_heap ws_order (wlen m + 1) (wstates q1))) = mset (take (wlen m + 1) (wstates q1))"
        using push_heap_heap [of ws_order "wlen m + 1" "wstates q1"] h len by simp_all
      have "take (wlen m + 1) (wstates q1) = take (wlen m) (wstates m) @ [ws]"
        using lt D(2) by (simp add: q1_def take_Suc_conv_app_nth)
      then have "waits q' = add_mset ws (waits m)" using H(3) by (simp add: waits_def q')
      moreover have "sched_inv n q'" using inv1 H(1,2) lt by (simp add: sched_inv_def q')
      moreover have "out_pieces n q' = out_pieces n m" using same(1) by (simp add: q' out_pieces_def zero_pieces_def pending_pieces_def)
      moreover have "ws_state ws = st" "ws_key ws = current_sched_key m" by (simp_all add: ws_def)
      ultimately show ?thesis using P(2-4) True by auto
    qed
  qed
qed

text \<open>
  A routine that was taken with \<open>Peek\<close> can always be preempted: either its key is 0, which
  \<open>Preempt\<close> refuses, or the window has room, because a full window makes \<open>Peek\<close> offer a
  waiting routine.
\<close>

definition taken :: "offer \<Rightarrow> bool" where
  "taken r = (case r of Offer_zero p t \<Rightarrow> t | Offer_waiting ws t \<Rightarrow> t | Offer_piece v t \<Rightarrow> t | _ \<Rightarrow> False)"

lemma Peek_leaves_room:
  assumes inv: "sched_inv n q" and p: "Peek n ready f q b = Inr (r, q', b')" and t: "taken r"
  shows "current_sched_key q' = 0 \<or> wlen q' < kOutOfOrderWindow"
proof -
  have ready: ready using p t by (cases ready) (auto simp: Peek_def taken_def)
  then have pk: "Peek n True f q b = Inr (r, q', b')" using p by simp
  show ?thesis
    using pk
  proof (cases rule: Peek_cases)
    case zero
    then have "f (Some (zq q ! z_start q)) None" using t by (simp add: taken_def)
    then show ?thesis using zero(1,4) sched_invD(8) [OF inv zero(1)] by simp
  next
    case (waiting s p)
    have "sched_inv n p" using ProcessPending_spec [OF _ waiting(2)] inv by simp
    then show ?thesis using waiting(3,5,7) t sched_invD(3) by (fastforce simp: taken_def)
  next
    case (piece s p)
    have i: "sched_inv n p" using ProcessPending_spec [OF _ piece(2)] inv by simp
    have "wlen p < kOutOfOrderWindow" using piece(3) sched_invD(3) [OF i] by (auto simp: kOutOfOrderWindow_def)
    then show ?thesis using piece(7) by auto
  next
    case (none s p)
    then show ?thesis using t by (simp add: taken_def)
  qed
qed

lemma ProcessPending_error: "ProcessPending n q = Inl e \<Longrightarrow> e = Abort ''Brk is not large enough''"
proof -
  have add: "AddToPriorityQueue p st x = Inl e \<Longrightarrow> e = Abort ''Brk is not large enough''" for p st x
    by (auto simp: AddToPriorityQueue_def Brk_Alloc_def Let_def split: if_splits option.splits)
  have "process_loop n pos m ps x = Inl e \<Longrightarrow> e = Abort ''Brk is not large enough''" for pos m ps x
  proof (induction m arbitrary: pos x)
    case (Suc m)
    then show ?case using add by (cases "AddToPriorityQueue (ps ! (pos mod n)) None x") auto
  qed simp
  then show "ProcessPending n q = Inl e \<Longrightarrow> e = Abort ''Brk is not large enough''"
    by (cases "process_loop n (pend_start q) ((pend_end q + 2 ^ 64 - pend_start q) mod 2 ^ 64) (pend_q q) (pq q)")
      (auto simp: ProcessPending_def Let_def)
qed

lemma Preempt_window:
  assumes inv: "sched_inv n q" and room: "current_sched_key q = 0 \<or> wlen q < kOutOfOrderWindow"
  shows "Preempt n st q \<noteq> Inl (Abort ''out-of-order scheduling window is full'')"
proof (cases "ProcessPending n q")
  case (Inl e)
  then have "e = Abort ''Brk is not large enough''" by (rule ProcessPending_error)
  then show ?thesis using Inl by (simp add: Preempt_def)
next
  case (Inr m)
  have "wlen m = wlen q" "current_sched_key m = current_sched_key q" using ProcessPending_spec [OF inv Inr] by simp_all
  then show ?thesis using Inr room by (auto simp: Preempt_def Let_def)
qed

text \<open>\<open>Reset\<close> succeeds exactly when the priority queue is empty, and keeps the invariant.\<close>

lemma Reset_queue_ok:
  assumes inv: "sched_inv n q"
  shows "(\<exists>q'. Reset_queue q = Inr q') \<longleftrightarrow> pq_empty (pq q)" "Reset_queue q = Inr q' \<Longrightarrow> sched_inv n q' \<and> zero_pieces q' = []"
  using inv by (cases "heap_q (pq q) = []"; auto simp: Reset_queue_def pq_Reset_def pq_empty_def sched_inv_def zero_pieces_def)+

end
