(* ===== verification/Exec_Routine.thy ===== *)
theory Exec_Routine
  imports Routine_Sched
begin

text \<open>
  \<open>ExecutionRoutine\<close> of \<^verbatim>\<open>src/piece.cc\<close>: the loop of a core that takes pieces from its queue and
  runs them. The callback of a piece and the network polling are parameters: functions of
  the state of the queue, since both may add pieces to it. Waking up routines is the
  work of the go library; the model records which routine was found.
\<close>

section \<open>The loop\<close>

record exec_state =
  ex_queue :: sched_queue
  ex_bubbles :: nat
  ran :: "piece list"
  reported :: nat
  give_up :: bool
  found :: "nat option"
  cnt :: nat

definition exec_pop :: "piece option \<Rightarrow> nat option \<Rightarrow> bool" where
  "exec_pop r st \<longleftrightarrow> st = None"

text \<open>What the listener and the completion object note of the answer of \<open>Peek\<close>.\<close>

definition note_offer :: "offer \<Rightarrow> exec_state \<Rightarrow> exec_state" where
  "note_offer r s =
     (case r of
        Offer_zero p True \<Rightarrow> s\<lparr>give_up := False\<rparr>
      | Offer_piece v True \<Rightarrow> s\<lparr>give_up := False\<rparr>
      | Offer_waiting ws False \<Rightarrow> s\<lparr>give_up := True, found := Some (ws_state ws)\<rparr>
      | Offer_piece v False \<Rightarrow> s\<lparr>give_up := True, found := vstate v\<rparr>
      | Completions c \<Rightarrow> s\<lparr>reported := reported s + c\<rparr>
      | _ \<Rightarrow> s)"

definition next_piece :: "offer \<Rightarrow> piece option" where
  "next_piece r = (case r of Offer_zero p True \<Rightarrow> Some p | Offer_piece v True \<Rightarrow> Some (vroutine v) | _ \<Rightarrow> None)"

text \<open>One turn of the inner loop: false when \<open>Peek\<close> gave nothing to run.\<close>

definition exec_turn :: "nat \<Rightarrow> bool \<Rightarrow> (piece \<Rightarrow> sched_queue \<Rightarrow> sched_queue) \<Rightarrow> (sched_queue \<Rightarrow> sched_queue \<times> bool) \<Rightarrow> exec_state \<Rightarrow> (bool \<times> exec_state) res" where
  "exec_turn n ready cb io s =
     res_bind (Peek n ready exec_pop (ex_queue s) (ex_bubbles s)) (\<lambda>(r, q, b).
     let s1 = note_offer r (s\<lparr>ex_queue := q, ex_bubbles := b\<rparr>) in
     case next_piece r of
       None \<Rightarrow> Inr (False, s1)
     | Some rt \<Rightarrow>
         (let c = (cnt s1 + 1) mod 2 ^ 64;
              q1 = (if c mod 32 = 0 then fst (io q) else q)
          in Inr (True, s1\<lparr>cnt := c, ran := ran s1 @ [rt], ex_queue := Complete (cb rt q1)\<rparr>)))"

fun exec_inner :: "nat \<Rightarrow> nat \<Rightarrow> bool \<Rightarrow> (piece \<Rightarrow> sched_queue \<Rightarrow> sched_queue) \<Rightarrow> (sched_queue \<Rightarrow> sched_queue \<times> bool) \<Rightarrow> exec_state \<Rightarrow> exec_state res option" where
  "exec_inner 0 n ready cb io s = None"
| "exec_inner (Suc fuel) n ready cb io s =
     (case exec_turn n ready cb io s of
        Inl e \<Rightarrow> Some (Inl e)
      | Inr (False, s') \<Rightarrow> Some (Inr s')
      | Inr (True, s') \<Rightarrow> exec_inner fuel n ready cb io s')"

fun exec_outer :: "nat \<Rightarrow> nat \<Rightarrow> bool \<Rightarrow> (piece \<Rightarrow> sched_queue \<Rightarrow> sched_queue) \<Rightarrow> (sched_queue \<Rightarrow> sched_queue \<times> bool) \<Rightarrow> exec_state \<Rightarrow> exec_state res option" where
  "exec_outer 0 n ready cb io s = None"
| "exec_outer (Suc fuel) n ready cb io s =
     (case exec_inner fuel n ready cb io s of
        None \<Rightarrow> None
      | Some (Inl e) \<Rightarrow> Some (Inl e)
      | Some (Inr s') \<Rightarrow>
          if \<not> give_up s' \<and> ready then
            (let (q, again) = io (ex_queue s') in
             if again then exec_outer fuel n ready cb io (s'\<lparr>ex_queue := q\<rparr>) else Some (Inr (s'\<lparr>ex_queue := q\<rparr>)))
          else Some (Inr s'))"

definition Run :: "nat \<Rightarrow> nat \<Rightarrow> bool \<Rightarrow> (piece \<Rightarrow> sched_queue \<Rightarrow> sched_queue) \<Rightarrow> (sched_queue \<Rightarrow> sched_queue \<times> bool) \<Rightarrow> sched_queue \<Rightarrow> nat \<Rightarrow> exec_state res option" where
  "Run fuel n ready cb io q bubbles =
     exec_outer fuel n ready cb io \<lparr>ex_queue = q, ex_bubbles = bubbles, ran = [], reported = 0, give_up = False, found = None, cnt = 31\<rparr>"

text \<open>
  A preempted routine that got up again: it returns when \<open>Peek\<close> takes its own waiting
  state; otherwise it sleeps again, and a new routine is spawned unless another waiting
  one was found.
\<close>

definition preempt_pop :: "nat \<Rightarrow> piece option \<Rightarrow> nat option \<Rightarrow> bool" where
  "preempt_pop this r st \<longleftrightarrow> st = Some this"

definition preempt_wake :: "nat \<Rightarrow> bool \<Rightarrow> nat \<Rightarrow> sched_queue \<Rightarrow> nat \<Rightarrow> (bool \<times> bool \<times> sched_queue \<times> nat) res" where
  "preempt_wake n ready this q b =
     res_bind (Peek n ready (preempt_pop this) q b) (\<lambda>(r, q', b').
     case r of
       Offer_waiting ws tk \<Rightarrow> Inr (tk, tk, q', b')
     | Offer_piece v tk \<Rightarrow> Inr (tk, tk \<or> vstate v = None, q', b')
     | _ \<Rightarrow> Inr (False, True, q', b'))"

text \<open>The cores for which \<open>FlushScheduler\<close> starts a routine; it waits for a core that decides.\<close>

fun FlushScheduler :: "sched_queue list \<Rightarrow> nat \<Rightarrow> nat list option" where
  "FlushScheduler [] core = Some []"
| "FlushScheduler (q # qs) core =
     (case IsRunning q of
        None \<Rightarrow> None
      | Some r \<Rightarrow> map_option (\<lambda>cs. if r then cs else core # cs) (FlushScheduler qs (core + 1)))"

lemma FlushScheduler_exact:
  "FlushScheduler qs core = Some cs \<Longrightarrow> set cs = {core + i | i. i < length qs \<and> running (qs ! i) \<noteq> kRunning}"
proof (induction qs arbitrary: core cs)
  case (Cons q qs)
  then obtain cs' where cs': "FlushScheduler qs (core + 1) = Some cs'" "cs = (if running q = kRunning then cs' else core # cs')"
    by (auto simp: IsRunning_def split: if_splits)
  have "set cs' = {core + 1 + i | i. i < length qs \<and> running (qs ! i) \<noteq> kRunning}" by (rule Cons.IH [OF cs'(1)])
  moreover have "{core + i | i. i < length (q # qs) \<and> running ((q # qs) ! i) \<noteq> kRunning} =
      (if running q = kRunning then {} else {core}) \<union> {core + 1 + i | i. i < length qs \<and> running (qs ! i) \<noteq> kRunning}"
    by (auto simp: less_Suc_eq_0_disj)
  ultimately show ?case using cs'(2) by auto
qed simp

section \<open>Running everything\<close>

definition idle_cb :: "piece \<Rightarrow> sched_queue \<Rightarrow> sched_queue" where "idle_cb r q = q"
definition idle_io :: "sched_queue \<Rightarrow> sched_queue \<times> bool" where "idle_io q = (q, False)"

definition fresh_values :: "prio_queue \<Rightarrow> bool" where
  "fresh_values p \<longleftrightarrow> (\<forall>k. \<forall>v\<in>set (pq_by_key p k). vstate v = None)"

text \<open>A queue in which nothing waits; \<open>p\<close> is its priority queue with the pending pieces brought in.\<close>

definition quiet :: "nat \<Rightarrow> sched_queue \<Rightarrow> prio_queue \<Rightarrow> bool" where
  "quiet n q p \<longleftrightarrow> sched_inv n q \<and> wlen q = 0 \<and> fresh_values (pq q)
     \<and> process_loop n (pend_start q) (pend_end q - pend_start q) (pend_q q) (pq q) = Inr p"

lemma heap_on_0 [simp]: "heap_on f 0 xs"
  by (simp add: heap_on_def)

lemma quietD:
  assumes "quiet n q p"
  shows "sched_inv n q" "wlen q = 0" "fresh_values (pq q)" "pq_inv (pq q)" "pend_start q \<le> pend_end q" "pend_end q < 2 ^ 32" "z_start q \<le> z_end q"
    "cq.add_all (pending_pieces n q) (pq q) = Inr p" "process_loop n (pend_start q) (pend_end q - pend_start q) (pend_q q) (pq q) = Inr p"
  using assms by (auto simp: quiet_def sched_inv_def process_loop_add_all pending_pieces_def)

lemma quiet_ProcessPending: "quiet n q p \<Longrightarrow> ProcessPending n (q\<lparr>running := r\<rparr>) = Inr (q\<lparr>running := r, pq := p, pend_start := pend_end q\<rparr>)"
proof -
  assume a: "quiet n q p"
  note I = quietD(5,6,9) [OF a]
  have "(pend_end q + 2 ^ 64 - pend_start q) mod 2 ^ 64 = ((pend_end q - pend_start q) + 2 ^ 64) mod (2 ^ 64 :: nat)" using I(1) by simp
  also have "\<dots> = pend_end q - pend_start q" using I(2) by (simp only: mod_add_self2) simp
  finally show ?thesis using I by (simp add: ProcessPending_def)
qed

lemma quiet_keys:
  assumes "quiet n q p"
  shows "pq_inv p" "fresh_values p"
    "pq_by_key p k = pq_by_key (pq q) k @ map (\<lambda>r. \<lparr>vroutine = r, vstate = None\<rparr>) (filter (\<lambda>r. sched_key r = k) (pending_pieces n q))"
proof -
  note A = cq.add_all_keys [OF quietD(4,8) [OF assms]]
  then show "pq_inv p" "pq_by_key p k = pq_by_key (pq q) k @ map (\<lambda>r. \<lparr>vroutine = r, vstate = None\<rparr>) (filter (\<lambda>r. sched_key r = k) (pending_pieces n q))"
    by blast+
  show "fresh_values p" using quietD(3) [OF assms] A by (auto simp: fresh_values_def)
qed

text \<open>A turn takes the first piece of the zero queue, and of the priority queue when that is empty.\<close>

lemma quiet_zero_turn:
  assumes d: "quiet n (ex_queue s) p" and z: "z_start (ex_queue s) < z_end (ex_queue s)"
  shows "\<exists>s'. exec_turn n True idle_cb idle_io s = Inr (True, s') \<and> quiet n (ex_queue s') p
    \<and> zero_pieces (ex_queue s) = zq (ex_queue s) ! z_start (ex_queue s) # zero_pieces (ex_queue s')
    \<and> ran s' = ran s @ [zq (ex_queue s) ! z_start (ex_queue s)] \<and> completed (ex_queue s') = completed (ex_queue s) + 1
    \<and> reported s' = reported s \<and> ex_bubbles s' = ex_bubbles s \<and> give_up s' = False"
proof -
  let ?q = "ex_queue s"
  let ?r = "zq ?q ! z_start ?q"
  have pk: "Peek n True exec_pop ?q (ex_bubbles s) =
      Inr (Offer_zero ?r True, ?q\<lparr>running := kRunning, z_start := z_start ?q + 1, current_sched_key := sched_key ?r\<rparr>, ex_bubbles s)"
    using z by (simp add: Peek_def Let_def exec_pop_def)
  have "quiet n (?q\<lparr>running := r, z_start := z_start ?q + 1, current_sched_key := c, completed := m\<rparr>) p" for r c m
    using d z unfolding quiet_def sched_inv_def by simp
  then show ?thesis using z unfolding exec_turn_def pk
    by (simp add: Let_def note_offer_def next_piece_def idle_io_def idle_cb_def Complete_def zero_pieces_def upt_conv_Cons)
qed

lemma quiet_turn:
  assumes d: "quiet n (ex_queue s) p" and z: "\<not> z_start (ex_queue s) < z_end (ex_queue s)" and ne: "\<not> pq_empty p"
  shows "\<exists>s'. exec_turn n True idle_cb idle_io s = Inr (True, s') \<and> quiet n (ex_queue s') (Consume p)
    \<and> zero_pieces (ex_queue s') = []
    \<and> ran s' = ran s @ [vroutine (Pick p)] \<and> completed (ex_queue s') = completed (ex_queue s) + 1
    \<and> reported s' = reported s \<and> ex_bubbles s' = ex_bubbles s \<and> give_up s' = False"
proof -
  let ?q = "ex_queue s"
  note i = quietD [OF d] and p = quiet_keys [OF d]
  obtain k vs where k: "pq_by_key p k = Pick p # vs" "pq_inv (Consume p)" "pq_by_key (Consume p) = (pq_by_key p)(k := vs)"
    using cq.pick_law [OF p(1) ne] by blast
  have v: "vstate (Pick p) = None" using p(2) k(1) unfolding fresh_values_def by (metis list.set_intros(1))
  have fr: "fresh_values (Consume p)"
    using p(2) k(1,3) unfolding fresh_values_def by (metis fun_upd_apply list.set_intros(2))
  obtain r where pk: "Peek n True exec_pop ?q (ex_bubbles s) = Inr (Offer_piece (Pick p) True,
      ?q\<lparr>running := r, pq := Consume p, pend_start := pend_end ?q, current_sched_key := sched_key (vroutine (Pick p)), state_ts := state_ts ?q + 1\<rparr>, ex_bubbles s)"
    using i(2) z ne v quiet_ProcessPending [OF d] by (cases ?q) (simp add: Peek_def Let_def exec_pop_def)
  have "quiet n (?q\<lparr>running := r, pq := Consume p, pend_start := pend_end ?q, current_sched_key := c, state_ts := t, completed := m\<rparr>) (Consume p)" for r c t m
    using i(1,2) k(2) fr by (simp add: quiet_def sched_inv_def)
  then show ?thesis using z unfolding exec_turn_def pk
    by (simp add: Let_def note_offer_def next_piece_def idle_io_def idle_cb_def Complete_def zero_pieces_def)
qed

lemma quiet_stop:
  assumes d: "quiet n (ex_queue s) p" and z: "\<not> z_start (ex_queue s) < z_end (ex_queue s)" and e: "pq_empty p" and g: "give_up s = False"
  shows "\<exists>s'. exec_turn n True idle_cb idle_io s = Inr (False, s') \<and> give_up s' = False \<and> ran s' = ran s
    \<and> reported s' = reported s + (completed (ex_queue s) + ex_bubbles s)"
  using quietD(2) [OF d] z e g quiet_ProcessPending [OF d]
  by (simp add: exec_turn_def Peek_def Let_def note_offer_def next_piece_def)

text \<open>Enough fuel runs everything.\<close>

lemma quiet_run:
  "quiet n (ex_queue s) p \<Longrightarrow> length (zero_pieces (ex_queue s)) + cq.total p < fuel \<Longrightarrow> give_up s = False \<Longrightarrow>
     \<exists>s'. exec_inner fuel n True idle_cb idle_io s = Some (Inr s') \<and> give_up s' = False
       \<and> ran s' = ran s @ zero_pieces (ex_queue s) @ map vroutine (cq.drain (cq.total p) p)
       \<and> reported s' = reported s + completed (ex_queue s) + ex_bubbles s + length (zero_pieces (ex_queue s)) + cq.total p"
proof (induction fuel arbitrary: s p)
  case (Suc fuel)
  note p = quiet_keys(1) [OF Suc.prems(1)]
  consider (zero) "z_start (ex_queue s) < z_end (ex_queue s)" | (pick) "\<not> z_start (ex_queue s) < z_end (ex_queue s)" "\<not> pq_empty p"
    | (stop) "\<not> z_start (ex_queue s) < z_end (ex_queue s)" "pq_empty p" by blast
  then show ?case
  proof cases
    case zero
    obtain s1 where s1: "exec_turn n True idle_cb idle_io s = Inr (True, s1)" "quiet n (ex_queue s1) p"
      "zero_pieces (ex_queue s) = zq (ex_queue s) ! z_start (ex_queue s) # zero_pieces (ex_queue s1)"
      "ran s1 = ran s @ [zq (ex_queue s) ! z_start (ex_queue s)]" "completed (ex_queue s1) = completed (ex_queue s) + 1"
      "reported s1 = reported s" "ex_bubbles s1 = ex_bubbles s" "give_up s1 = False" using quiet_zero_turn [OF Suc.prems(1) zero] by blast
    show ?thesis using Suc.IH [OF s1(2) _ s1(8)] Suc.prems(2) s1 by simp
  next
    case pick
    then have z: "zero_pieces (ex_queue s) = []" by (simp add: zero_pieces_def)
    obtain s1 where s1: "exec_turn n True idle_cb idle_io s = Inr (True, s1)" "quiet n (ex_queue s1) (Consume p)" "zero_pieces (ex_queue s1) = []"
      "ran s1 = ran s @ [vroutine (Pick p)]" "completed (ex_queue s1) = completed (ex_queue s) + 1" "reported s1 = reported s"
      "ex_bubbles s1 = ex_bubbles s" "give_up s1 = False" using quiet_turn [OF Suc.prems(1) pick] by blast
    have t: "cq.total p = Suc (cq.total (Consume p))" by (rule cq.total_consume [OF p pick(2)])
    show ?thesis using Suc.IH [OF s1(2) _ s1(8)] Suc.prems(2) s1 t z pick(2) by simp
  next
    case stop
    then have z: "zero_pieces (ex_queue s) = []" by (simp add: zero_pieces_def)
    have "\<forall>k. pq_by_key p k = []" using cq.empty_law [OF p] stop(2) by simp
    then have "cq.total p = 0" by (simp add: cq.total_def)
    then show ?thesis using quiet_stop [OF Suc.prems(1) stop Suc.prems(3)] z by auto
  qed
qed simp

theorem Run_all:
  assumes q: "quiet n q p" and f: "length (zero_pieces q) + cq.total p + 1 < fuel"
  shows "\<exists>s xs. Run fuel n True idle_cb idle_io q b = Some (Inr s) \<and> ran s = zero_pieces q @ xs \<and> sorted (map sched_key xs)
    \<and> (\<forall>k. filter (\<lambda>r. sched_key r = k) xs = map vroutine (pq_by_key (pq q) k) @ filter (\<lambda>r. sched_key r = k) (pending_pieces n q))
    \<and> reported s = completed q + b + length (ran s)"
proof -
  let ?s0 = "\<lparr>ex_queue = q, ex_bubbles = b, ran = [], reported = 0, give_up = False, found = None, cnt = 31\<rparr>"
  let ?xs = "map vroutine (cq.drain (cq.total p) p)"
  obtain f' where f': "fuel = Suc f'" "length (zero_pieces q) + cq.total p < f'" using f by (cases fuel) auto
  obtain s where s: "exec_inner f' n True idle_cb idle_io ?s0 = Some (Inr s)" "give_up s = False" "ran s = zero_pieces q @ ?xs"
    "reported s = completed q + b + length (zero_pieces q) + cq.total p"
    using quiet_run [of n ?s0 p f'] q f'(2) by auto
  note o = cq.drain_order [OF quiet_keys(1) [OF q] order.refl]
  have flt: "filter (\<lambda>r. sched_key r = k) ?xs = map vroutine (pq_by_key p k)" for k
    using o by (simp add: filter_map comp_def)
  have "length ?xs = cq.total p" using cq.drain_length [OF quiet_keys(1) [OF q] refl] by simp
  then show ?thesis
    using s o flt quiet_keys(3) [OF q] f'(1)
    by (intro exI [of _ s] exI [of _ ?xs]) (simp add: Run_def idle_io_def comp_def)
qed

end
