(* ===== verification/Bytes.thy ===== *)
theory Bytes
  imports Lower_Bound
begin

text \<open>
  Byte buffers: little-endian integers as \<open>memcpy\<close> of a variable writes them, and checked
  copies into and out of a buffer.
\<close>

type_synonym byte = "8 word"

section \<open>Little-endian integers\<close>

fun le_bytes :: "nat \<Rightarrow> nat \<Rightarrow> byte list" where
  "le_bytes 0 x = []"
| "le_bytes (Suc n) x = of_nat x # le_bytes n (x div 256)"

fun le_val :: "byte list \<Rightarrow> nat" where
  "le_val [] = 0"
| "le_val (b # bs) = unat b + 256 * le_val bs"

lemma length_le_bytes [simp]: "length (le_bytes n x) = n"
  by (induction n arbitrary: x) auto

lemma unat_byte: "unat (of_nat x :: byte) = x mod 256"
  by (simp add: unat_of_nat)

lemma le_val_bytes: "le_val (le_bytes n x) = x mod 256 ^ n"
proof (induction n arbitrary: x)
  case (Suc n)
  have "x mod 256 ^ Suc n = 256 * (x div 256 mod 256 ^ n) + x mod 256"
    using mod_mult2_eq [of x 256 "256 ^ n"] by (simp add: mult.commute)
  then show ?case using Suc by (simp add: unat_byte)
qed simp

lemma le_val_less: "le_val bs < 256 ^ length bs"
proof (induction bs)
  case (Cons b bs)
  have "unat b < 256" using unsigned_less [of b] by simp
  moreover have "Suc (le_val bs) * 256 \<le> 256 ^ length bs * 256" using Cons by (intro mult_right_mono) simp_all
  ultimately show ?case by simp
qed simp

lemma le_bytes_val [simp]: "length bs = n \<Longrightarrow> le_bytes n (le_val bs) = bs"
proof (induction bs arbitrary: n)
  case (Cons b bs)
  have b: "unat b < 256" using unsigned_less [of b] by simp
  have "(of_nat (unat b + 256 * le_val bs) :: byte) = b"
  proof -
    have "(256 :: byte) * of_nat (le_val bs) = 0 * of_nat (le_val bs)" by (rule arg_cong [of 256 0 "\<lambda>z. z * of_nat (le_val bs)"]) simp
    then show ?thesis by simp
  qed
  moreover have "(unat b + 256 * le_val bs) div 256 = le_val bs" using b by simp
  ultimately show ?case using Cons by auto
qed simp

lemma unat_bounds: "unat (w :: u64) < 2 ^ 64" "unat (v :: u32) < 2 ^ 32" "unat (h :: u16) < 2 ^ 16" "unat (b :: byte) < 2 ^ 8"
  by (rule order_less_le_trans [OF unsigned_less], simp)+

lemma le_val_word:
  "le_val (le_bytes 8 (unat (w :: u64))) = unat w" "le_val (le_bytes 4 (unat (v :: u32))) = unat v" "le_val (le_bytes 2 (unat (h :: u16))) = unat h"
  using unat_bounds(1) [of w] unat_bounds(2) [of v] unat_bounds(3) [of h] by (simp_all add: le_val_bytes)

section \<open>Copies\<close>

definition rdn :: "byte list \<Rightarrow> nat \<Rightarrow> nat \<Rightarrow> byte list res" where
  "rdn buf p n = (if p + n \<le> length buf then Inr (take n (drop p buf)) else Inl OutOfBounds)"

definition wrn :: "byte list \<Rightarrow> nat \<Rightarrow> byte list \<Rightarrow> byte list res" where
  "wrn buf p bs = (if p + length bs \<le> length buf then Inr (take p buf @ bs @ drop (p + length bs) buf) else Inl OutOfBounds)"

lemma wrn_facts:
  assumes "wrn buf p bs = Inr buf'"
  shows "length buf' = length buf" "take n (drop q buf') = take n (drop q buf) \<or> \<not> (q + n \<le> p \<or> p + length bs \<le> q)"
    "take (length bs) (drop p buf') = bs" "p + length bs \<le> length buf"
proof -
  have b: "p + length bs \<le> length buf" "buf' = take p buf @ bs @ drop (p + length bs) buf" using assms by (auto simp: wrn_def split: if_splits)
  show "length buf' = length buf" "take (length bs) (drop p buf') = bs" "p + length bs \<le> length buf" using b by auto
  have "take n (drop q buf') = take n (drop q buf)" if "q + n \<le> p" using that b by (auto simp: min_def drop_take)
  moreover have "take n (drop q buf') = take n (drop q buf)" if "p + length bs \<le> q"
  proof -
    have "drop q buf' = drop q buf" using that b by (simp add: drop_append)
    then show ?thesis by simp
  qed
  ultimately show "take n (drop q buf') = take n (drop q buf) \<or> \<not> (q + n \<le> p \<or> p + length bs \<le> q)" by blast
qed

lemma wrn_Inr: "p + length bs \<le> length buf \<Longrightarrow> \<exists>buf'. wrn buf p bs = Inr buf'"
  by (simp add: wrn_def)

text \<open>\<open>Align(x)\<close> with the default of 16.\<close>

lemma Align_0: "Align 0 16 = 0"
  by (simp add: Align_def)

lemma Align_ge: "x < 2 ^ 63 \<Longrightarrow> x \<le> Align x 16"
  using Align_least(1) [of x 16] by (cases "x = 0") (simp_all add: Align_0)

lemma Align_dvd: "x < 2 ^ 63 \<Longrightarrow> 16 dvd Align x 16"
  using Align_least(2) [of x 16] by (cases "x = 0") (simp_all add: Align_0)

end
