(* ===== verification/Piece.thy ===== *)
theory Piece
  imports Bytes
begin

text \<open>
  \<^verbatim>\<open>src/piece.cc\<close>: pieces and their encoding for the network. A piece is a header of 64
  bytes (\<open>PieceRoutine\<close> is copied as it lies in memory), the captured bytes and the
  children. The pointers of the header mean nothing on another node; the receiver replaces
  them, here by 0.
\<close>

section \<open>The header\<close>

record piece_hdr =
  capture_data :: u64
  capture_len :: u32
  level :: u8
  node_id :: u8
  hole :: u16
  hdr_sched_key :: u64
  affinity :: u64
  callback :: u64
  next_coll :: u64
  fv_signals :: u8
  future_source_node_id :: u8
  pad :: "byte list"

definition hdr_ok :: "piece_hdr \<Rightarrow> bool" where
  "hdr_ok h \<longleftrightarrow> length (pad h) = 14"

definition hdr_bytes :: "piece_hdr \<Rightarrow> byte list" where
  "hdr_bytes h = le_bytes 8 (unat (capture_data h)) @ le_bytes 4 (unat (capture_len h)) @ [level h, node_id h] @ le_bytes 2 (unat (hole h))
     @ le_bytes 8 (unat (hdr_sched_key h)) @ le_bytes 8 (unat (affinity h)) @ le_bytes 8 (unat (callback h)) @ le_bytes 8 (unat (next_coll h))
     @ [fv_signals h, future_source_node_id h] @ pad h"

definition field :: "nat \<Rightarrow> nat \<Rightarrow> byte list \<Rightarrow> nat" where
  "field off n bs = le_val (take n (drop off bs))"

definition hdr_of :: "byte list \<Rightarrow> piece_hdr" where
  "hdr_of bs = \<lparr>capture_data = of_nat (field 0 8 bs), capture_len = of_nat (field 8 4 bs), level = bs ! 12, node_id = bs ! 13, hole = of_nat (field 14 2 bs),
     hdr_sched_key = of_nat (field 16 8 bs), affinity = of_nat (field 24 8 bs), callback = of_nat (field 32 8 bs), next_coll = of_nat (field 40 8 bs),
     fv_signals = bs ! 48, future_source_node_id = bs ! 49, pad = drop 50 bs\<rparr>"

lemma length_hdr_bytes: "hdr_ok h \<Longrightarrow> length (hdr_bytes h) = 64"
  by (simp add: hdr_bytes_def hdr_ok_def)

lemma hdr_round_trip: "hdr_ok h \<Longrightarrow> hdr_of (hdr_bytes h) = h"
  by (cases h) (simp add: hdr_of_def hdr_bytes_def hdr_ok_def field_def le_val_word nth_append)

section \<open>Collections\<close>

text \<open>
  A \<open>BasePieceCollection\<close>: the first six children lie in the object, the others in an array
  allocated for the limit given to the constructor. The limit is an \<open>int\<close>; a negative one
  turns into an allocation of almost the whole address space.
\<close>

record 'a piece_coll =
  coll_limit :: nat
  nr_handlers :: nat
  inline_handlers :: "'a option list"
  extra_handlers :: "'a option list"

definition kInlineLimit :: nat where "kInlineLimit = 6"
definition kMaxHandlersLimit :: nat where "kMaxHandlersLimit = 32 + kInlineLimit"

definition BasePieceCollection :: "nat \<Rightarrow> 'a piece_coll res" where
  "BasePieceCollection n =
     (let lim = n mod 2 ^ 32 in
      if 2 ^ 31 \<le> lim then Inl (Abort ''Alloc'')
      else Inr \<lparr>coll_limit = lim, nr_handlers = 0, inline_handlers = replicate kInlineLimit None,
                extra_handlers = (if kInlineLimit < lim then replicate (Align (8 * (lim - kInlineLimit)) 64 div 8) None else [])\<rparr>)"

definition routine :: "'a piece_coll \<Rightarrow> nat \<Rightarrow> 'a option res" where
  "routine c idx = (if idx < kInlineLimit then rd (inline_handlers c) idx else rd (extra_handlers c) (idx - kInlineLimit))"

definition set_routine :: "'a piece_coll \<Rightarrow> nat \<Rightarrow> 'a \<Rightarrow> 'a piece_coll res" where
  "set_routine c idx x =
     (if idx < kInlineLimit then res_bind (wr (inline_handlers c) idx (Some x)) (\<lambda>l. Inr (c\<lparr>inline_handlers := l\<rparr>))
      else res_bind (wr (extra_handlers c) (idx - kInlineLimit) (Some x)) (\<lambda>l. Inr (c\<lparr>extra_handlers := l\<rparr>)))"

definition coll_Add :: "'a piece_coll \<Rightarrow> 'a \<Rightarrow> 'a piece_coll res" where
  "coll_Add c child =
     (if coll_limit c \<le> nr_handlers c then Inl (Abort ''nr_handlers exceeding limits!'')
      else set_routine (c\<lparr>nr_handlers := nr_handlers c + 1\<rparr>) (nr_handlers c) child)"

text \<open>The children in order, and the shape every collection keeps.\<close>

definition handlers :: "'a piece_coll \<Rightarrow> 'a list" where
  "handlers c = map the (take (nr_handlers c) (inline_handlers c @ extra_handlers c))"

definition coll_inv :: "'a piece_coll \<Rightarrow> bool" where
  "coll_inv c \<longleftrightarrow> length (inline_handlers c) = kInlineLimit \<and> coll_limit c \<le> kInlineLimit + length (extra_handlers c)
     \<and> nr_handlers c \<le> coll_limit c \<and> None \<notin> set (take (nr_handlers c) (inline_handlers c @ extra_handlers c))"

lemma Align_64_ge: "x < 2 ^ 63 \<Longrightarrow> x \<le> Align x 64"
  using Align_least [of x 64] by (cases "x = 0") auto

lemma BasePieceCollection_inv:
  "BasePieceCollection n = Inr c \<Longrightarrow> coll_inv c \<and> handlers c = [] \<and> coll_limit c = n mod 2 ^ 32"
proof -
  assume c: "BasePieceCollection n = Inr c"
  let ?x = "n mod 2 ^ 32 - kInlineLimit"
  have "?x < 2 ^ 32" by (rule le_less_trans [OF diff_le_self]) simp
  then have "8 * ?x \<le> Align (8 * ?x) 64" by (intro Align_64_ge) simp
  then have "?x \<le> Align (8 * ?x) 64 div 8" by (simp add: less_eq_div_iff_mult_less_eq mult.commute)
  then have "n mod 2 ^ 32 \<le> kInlineLimit + Align (8 * ?x) 64 div 8" by (simp only: le_diff_conv add.commute)
  then show ?thesis using c by (auto simp: BasePieceCollection_def coll_inv_def handlers_def Let_def split: if_splits)
qed

lemma coll_Add_ok:
  assumes "coll_inv c" "nr_handlers c < coll_limit c"
  obtains c' where "coll_Add c x = Inr c'" "coll_inv c'" "handlers c' = handlers c @ [x]"
    "coll_limit c' = coll_limit c" "nr_handlers c' = nr_handlers c + 1"
proof -
  let ?i = "nr_handlers c"
  let ?l = "inline_handlers c @ extra_handlers c"
  have i: "?i < length ?l" "length (inline_handlers c) = kInlineLimit" using assms by (auto simp: coll_inv_def)
  obtain c' where c': "coll_Add c x = Inr c'" "inline_handlers c' @ extra_handlers c' = ?l[?i := Some x]"
    "nr_handlers c' = ?i + 1" "coll_limit c' = coll_limit c" "length (inline_handlers c') = kInlineLimit"
    "length (extra_handlers c') = length (extra_handlers c)"
  proof (cases "?i < kInlineLimit")
    case True
    with assms i show ?thesis
      by (intro that [of "c\<lparr>nr_handlers := ?i + 1, inline_handlers := (inline_handlers c)[?i := Some x]\<rparr>"])
         (simp_all add: coll_Add_def set_routine_def list_update_append wr_def)
  next
    case False
    with assms i show ?thesis
      by (intro that [of "c\<lparr>nr_handlers := ?i + 1, extra_handlers := (extra_handlers c)[?i - kInlineLimit := Some x]\<rparr>"])
         (simp_all add: coll_Add_def set_routine_def list_update_append wr_def)
  qed
  have t: "take (?i + 1) (?l[?i := Some x]) = take ?i ?l @ [Some x]"
    using i(1) by (simp add: take_Suc_conv_app_nth)
  have "handlers c' = handlers c @ [x]" unfolding handlers_def c' t by simp
  moreover have "coll_inv c'"
    using assms c'(3-6) unfolding coll_inv_def c'(2,3) t by auto
  ultimately show thesis using that c' by blast
qed

lemma routine_handlers:
  "coll_inv c \<Longrightarrow> i < nr_handlers c \<Longrightarrow> routine c i = Inr (Some (handlers c ! i))"
proof -
  assume a: "coll_inv c" "i < nr_handlers c"
  then have l: "i < length (inline_handlers c @ extra_handlers c)" by (auto simp: coll_inv_def)
  have "(inline_handlers c @ extra_handlers c) ! i \<in> set (take (nr_handlers c) (inline_handlers c @ extra_handlers c))"
    using a l by (metis in_set_conv_nth length_take min_less_iff_conj nth_take)
  then have "(inline_handlers c @ extra_handlers c) ! i \<noteq> None" using a unfolding coll_inv_def by metis
  then show ?thesis using a l by (auto simp: routine_def handlers_def coll_inv_def rd_def nth_append split: if_splits)
qed

section \<open>Pieces\<close>

datatype pnode = PNode (phdr: piece_hdr) (pcap: "byte list") (kids: "pnode list")

definition sizeof_PieceRoutine :: nat where "sizeof_PieceRoutine = 64"

fun NodeSize :: "pnode \<Rightarrow> nat" where
  "NodeSize (PNode h cap ks) =
     Align sizeof_PieceRoutine 16 + Align (unat (capture_len h)) 16 + 8 + sum_list (map NodeSize ks)"

fun EncodeNode :: "pnode \<Rightarrow> nat \<Rightarrow> byte list \<Rightarrow> (byte list \<times> nat) res"
  and EncodeNodes :: "pnode list \<Rightarrow> nat \<Rightarrow> byte list \<Rightarrow> (byte list \<times> nat) res" where
  "EncodeNode (PNode h cap ks) p buf =
     res_bind (wrn buf p (hdr_bytes h)) (\<lambda>b1.
     let p1 = p + Align sizeof_PieceRoutine 16 in
     res_bind (rdn cap 0 (unat (capture_len h))) (\<lambda>cd.
     res_bind (wrn b1 p1 cd) (\<lambda>b2.
     let p2 = p1 + Align (unat (capture_len h)) 16 in
     res_bind (wrn b2 p2 (le_bytes 8 (length ks))) (\<lambda>b3. EncodeNodes ks (p2 + 8) b3))))"
| "EncodeNodes [] p buf = Inr (buf, p)"
| "EncodeNodes (k # ks) p buf = res_bind (EncodeNode k p buf) (\<lambda>(b, p'). EncodeNodes ks p' b)"

text \<open>
  The decoder, with a bound on its recursion; a read outside the packet is a fault. The
  children go to a collection of exactly their number.
\<close>

fun DecodeNode :: "nat \<Rightarrow> nat \<Rightarrow> byte list \<Rightarrow> (pnode \<times> nat) res"
  and DecodeNodes :: "nat \<Rightarrow> nat \<Rightarrow> nat \<Rightarrow> byte list \<Rightarrow> pnode piece_coll \<Rightarrow> (pnode piece_coll \<times> nat) res" where
  "DecodeNode 0 p buf = Inl OutOfBounds"
| "DecodeNode (Suc fuel) p buf =
     res_bind (rdn buf p (Align sizeof_PieceRoutine 16)) (\<lambda>hb.
     let h = hdr_of hb; p1 = p + Align sizeof_PieceRoutine 16; off = Align (unat (capture_len h)) 16 in
     res_bind (rdn buf p1 off) (\<lambda>cap.
     let p2 = p1 + off; h' = h\<lparr>capture_data := 0, next_coll := 0\<rparr> in
     res_bind (rdn buf p2 8) (\<lambda>nb.
     if 0 < le_val nb
     then res_bind (BasePieceCollection (le_val nb)) (\<lambda>c.
          res_bind (DecodeNodes fuel (le_val nb) (p2 + 8) buf c) (\<lambda>(c', p3). Inr (PNode h' cap (handlers c'), p3)))
     else Inr (PNode h' cap [], p2 + 8))))"
| "DecodeNodes 0 n p buf c = (if n = 0 then Inr (c, p) else Inl OutOfBounds)"
| "DecodeNodes (Suc fuel) n p buf c =
     (if n = 0 then Inr (c, p)
      else res_bind (DecodeNode fuel p buf) (\<lambda>(k, p'). res_bind (coll_Add c k) (\<lambda>c'. DecodeNodes fuel (n - 1) p' buf c')))"

definition CreateFromPacket :: "byte list \<Rightarrow> pnode res" where
  "CreateFromPacket packet =
     res_bind (DecodeNode (length packet) 0 packet) (\<lambda>(n, p).
     if p \<noteq> length packet then Inl (Abort ''DecodeNode() consumes another length'') else Inr n)"

section \<open>Round trip\<close>

text \<open>A piece that fits its header, and a piece that is the same up to pointers and padding.\<close>

fun piece_ok :: "pnode \<Rightarrow> bool" where
  "piece_ok (PNode h cap ks) \<longleftrightarrow> hdr_ok h \<and> length cap = unat (capture_len h) \<and> length ks < 2 ^ 31 \<and> (\<forall>k\<in>set ks. piece_ok k)"

fun same_piece :: "pnode \<Rightarrow> pnode \<Rightarrow> bool" where
  "same_piece (PNode h cap ks) (PNode h' cap' ks') \<longleftrightarrow>
     h' = h\<lparr>capture_data := 0, next_coll := 0\<rparr> \<and> take (unat (capture_len h)) cap' = cap \<and> list_all2 same_piece ks ks'"

lemma Align_hdr [simp]: "Align sizeof_PieceRoutine 16 = 64"
  by (simp add: Align_def sizeof_PieceRoutine_def)

lemma capture_less: "unat (capture_len h) < 2 ^ 63"
  using unat_bounds(2) [of "capture_len h"] by simp

lemma NodeSize_ge: "72 \<le> NodeSize n"
  by (cases n) simp

text \<open>The bytes from \<open>p\<close> on represent a piece.\<close>

fun represents :: "byte list \<Rightarrow> nat \<Rightarrow> pnode \<Rightarrow> bool"
  and represents_list :: "byte list \<Rightarrow> nat \<Rightarrow> pnode list \<Rightarrow> bool" where
  "represents buf p (PNode h cap ks) \<longleftrightarrow> p + NodeSize (PNode h cap ks) \<le> length buf
     \<and> take 64 (drop p buf) = hdr_bytes h
     \<and> take (unat (capture_len h)) (drop (p + 64) buf) = cap
     \<and> take 8 (drop (p + 64 + Align (unat (capture_len h)) 16) buf) = le_bytes 8 (length ks)
     \<and> represents_list buf (p + 64 + Align (unat (capture_len h)) 16 + 8) ks"
| "represents_list buf p [] \<longleftrightarrow> True"
| "represents_list buf p (k # ks) \<longleftrightarrow> represents buf p k \<and> represents_list buf (p + NodeSize k) ks"

text \<open>Writes behind a piece keep it.\<close>

definition same_range :: "nat \<Rightarrow> nat \<Rightarrow> byte list \<Rightarrow> byte list \<Rightarrow> bool" where
  "same_range p q b b' \<longleftrightarrow> length b' = length b \<and> (\<forall>i n. p \<le> i \<longrightarrow> i + n \<le> q \<longrightarrow> take n (drop i b') = take n (drop i b))"

lemma same_range_mono: "same_range p q b b' \<Longrightarrow> p \<le> p' \<Longrightarrow> q' \<le> q \<Longrightarrow> same_range p' q' b b'"
  by (auto simp: same_range_def)

lemma same_range_trans: "same_range p q b b' \<Longrightarrow> same_range p q b' b'' \<Longrightarrow> same_range p q b b''"
  by (auto simp: same_range_def)

lemma wrn_same: "wrn b p bs = Inr b' \<Longrightarrow> q \<le> p \<Longrightarrow> same_range 0 q b b'"
  using wrn_facts [of b p bs b'] unfolding same_range_def by (meson order_trans)

lemma represents_same:
  "represents buf p n \<Longrightarrow> same_range p (p + NodeSize n) buf buf' \<Longrightarrow> represents buf' p n"
  "represents_list buf p ns \<Longrightarrow> same_range p (p + sum_list (map NodeSize ns)) buf buf' \<Longrightarrow> represents_list buf' p ns"
proof (induction buf p n and buf p ns rule: represents_represents_list.induct)
  case (1 buf p h cap ks)
  let ?a = "Align (unat (capture_len h)) 16"
  have a: "unat (capture_len h) \<le> ?a" by (rule Align_ge [OF capture_less])
  have r: "take m (drop i buf') = take m (drop i buf)" if "p \<le> i" "i + m \<le> p + NodeSize (PNode h cap ks)" for i m
    using 1(3) that by (simp add: same_range_def)
  have "represents_list buf' (p + 64 + ?a + 8) ks"
    using 1(2) by (intro 1(1) same_range_mono [OF 1(3)]) simp_all
  moreover have "length buf' = length buf" using 1(3) by (simp add: same_range_def)
  ultimately show ?case using 1(2) r [of p 64] r [of "p + 64" "unat (capture_len h)"] r [of "p + 64 + ?a" 8] a by simp
next
  case (3 buf p k ks)
  then show ?case using same_range_mono [OF 3(4), of p "p + NodeSize k"] same_range_mono [OF 3(4), of "p + NodeSize k" "p + NodeSize k + sum_list (map NodeSize ks)"]
    by (simp add: add.assoc)
qed simp

lemma wrn_behind: "wrn b p bs = Inr b' \<Longrightarrow> q + n \<le> p \<Longrightarrow> take n (drop q b') = take n (drop q b)"
  using wrn_facts(2) [of b p bs b' n q] by blast

text \<open>\<open>EncodeNode\<close> writes exactly \<open>NodeSize\<close> bytes, nothing before them, and they represent the piece.\<close>

lemma Encode_represents:
  "piece_ok n \<Longrightarrow> p + NodeSize n \<le> length buf \<Longrightarrow>
     \<exists>buf'. EncodeNode n p buf = Inr (buf', p + NodeSize n) \<and> represents buf' p n \<and> same_range 0 p buf buf'"
  "\<forall>k\<in>set ns. piece_ok k \<Longrightarrow> p + sum_list (map NodeSize ns) \<le> length buf \<Longrightarrow>
     \<exists>buf'. EncodeNodes ns p buf = Inr (buf', p + sum_list (map NodeSize ns)) \<and> represents_list buf' p ns \<and> same_range 0 p buf buf'"
proof (induction n p buf and ns p buf rule: EncodeNode_EncodeNodes.induct)
  case (1 h cap ks p buf)
  let ?n = "PNode h cap ks" and ?a = "Align (unat (capture_len h)) 16"
  have a: "unat (capture_len h) \<le> ?a" by (rule Align_ge [OF capture_less])
  have ok: "hdr_ok h" "length cap = unat (capture_len h)" "length ks < 2 ^ 31" "\<forall>k\<in>set ks. piece_ok k" using 1(2) by auto
  have sz: "p + 72 + ?a + sum_list (map NodeSize ks) \<le> length buf" using 1(3) by simp
  obtain b1 where b1: "wrn buf p (hdr_bytes h) = Inr b1" using wrn_Inr [of p "hdr_bytes h" buf] sz length_hdr_bytes [OF ok(1)] by auto
  note f1 = wrn_facts [OF b1]
  have rc: "rdn cap 0 (unat (capture_len h)) = Inr cap" using ok by (simp add: rdn_def)
  obtain b2 where b2: "wrn b1 (p + 64) cap = Inr b2" using wrn_Inr [of "p + 64" cap b1] sz f1(1) ok(2) a by auto
  note f2 = wrn_facts [OF b2]
  obtain b3 where b3: "wrn b2 (p + 64 + ?a) (le_bytes 8 (length ks)) = Inr b3" using wrn_Inr [of "p + 64 + ?a" "le_bytes 8 (length ks)" b2] sz f1(1) f2(1) by auto
  note f3 = wrn_facts [OF b3]
  obtain b4 where b4: "EncodeNodes ks (p + 64 + ?a + 8) b3 = Inr (b4, p + 64 + ?a + 8 + sum_list (map NodeSize ks))"
    "represents_list b4 (p + 64 + ?a + 8) ks" "same_range 0 (p + 64 + ?a + 8) b3 b4"
    using 1(1) [OF refl refl ok(4), of b3] sz f1(1) f2(1) f3(1) by (auto simp: algebra_simps)
  have k: "take m (drop i b4) = take m (drop i b3)" if "i + m \<le> p + 64 + ?a + 8" for i m using b4(3) that by (simp add: same_range_def)
  have "take 64 (drop p b4) = hdr_bytes h"
    using k [of p 64] wrn_behind [OF b3, of p 64] wrn_behind [OF b2, of p 64] f1(3) length_hdr_bytes [OF ok(1)] by simp
  moreover have "take (unat (capture_len h)) (drop (p + 64) b4) = cap"
    using k [of "p + 64" "unat (capture_len h)"] wrn_behind [OF b3, of "p + 64" "unat (capture_len h)"] f2(3) a ok(2) by simp
  moreover have "take 8 (drop (p + 64 + ?a) b4) = le_bytes 8 (length ks)" using k [of "p + 64 + ?a" 8] f3(3) by simp
  moreover have "same_range 0 p buf b4"
    using wrn_same [OF b1 order.refl] wrn_same [OF b2, of p] wrn_same [OF b3, of p] same_range_mono [OF b4(3), of 0 p]
    by (meson le_add1 le_trans same_range_trans order.refl)
  moreover have "length b4 = length buf" using calculation(4) by (simp add: same_range_def)
  moreover have "EncodeNode ?n p buf = Inr (b4, p + NodeSize ?n)" using b1 rc b2 b3 b4(1) by (simp add: Let_def add.assoc)
  ultimately show ?case using b4(2) sz by (intro exI [of _ b4]) simp
next
  case (2 p buf)
  then show ?case by (simp add: same_range_def)
next
  case (3 k ks p buf)
  then obtain b1 where b1: "EncodeNode k p buf = Inr (b1, p + NodeSize k)" "represents b1 p k" "same_range 0 p buf b1" by force
  have "length b1 = length buf" using b1(3) by (simp add: same_range_def)
  then obtain b2 where b2: "EncodeNodes ks (p + NodeSize k) b1 = Inr (b2, p + NodeSize k + sum_list (map NodeSize ks))"
    "represents_list b2 (p + NodeSize k) ks" "same_range 0 (p + NodeSize k) b1 b2"
    using 3(2) [of "p + NodeSize k" b1] 3(3,4) by force
  have "represents b2 p k" by (rule represents_same(1) [OF b1(2) same_range_mono [OF b2(3)]]) simp_all
  moreover have "same_range 0 p buf b2" by (rule same_range_trans [OF b1(3) same_range_mono [OF b2(3)]]) simp_all
  ultimately show ?case using b1(1) b2(1,2) by (simp add: add.assoc)
qed

text \<open>What represents a piece decodes to it.\<close>

lemma represents_decodes:
  "piece_ok n \<Longrightarrow> represents buf p n \<Longrightarrow> NodeSize n \<le> fuel \<Longrightarrow>
     \<exists>n'. DecodeNode fuel p buf = Inr (n', p + NodeSize n) \<and> same_piece n n'"
  "\<forall>k\<in>set ns. piece_ok k \<Longrightarrow> represents_list buf p ns \<Longrightarrow> sum_list (map NodeSize ns) < fuel \<Longrightarrow>
     coll_inv c \<Longrightarrow> nr_handlers c + length ns \<le> coll_limit c \<Longrightarrow>
     \<exists>c' ns'. DecodeNodes fuel (length ns) p buf c = Inr (c', p + sum_list (map NodeSize ns)) \<and>
       handlers c' = handlers c @ ns' \<and> list_all2 same_piece ns ns'"
proof (induction buf p n and buf p ns arbitrary: fuel and fuel c rule: represents_represents_list.induct)
  case (1 buf p h cap ks)
  let ?a = "Align (unat (capture_len h)) 16" and ?h = "h\<lparr>capture_data := 0, next_coll := 0\<rparr>"
  have a: "unat (capture_len h) \<le> ?a" by (rule Align_ge [OF capture_less])
  have ok: "hdr_ok h" "length cap = unat (capture_len h)" "length ks < 2 ^ 31" "\<forall>k\<in>set ks. piece_ok k" using 1(2) by auto
  obtain f where f: "fuel = Suc f" "sum_list (map NodeSize ks) < f" using 1(4) by (cases fuel) auto
  have len: "p + 72 + ?a + sum_list (map NodeSize ks) \<le> length buf" using 1(3) by simp
  let ?cap = "take ?a (drop (p + 64) buf)"
  have r: "rdn buf p 64 = Inr (hdr_bytes h)" "rdn buf (p + 64) ?a = Inr ?cap"
    "rdn buf (p + 64 + ?a) 8 = Inr (le_bytes 8 (length ks))" using 1(3) len by (simp_all add: rdn_def)
  have v: "le_val (le_bytes 8 (length ks)) = length ks" using ok(3) by (simp add: le_val_bytes)
  have cap: "take (unat (capture_len h)) ?cap = cap" using 1(3) a by (simp add: min_def)
  show ?case
  proof (cases "ks = []")
    case True
    then have "DecodeNode fuel p buf = Inr (PNode ?h ?cap [], p + NodeSize (PNode h cap ks))"
      using r v by (simp add: f Let_def hdr_round_trip [OF ok(1)])
    then show ?thesis using cap True by auto
  next
    case False
    obtain c :: "pnode piece_coll" where c: "BasePieceCollection (length ks) = Inr c" using ok(3) by (simp add: BasePieceCollection_def Let_def)
    note ci = BasePieceCollection_inv [OF c]
    have "nr_handlers c = 0" using c by (auto simp: BasePieceCollection_def Let_def split: if_splits)
    then obtain c' ns' where d: "DecodeNodes f (length ks) (p + 64 + ?a + 8) buf c = Inr (c', p + 64 + ?a + 8 + sum_list (map NodeSize ks))"
      "handlers c' = ns'" "list_all2 same_piece ks ns'"
      using 1(1) [OF ok(4) _ f(2), of c] 1(3) ci ok(3) by auto
    then have "DecodeNode fuel p buf = Inr (PNode ?h ?cap ns', p + NodeSize (PNode h cap ks))"
      using r v c False by (simp add: f Let_def hdr_round_trip [OF ok(1)] add.assoc)
    then show ?thesis using cap d(3) by auto
  qed
next
  case (2 buf p)
  then show ?case by (cases fuel) auto
next
  case (3 buf p k ks)
  have "72 \<le> NodeSize k" by (rule NodeSize_ge)
  then obtain f where f: "fuel = Suc f" "NodeSize k \<le> f" "sum_list (map NodeSize ks) < f" using 3(5) by (cases fuel) auto
  obtain k' where k: "DecodeNode f p buf = Inr (k', p + NodeSize k)" "same_piece k k'" using 3(1) [OF _ _ f(2)] 3(3,4) by auto
  obtain c1 where c1: "coll_Add c k' = Inr c1" "coll_inv c1" "handlers c1 = handlers c @ [k']" "coll_limit c1 = coll_limit c"
    "nr_handlers c1 = nr_handlers c + 1" using coll_Add_ok [of c k'] 3(6,7) by auto
  obtain c' ns' where d: "DecodeNodes f (length ks) (p + NodeSize k) buf c1 = Inr (c', p + NodeSize k + sum_list (map NodeSize ks))"
    "handlers c' = handlers c1 @ ns'" "list_all2 same_piece ks ns'" using 3(2) [OF _ _ f(3) c1(2)] 3(3,4,7) c1(4,5) by auto
  then show ?case using k c1 by (intro exI [of _ c'] exI [of _ "k' # ns'"]) (simp add: f add.assoc)
qed

theorem packet_round_trip:
  assumes "piece_ok n" "length buf = NodeSize n"
  shows "\<exists>packet n'. EncodeNode n 0 buf = Inr (packet, NodeSize n) \<and> CreateFromPacket packet = Inr n' \<and> same_piece n n'"
proof -
  obtain b where b: "EncodeNode n 0 buf = Inr (b, NodeSize n)" "represents b 0 n" "length b = NodeSize n"
    using Encode_represents(1) [OF assms(1), of 0 buf] assms(2) by (auto simp: same_range_def)
  then show ?thesis using represents_decodes(1) [OF assms(1) b(2), of "length b"] by (auto simp: CreateFromPacket_def)
qed

text \<open>Decoding what was received never reads past the packet, whatever the packet holds.\<close>

lemma Decode_in_packet:
  "DecodeNode fuel p buf = Inr (n, q) \<Longrightarrow> p \<le> q \<and> q \<le> length buf"
  "DecodeNodes fuel m p buf c = Inr (c', q) \<Longrightarrow> p \<le> length buf \<Longrightarrow> p \<le> q \<and> q \<le> length buf"
proof (induction fuel p buf and fuel m p buf c arbitrary: n q and c' q rule: DecodeNode_DecodeNodes.induct)
  case (2 fuel p buf)
  note IH = 2(1)
  let ?h = "hdr_of (take 64 (drop p buf))"
  let ?q = "p + Align sizeof_PieceRoutine 16 + Align (unat (capture_len ?h)) 16"
  have q: "?q + 8 \<le> length buf" using 2(2) by (auto simp: res_bind_Inr_iff rdn_def Let_def split: if_splits)
  from 2(2) consider "q = ?q + 8" | c c' where "0 < le_val (take 8 (drop ?q buf))" "DecodeNodes fuel (le_val (take 8 (drop ?q buf))) (?q + 8) buf c = Inr (c', q)"
    by (fastforce simp: res_bind_Inr_iff rdn_def Let_def add.commute add.left_commute split: if_splits)
  then show ?case
  proof cases
    case 2
    then show ?thesis using IH [OF refl refl refl refl refl 2 q] by simp
  qed (use q in simp)
next
  case (4 fuel m p buf c)
  show ?case
  proof (cases "m = 0")
    case False
    then obtain k p' c1 where k: "DecodeNode fuel p buf = Inr (k, p')" "DecodeNodes fuel (m - 1) p' buf c1 = Inr (c', q)"
      using 4(3) by (auto simp: res_bind_Inr_iff)
    show ?thesis using 4(1) [OF False k(1)] 4(2) [OF False k(2)] by simp
  qed (use 4(3,4) in auto)
qed (auto split: if_splits)

section \<open>Keys and cores of a tree of pieces\<close>

fun AssignSchedulingKey :: "u64 \<Rightarrow> pnode \<Rightarrow> pnode" where
  "AssignSchedulingKey key (PNode h cap ks) =
     PNode (if hdr_sched_key h = 0 then h\<lparr>hdr_sched_key := key\<rparr> else h) cap (map (AssignSchedulingKey key) ks)"

fun AssignAffinity :: "u64 \<Rightarrow> pnode \<Rightarrow> pnode" where
  "AssignAffinity aff (PNode h cap ks) =
     PNode (if affinity h = - 1 then h\<lparr>affinity := aff\<rparr> else h) cap (map (AssignAffinity aff) ks)"

definition CreateFromCapture :: "piece_hdr \<Rightarrow> nat \<Rightarrow> u64 \<Rightarrow> piece_hdr" where
  "CreateFromCapture r len ptr =
     r\<lparr>capture_len := of_nat len, capture_data := ptr, hdr_sched_key := 0, level := 0, affinity := - 1, callback := 0,
       next_coll := 0, fv_signals := 0, future_source_node_id := 0, pad := replicate 8 0 @ drop 8 (pad r)\<rparr>"

fun pieces_of :: "pnode \<Rightarrow> piece_hdr list" where
  "pieces_of (PNode h cap ks) = h # concat (map pieces_of ks)"

lemma AssignSchedulingKey_all:
  "pieces_of (AssignSchedulingKey key n) = map (\<lambda>h. if hdr_sched_key h = 0 then h\<lparr>hdr_sched_key := key\<rparr> else h) (pieces_of n)"
  by (induction n) (simp add: map_concat comp_def cong: map_cong)

lemma AssignAffinity_all:
  "pieces_of (AssignAffinity aff n) = map (\<lambda>h. if affinity h = - 1 then h\<lparr>affinity := aff\<rparr> else h) (pieces_of n)"
  by (induction n) (simp add: map_concat comp_def cong: map_cong)

lemma AssignSchedulingKey_first_wins:
  "key \<noteq> 0 \<Longrightarrow> AssignSchedulingKey key' (AssignSchedulingKey key n) = AssignSchedulingKey key n"
  by (induction n) (auto simp: comp_def)

lemma AssignSchedulingKey_size: "NodeSize (AssignSchedulingKey key n) = NodeSize n"
  by (induction n) (simp add: comp_def cong: map_cong)

end
