(* ===== verification/Epoch_Client.thy ===== *)
theory Epoch_Client
  imports Epoch_Mem
begin

text \<open>
  \<open>EpochClient\<close> (\<^verbatim>\<open>src/epoch.cc\<close>, \<^verbatim>\<open>src/epoch.h\<close>, \<^verbatim>\<open>src/completion.h\<close>): serial ids, the
  distribution of transactions over cores, the completion counter, the phases of an epoch,
  the barrier between allocating states and issuing transactions, and core scaling.
\<close>

unbundle bit_operations_syntax

section \<open>Serial ids\<close>

definition GenerateSerialId :: "nat \<Rightarrow> u64 \<Rightarrow> u64 \<Rightarrow> u64" where
  "GenerateSerialId node_id epoch_nr sequence =
     push_bit 32 epoch_nr OR push_bit 8 sequence OR (of_nat node_id AND 0x00FF)"

lemma bit_less:
  fixes w :: u64
  assumes "unat w < 2 ^ k" "bit w n"
  shows "n < k"
proof -
  have "bit (unat w) n" using assms(2) by (auto simp: bit_unsigned_iff)
  then have "bit (take_bit k (unat w)) n" using assms(1) by (simp only: take_bit_nat_eq_self)
  then show ?thesis by (simp add: bit_take_bit_iff)
qed

lemma push_bit_val:
  fixes w :: u64
  assumes "unat w < 2 ^ k" "k + n \<le> 64"
  shows "unat (push_bit n w) = unat w * 2 ^ n"
proof -
  have "unat w * 2 ^ n < 2 ^ k * 2 ^ n" using assms(1) by simp
  also have "\<dots> \<le> 2 ^ 64" unfolding power_add [symmetric] by (rule power_increasing [OF assms(2)]) simp
  finally have "unat w * 2 ^ n < 2 ^ 64" .
  then have "take_bit 64 (push_bit n (unat w)) = unat w * 2 ^ n" by (simp only: push_bit_eq_mult take_bit_nat_eq_self)
  then show ?thesis by (simp only: unsigned_push_bit_eq) simp
qed

lemma serial_id_value:
  assumes e: "unat e < 2 ^ 32" and s: "unat s < 2 ^ 24"
  shows "unat (GenerateSerialId node e s) = unat e * 2 ^ 32 + unat s * 2 ^ 8 + node mod 2 ^ 8"
proof -
  let ?n = "of_nat node AND 0x00FF :: u64"
  have n: "?n = take_bit 8 (of_nat node)" using take_bit_eq_mask [of 8 "of_nat node :: u64"] by (simp add: mask_eq_exp_minus_1)
  have nv: "unat ?n = node mod 2 ^ 8"
    unfolding n by (simp only: unsigned_take_bit_eq unsigned_of_nat take_bit_take_bit) (simp add: take_bit_eq_mod mod_mod_cancel)
  have bs: "bit s i \<Longrightarrow> i < 24" for i using bit_less [OF s] .
  have d1: "push_bit 8 s OR ?n = push_bit 8 s + ?n"
    unfolding n by (rule disjunctive_add [symmetric]) (auto simp: bit_push_bit_iff bit_take_bit_iff)
  have d2: "push_bit 32 e OR (push_bit 8 s OR ?n) = push_bit 32 e + (push_bit 8 s OR ?n)"
    unfolding n by (rule disjunctive_add [symmetric]) (auto simp: bit_push_bit_iff bit_take_bit_iff bit_or_iff dest: bs)
  have v: "unat (push_bit 32 e) = unat e * 2 ^ 32" "unat (push_bit 8 s) = unat s * 2 ^ 8"
    by (rule push_bit_val [OF e]; simp) (rule push_bit_val [OF s]; simp)
  have m: "node mod 2 ^ 8 < 2 ^ 8" by simp
  have a1: "unat (push_bit 8 s + ?n) = unat s * 2 ^ 8 + node mod 2 ^ 8"
    using s m nv v(2) by (subst unat_plus_simple [THEN iffD1]) (simp_all add: word_le_nat_alt unat_word_ariths)
  have a2: "unat (push_bit 32 e + (push_bit 8 s + ?n)) = unat e * 2 ^ 32 + (unat s * 2 ^ 8 + node mod 2 ^ 8)"
    using e s m a1 v(1) by (simp add: unat_word_ariths)
  show ?thesis by (simp only: GenerateSerialId_def d1 d2 [unfolded d1] a2 add.assoc)
qed

text \<open>Ids are unique in the cluster, and ordered by epoch, then by sequence, then by node.\<close>

lemma serial_id_less:
  assumes "unat e < 2 ^ 32" "unat s < 2 ^ 24" "n < 2 ^ 8" "unat e' < 2 ^ 32" "unat s' < 2 ^ 24" "n' < 2 ^ 8"
  shows "GenerateSerialId n e s < GenerateSerialId n' e' s' \<longleftrightarrow> e < e' \<or> e = e' \<and> (s < s' \<or> s = s' \<and> n < n')"
proof -
  have lex: "a * k + b < a' * k + b' \<longleftrightarrow> a < a' \<or> a = a' \<and> b < b'" if "b < k" "b' < k" for a b a' b' k :: nat
  proof -
    have "a * k + b < a' * k + b'" if "a < a'"
    proof -
      have "(a + 1) * k \<le> a' * k" using that by (intro mult_le_mono1) simp
      then show ?thesis using \<open>b < k\<close> by simp
    qed
    moreover have "a' * k + b' < a * k + b" if "a' < a"
    proof -
      have "(a' + 1) * k \<le> a * k" using that by (intro mult_le_mono1) simp
      then show ?thesis using \<open>b' < k\<close> by simp
    qed
    ultimately show ?thesis by (cases a a' rule: linorder_cases) auto
  qed
  have u: "unat x = unat y \<longleftrightarrow> x = y" for x y :: u64 by (auto intro: unsigned_word_eqI)
  have "unat s * 2 ^ 8 + n < 2 ^ 32" "unat s' * 2 ^ 8 + n' < 2 ^ 32" using assms by simp_all
  note L = lex [OF this, of "unat e" "unat e'"] lex [OF assms(3,6), of "unat s" "unat s'"]
  show ?thesis
    using L assms(3,6) serial_id_value [OF assms(1,2), of n] serial_id_value [OF assms(4,5), of n']
    by (simp only: word_less_nat_alt u mod_less add.assoc)
qed

section \<open>Transactions of an epoch\<close>

text \<open>The sizes of the per core sets, and where transaction \<open>j\<close> (from 1 on) is put.\<close>

definition txn_set_size :: "nat \<Rightarrow> nat \<Rightarrow> nat \<Rightarrow> nat" where
  "txn_set_size nr_txns nr_threads t = (if t < nr_txns mod nr_threads then nr_txns div nr_threads + 1 else nr_txns div nr_threads)"

definition txn_place :: "nat \<Rightarrow> nat \<Rightarrow> nat \<times> nat" where
  "txn_place nr_threads j = ((j - 1) mod nr_threads, (j - 1) div nr_threads)"

definition GenerateBenchmarks :: "nat \<Rightarrow> nat \<Rightarrow> nat \<Rightarrow> u64 \<Rightarrow> (nat \<times> nat) \<Rightarrow> u64 option" where
  "GenerateBenchmarks node_id nr_txns nr_threads i =
     fold (\<lambda>j m. m(txn_place nr_threads j \<mapsto> GenerateSerialId node_id i (of_nat j))) [1..<nr_txns + 1] Map.empty"

lemma place_lt_iff:
  fixes q r N T :: nat
  assumes "r < T"
  shows "q * T + r < N \<longleftrightarrow> q < (if r < N mod T then N div T + 1 else N div T)"
proof -
  have N: "N = N div T * T + N mod T" by simp
  have M: "N mod T < T" using assms by simp
  show ?thesis
  proof (cases q "N div T" rule: linorder_cases)
    case less
    then have "(q + 1) * T \<le> N div T * T" by (intro mult_le_mono1) simp
    then have "q * T + r < N" using assms N unfolding add_mult_distrib by linarith
    then show ?thesis using less by auto
  next
    case equal
    have "q * T + r < N \<longleftrightarrow> r < N mod T" unfolding equal using N by linarith
    then show ?thesis using equal by simp
  next
    case greater
    then have "(N div T + 1) * T \<le> q * T" by (intro mult_le_mono1) simp
    then have "\<not> q * T + r < N" using M N unfolding add_mult_distrib by linarith
    then show ?thesis using greater by auto
  qed
qed

lemma txn_place_inj: "0 < T \<Longrightarrow> 1 \<le> j \<Longrightarrow> 1 \<le> k \<Longrightarrow> txn_place T j = txn_place T k \<Longrightarrow> j = k"
  unfolding txn_place_def by (metis One_nat_def Suc_pred div_mult_mod_eq le_simps(3) less_eq_Suc_le prod.inject)

lemma txn_place_in_set:
  assumes "0 < T" "1 \<le> j" "j \<le> N"
  shows "fst (txn_place T j) < T \<and> snd (txn_place T j) < txn_set_size N T (fst (txn_place T j))"
  using assms place_lt_iff [of "(j - 1) mod T" T "(j - 1) div T" N] by (auto simp: txn_place_def txn_set_size_def)

text \<open>Every slot of every core is filled exactly once.\<close>

lemma txn_place_onto:
  assumes "t < T" "pos < txn_set_size N T t"
  shows "\<exists>!j. 1 \<le> j \<and> j \<le> N \<and> txn_place T j = (t, pos)"
proof -
  have "pos * T + t < N" using assms place_lt_iff [of t T pos N] by (simp add: txn_set_size_def)
  then have "1 \<le> pos * T + t + 1 \<and> pos * T + t + 1 \<le> N \<and> txn_place T (pos * T + t + 1) = (t, pos)"
    using assms(1) by (simp add: txn_place_def)
  then show ?thesis using txn_place_inj [of T] assms(1) by (metis gr_implies_not0 not_gr_zero)
qed

lemma fold_upd_other: "x \<notin> f ` set js \<Longrightarrow> fold (\<lambda>j m. m(f j \<mapsto> g j)) js m x = m x"
  by (induction js arbitrary: m) auto

lemma fold_upd: "distinct (map f js) \<Longrightarrow> j \<in> set js \<Longrightarrow> fold (\<lambda>j m. m(f j \<mapsto> g j)) js m (f j) = Some (g j)"
proof (induction js arbitrary: m)
  case (Cons k js)
  show ?case
  proof (cases "j \<in> set js")
    case False
    then have "f j \<notin> f ` set js" using Cons.prems by auto
    then show ?thesis using fold_upd_other [of "f j" f js g "m(f k \<mapsto> g k)"] False Cons.prems by (simp del: fun_upd_apply) simp
  qed (use Cons in simp)
qed simp

lemma GenerateBenchmarks_spec:
  assumes "t < T" "pos < txn_set_size N T t"
  shows "\<exists>j. 1 \<le> j \<and> j \<le> N \<and> txn_place T j = (t, pos) \<and> GenerateBenchmarks node N T i (t, pos) = Some (GenerateSerialId node i (of_nat j))"
proof -
  let ?js = "[1..<N + 1]"
  have d: "distinct (map (txn_place T) ?js)" using txn_place_inj [of T] assms(1) by (auto simp: distinct_map inj_on_def)
  obtain j where j: "1 \<le> j" "j \<le> N" "txn_place T j = (t, pos)" using txn_place_onto [OF assms] by blast
  have "GenerateBenchmarks node N T i (txn_place T j) = Some (GenerateSerialId node i (of_nat j))"
    unfolding GenerateBenchmarks_def by (rule fold_upd [OF d]) (use j in auto)
  then show ?thesis using j by auto
qed

section \<open>CompletionObject\<close>

text \<open>
  The counter; \<open>fetch_sub\<close> is atomic, so the calls of any interleaving are a sequence. The
  result is the value handed to the callback.
\<close>

definition completion_Complete :: "int \<Rightarrow> int \<Rightarrow> (int \<times> int) res" where
  "completion_Complete dec comp_count =
     (let cnt = comp_count - dec in
      if cnt < 0 then Inl (Abort ''Completion handler isnt enough!'') else Inr (cnt, cnt))"

definition completion_Increment :: "int \<Rightarrow> int \<Rightarrow> int" where
  "completion_Increment inc comp_count = comp_count + inc"

fun completes :: "int list \<Rightarrow> int \<Rightarrow> (int \<times> int list) res" where
  "completes [] c = Inr (c, [])"
| "completes (d # ds) c = res_bind (completion_Complete d c) (\<lambda>(c1, x). res_bind (completes ds c1) (\<lambda>(c2, xs). Inr (c2, x # xs)))"

text \<open>
  When the work counted is the work completed, no call aborts, and exactly the last one
  runs the callback with 0.
\<close>

lemma completes_last:
  "\<forall>d\<in>set ds. 0 < d \<Longrightarrow> sum_list ds = c \<Longrightarrow> ds \<noteq> [] \<Longrightarrow>
     \<exists>xs. completes ds c = Inr (0, xs @ [0]) \<and> length xs + 1 = length ds \<and> (\<forall>x\<in>set xs. 0 < x)"
proof (induction ds arbitrary: c)
  case (Cons d ds)
  show ?case
  proof (cases "ds = []")
    case False
    have p: "0 < sum_list ds" using Cons.prems(1) False by (cases ds) (auto intro!: add_pos_nonneg sum_list_nonneg intro: less_imp_le)
    obtain xs where "completes ds (sum_list ds) = Inr (0, xs @ [0])" "length xs + 1 = length ds" "\<forall>x\<in>set xs. 0 < x"
      using Cons.IH [OF _ refl False] Cons.prems(1) by auto
    then show ?thesis using Cons.prems(2) p
      by (intro exI [of _ "sum_list ds # xs"]) (auto simp: completion_Complete_def Let_def)
  qed (use Cons.prems in \<open>auto simp: completion_Complete_def\<close>)
qed simp

lemma completes_too_many:
  "\<forall>d\<in>set ds. 0 < d \<Longrightarrow> 0 \<le> c \<Longrightarrow> c < sum_list ds \<Longrightarrow> completes ds c = Inl (Abort ''Completion handler isnt enough!'')"
proof (induction ds arbitrary: c)
  case (Cons d ds)
  then show ?case by (cases "d \<le> c") (auto simp: completion_Complete_def Let_def)
qed simp

section \<open>Allocating the states\<close>

text \<open>
  \<open>AllocStateTxnWorker\<close> of every core prepares its transactions, then decrements \<open>comp\<close>; the
  one that sees 2 decrements once more. \<open>CallTxnsWorker\<close> waits until \<open>comp\<close> is 0.
\<close>

datatype alloc_pc = Preparing | Last_dec | Prepared

record alloc_state =
  acomp :: nat
  apcs :: "alloc_pc list"

definition alloc_start :: "nat \<Rightarrow> alloc_state" where
  "alloc_start nr_threads = \<lparr>acomp = nr_threads + 1, apcs = replicate nr_threads Preparing\<rparr>"

inductive alloc_step :: "alloc_state \<Rightarrow> alloc_state \<Rightarrow> bool" where
  dec: "t < length (apcs s) \<Longrightarrow> apcs s ! t = Preparing \<Longrightarrow>
     alloc_step s \<lparr>acomp = acomp s - 1, apcs = (apcs s)[t := if acomp s = 2 then Last_dec else Prepared]\<rparr>"
| dec_last: "t < length (apcs s) \<Longrightarrow> apcs s ! t = Last_dec \<Longrightarrow>
     alloc_step s \<lparr>acomp = acomp s - 1, apcs = (apcs s)[t := Prepared]\<rparr>"

inductive_cases alloc_stepE: "alloc_step s s'"

definition may_issue :: "alloc_state \<Rightarrow> bool" where
  "may_issue s \<longleftrightarrow> acomp s = 0"

definition alloc_inv :: "nat \<Rightarrow> alloc_state \<Rightarrow> bool" where
  "alloc_inv n s \<longleftrightarrow> length (apcs s) = n \<and>
     (if count_list (apcs s) Preparing = 0 then acomp s = count_list (apcs s) Last_dec \<and> count_list (apcs s) Last_dec \<le> 1
      else acomp s = count_list (apcs s) Preparing + 1 \<and> count_list (apcs s) Last_dec = 0)"

lemma count_list_update:
  "t < length xs \<Longrightarrow> xs ! t = y \<Longrightarrow> count_list (xs[t := z]) x + (if x = y then 1 else 0) = count_list xs x + (if x = z then 1 else 0)"
proof (induction xs arbitrary: t)
  case (Cons a xs)
  then show ?case by (cases t) (auto simp: algebra_simps)
qed simp

lemma count_list_nth: "t < length xs \<Longrightarrow> xs ! t = x \<Longrightarrow> 0 < count_list xs x"
  by (metis count_notin gr0I count_list_0_iff nth_mem)

lemma alloc_start_inv: "0 < n \<Longrightarrow> alloc_inv n (alloc_start n)"
proof -
  have "count_list (replicate k Preparing) Preparing = k" "count_list (replicate k Preparing) Last_dec = 0" for k by (induction k) auto
  then show "0 < n \<Longrightarrow> ?thesis" by (simp add: alloc_inv_def alloc_start_def)
qed

lemma alloc_step_inv:
  assumes "alloc_step s s'" "alloc_inv n s"
  shows "alloc_inv n s'"
  using assms(1)
proof (cases rule: alloc_step.cases)
  case (dec t)
  let ?z = "if acomp s = 2 then Last_dec else Prepared"
  show ?thesis
    using dec assms(2) count_list_nth [OF dec(2,3)] count_list_update [OF dec(2,3), of ?z Preparing] count_list_update [OF dec(2,3), of ?z Last_dec]
    by (auto simp: alloc_inv_def split: if_splits)
next
  case (dec_last t)
  then show ?thesis
    using assms(2) count_list_nth [OF dec_last(2,3)] count_list_update [OF dec_last(2,3), of Prepared Preparing] count_list_update [OF dec_last(2,3), of Prepared Last_dec]
    by (auto simp: alloc_inv_def split: if_splits)
qed

lemma alloc_reach_inv: "alloc_step\<^sup>*\<^sup>* (alloc_start n) s \<Longrightarrow> 0 < n \<Longrightarrow> alloc_inv n s"
  by (induction rule: rtranclp_induct) (auto intro: alloc_start_inv alloc_step_inv)

text \<open>Transactions are issued only after every core has prepared its states, and then they can be.\<close>

lemma may_issue_prepared:
  "alloc_inv n s \<Longrightarrow> may_issue s \<Longrightarrow> t < n \<Longrightarrow> apcs s ! t = Prepared"
proof -
  assume a: "alloc_inv n s" "may_issue s" "t < n"
  then have "count_list (apcs s) Preparing = 0" "count_list (apcs s) Last_dec = 0" by (auto simp: alloc_inv_def may_issue_def split: if_splits)
  then show ?thesis using count_list_nth [of t "apcs s"] a by (cases "apcs s ! t") (auto simp: alloc_inv_def)
qed

lemma prepared_may_issue:
  "alloc_inv n s \<Longrightarrow> (\<forall>t<n. apcs s ! t = Prepared) \<Longrightarrow> may_issue s"
proof -
  assume a: "alloc_inv n s" "\<forall>t<n. apcs s ! t = Prepared"
  have "Preparing \<notin> set (apcs s)" "Last_dec \<notin> set (apcs s)" using a by (auto simp: in_set_conv_nth alloc_inv_def)
  then show ?thesis using a(1) by (simp add: alloc_inv_def may_issue_def)
qed

lemma alloc_not_stuck: "alloc_inv n s \<Longrightarrow> \<not> may_issue s \<Longrightarrow> \<exists>s'. alloc_step s s'"
proof -
  assume a: "alloc_inv n s" "\<not> may_issue s"
  then obtain t where t: "t < n" "apcs s ! t \<noteq> Prepared" using prepared_may_issue by blast
  then have "t < length (apcs s)" using a(1) by (simp add: alloc_inv_def)
  then show ?thesis using t(2) by (cases "apcs s ! t") (auto intro: alloc_step.intros)
qed

end
