(* ===== verification/Epoch_Phases.thy ===== *)
theory Epoch_Phases
  imports Epoch_Client Autotune
begin

text \<open>
  The life of an epoch in \<^verbatim>\<open>src/epoch.cc\<close>: \<open>InitializeEpoch\<close> starts the insert phase; when the
  completion counter reaches 0, \<open>EpochCallback\<close> runs the handler of the phase that ended,
  which starts the next one. The state of the client, of the epoch manager and of the
  allocators is explicit; calls of other components are recorded in the order of the code.
\<close>

section \<open>State\<close>

datatype EpochPhase = Insert | Initialize | Execute
datatype txn_func = PrepareInsert0 | Prepare0 | Run0

datatype call =
    Lmgr_Reset | GC_Prepare | Commit_Reset | Alloc_wake nat
  | Plan_Reset | Send_start | Worker_reset nat txn_func | Sched_Reset | Continue_inbound | Worker_wake nat
  | GC_stats | Start_scanner | Contention_Reset_call | Clear_wait_stats | Lmgr_Balance | Shutdown

record epoch_conf =
  ec_node_id :: nat
  ec_nr_nodes :: nat
  ec_threads :: nat
  ec_max_epoch :: nat
  ec_batch_append :: bool
  ec_splitting :: bool
  ec_binpack :: bool
  ec_core_scaling :: bool
  ec_autotune :: bool
  ec_migration :: bool
  ec_scaling_threshold :: int

record scaling =
  core_limit :: int
  best_core :: int
  best_duration :: int
  sample_count :: int

record client =
  cl_phase :: EpochPhase
  cl_mgr :: epoch_mgr
  cl_promise :: "promise_alloc list"
  cl_comp :: int
  cl_alloc :: alloc_state
  cl_scaling :: scaling
  cl_threshold :: int
  cl_tune :: autotune
  insert_time_ms :: nat
  initialize_time_ms :: nat
  execution_time_ms :: nat
  called :: "(u64 \<times> EpochPhase \<times> txn_func) list"
  calls :: "call list"
  finished :: bool

definition kMaxPiecesPerPhase :: nat where "kMaxPiecesPerPhase = 12800000"

section \<open>Handlers\<close>

definition CallTxns :: "epoch_conf \<Rightarrow> u64 \<Rightarrow> txn_func \<Rightarrow> client \<Rightarrow> client" where
  "CallTxns c epoch_nr func st =
     st\<lparr>calls := calls st @ [Plan_Reset, Send_start]
          @ map (\<lambda>t. Worker_reset t func) [0..<ec_threads c] @ [Sched_Reset, Continue_inbound] @ map Worker_wake [0..<ec_threads c],
        cl_comp := completion_Increment (int ((ec_nr_nodes c - 1) * kMaxPiecesPerPhase + 1 + ec_threads c)) (cl_comp st),
        called := called st @ [(epoch_nr, cl_phase st, func)]\<rparr>"

fun reset_all :: "promise_alloc list \<Rightarrow> promise_alloc list res" where
  "reset_all [] = Inr []"
| "reset_all (p # ps) = res_bind (promise_Reset p) (\<lambda>p'. res_bind (reset_all ps) (\<lambda>ps'. Inr (p' # ps')))"

definition InitializeEpoch :: "epoch_conf \<Rightarrow> client \<Rightarrow> client res" where
  "InitializeEpoch c st =
     (let mgr = DoAdvance (ec_node_id c) (ec_threads c) (cl_mgr st) in
      res_bind (reset_all (cl_promise st)) (\<lambda>ps.
      let st1 = st\<lparr>cl_mgr := mgr, cl_promise := ps,
                   calls := calls st @ [Lmgr_Reset, GC_Prepare, Commit_Reset] @ map Alloc_wake [0..<ec_threads c],
                   cl_alloc := alloc_start (ec_threads c), cl_phase := Insert\<rparr>
      in Inr (CallTxns c (cur_epoch_nr mgr) PrepareInsert0 st1)))"

definition OnInsertComplete :: "epoch_conf \<Rightarrow> nat \<Rightarrow> client \<Rightarrow> client" where
  "OnInsertComplete c dur st =
     CallTxns c (cur_epoch_nr (cl_mgr st)) Prepare0
       (st\<lparr>calls := calls st @ [GC_stats], insert_time_ms := insert_time_ms st + dur, cl_phase := Initialize\<rparr>)"

definition OnInitializeComplete :: "epoch_conf \<Rightarrow> nat \<Rightarrow> client \<Rightarrow> client" where
  "OnInitializeComplete c dur st =
     CallTxns c (cur_epoch_nr (cl_mgr st)) Run0
       (st\<lparr>initialize_time_ms := initialize_time_ms st + dur, cl_phase := Execute,
           calls := calls st @ (if ec_migration c \<and> cur_epoch_nr (cl_mgr st) = 1 then [Start_scanner] else [])
             @ (if ec_batch_append c \<or> ec_splitting c then [Contention_Reset_call] else [])
             @ [Clear_wait_stats] @ (if ec_binpack c then [] else [Lmgr_Balance])\<rparr>)"

text \<open>
  Core scaling. The products with 1.05 and 1.15 are compared exactly; the code uses
  \<open>double\<close>, which agrees for durations of less than fifty bits. A duration of 0 is a division by zero.
\<close>

definition cdiv :: "int \<Rightarrow> int \<Rightarrow> int" where
  "cdiv a b = sgn a * sgn b * (abs a div abs b)"

definition scale_cores :: "int \<Rightarrow> int list \<Rightarrow> nat \<Rightarrow> scaling \<Rightarrow> scaling res" where
  "scale_cores threshold waits dur s =
     (if core_limit s = 0 \<or> dur = 0 then Inl (Abort ''division by zero'')
      else
        let ctt = sum_list (map (\<lambda>w. cdiv w (core_limit s)) waits);
            ctt_rate = cdiv ctt (int dur);
            s1 = (if best_core s = 2 ^ 31 - 1 \<and> ctt_rate < threshold then s\<lparr>best_core := core_limit s\<rparr> else s)
        in if core_limit s1 < best_core s1 then
             let s2 = (if 105 * int dur < 100 * best_duration s1
                       then s1\<lparr>best_duration := int dur, best_core := core_limit s1, sample_count := 1\<rparr> else s1);
                 s3 = (if 100 * int dur > 115 * best_duration s2 then s2\<lparr>sample_count := 1\<rparr> else s2);
                 n = sample_count s3 - 1;
                 s4 = (if n = 0 then s3\<lparr>core_limit := core_limit s3 - int kNrCorePerNode, sample_count := 3\<rparr> else s3\<lparr>sample_count := n\<rparr>)
             in Inr (if core_limit s4 = 0 then s4\<lparr>core_limit := best_core s4\<rparr> else s4)
           else Inr s1)"

definition OnExecuteComplete :: "epoch_conf \<Rightarrow> nat \<Rightarrow> int list \<Rightarrow> u64 \<Rightarrow> client \<Rightarrow> client res" where
  "OnExecuteComplete c dur waits splits st =
     res_bind (if ec_core_scaling c \<and> cur_epoch_nr (cl_mgr st) > 1 then scale_cores (ec_scaling_threshold c) waits dur (cl_scaling st)
               else Inr (cl_scaling st)) (\<lambda>sc.
     let (tune, thr) = (if ec_autotune c then GetNextThreshold (cl_tune st) (cl_threshold st) splits (of_nat dur) else (cl_tune st, cl_threshold st));
         st1 = st\<lparr>execution_time_ms := execution_time_ms st + dur, cl_scaling := sc, cl_tune := tune, cl_threshold := thr\<rparr>
     in if cur_epoch_nr (cl_mgr st) + 1 < of_nat (ec_max_epoch c) then InitializeEpoch c st1
        else Inr (st1\<lparr>calls := calls st1 @ [Shutdown], finished := True\<rparr>))"

definition EpochCallback :: "epoch_conf \<Rightarrow> int \<Rightarrow> nat \<Rightarrow> int list \<Rightarrow> u64 \<Rightarrow> client \<Rightarrow> client res" where
  "EpochCallback c cnt dur waits splits st =
     (if cnt = 0 then
        case cl_phase st of
          Insert \<Rightarrow> Inr (OnInsertComplete c dur st)
        | Initialize \<Rightarrow> Inr (OnInitializeComplete c dur st)
        | Execute \<Rightarrow> OnExecuteComplete c dur waits splits st
      else Inr st)"

text \<open>Whether the completion of the last piece flushes the contention manager first.\<close>

definition PreComplete :: "epoch_conf \<Rightarrow> EpochPhase \<Rightarrow> bool" where
  "PreComplete c p \<longleftrightarrow> (ec_batch_append c \<or> ec_splitting c) \<and> (p = Initialize \<or> p = Insert)"

section \<open>The order of the phases\<close>

definition promise_roomy :: "promise_alloc \<Rightarrow> bool" where
  "promise_roomy p \<longleftrightarrow> 256 \<le> blimit (big p)"

lemma reset_all_ok: "\<forall>p\<in>set ps. promise_roomy p \<Longrightarrow> \<exists>ps'. reset_all ps = Inr ps' \<and> (\<forall>p\<in>set ps'. promise_roomy p \<and> promise_inv p)"
proof (induction ps)
  case (Cons p ps)
  have p: "256 \<le> blimit (big p)" using Cons.prems by (simp add: promise_roomy_def)
  have "Align 256 16 = 256" by (simp add: Align_def)
  then have "Brk_Alloc kEpochPromiseMiniBrkSize (big (p\<lparr>big := Brk_Reset (big p)\<rparr>)) = Inr ((big p)\<lparr>boffset := 256\<rparr>, 0)"
    using p by (simp add: Brk_Alloc_def Brk_Reset_def kEpochPromiseMiniBrkSize_def CACHE_LINE_SIZE_def)
  moreover obtain h m where "Brk_New sizeof_Brk kEpochPromiseMiniBrkSize = (h, m)" by (cases "Brk_New sizeof_Brk kEpochPromiseMiniBrkSize")
  ultimately obtain x where x: "new_mini (p\<lparr>big := Brk_Reset (big p)\<rparr>) = Inr x" "blimit (big (fst x)) = blimit (big p)"
    by (simp add: new_mini_def split: prod.splits)
  then have "promise_Reset p = Inr (set_mini x)" "promise_roomy (set_mini x)"
    using p by (auto simp: promise_Reset_def promise_roomy_def set_mini_def split: prod.splits)
  then have "\<exists>p'. promise_Reset p = Inr p' \<and> promise_roomy p'" by blast
  then show ?case using Cons promise_Reset_inv by fastforce
qed simp

fun run_phases :: "epoch_conf \<Rightarrow> (nat \<times> int list \<times> u64) list \<Rightarrow> client \<Rightarrow> client res" where
  "run_phases c [] st = Inr st"
| "run_phases c ((dur, waits, splits) # ds) st = res_bind (EpochCallback c 0 dur waits splits st) (\<lambda>st'. run_phases c ds st')"

lemma run_phases_end [simp]: "res_bind m (run_phases c []) = m"
  by (simp add: res_bind_def split: sum.splits)

lemma run_phases_append: "run_phases c (xs @ ys) st = res_bind (run_phases c xs st) (run_phases c ys)"
  by (induction xs arbitrary: st) (auto simp: res_bind_def split: sum.splits)

definition epoch_schedule :: "u64 \<Rightarrow> (u64 \<times> EpochPhase \<times> txn_func) list" where
  "epoch_schedule e = [(e, Insert, PrepareInsert0), (e, Initialize, Prepare0), (e, Execute, Run0)]"

text \<open>A client that has just started epoch \<open>e\<close>.\<close>

definition started :: "u64 \<Rightarrow> client \<Rightarrow> bool" where
  "started e st \<longleftrightarrow> cl_phase st = Insert \<and> cur_epoch_nr (cl_mgr st) = e \<and> (\<forall>p\<in>set (cl_promise st). promise_roomy p) \<and> \<not> finished st"

lemma InitializeEpoch_ok:
  assumes "\<forall>p\<in>set (cl_promise st). promise_roomy p" "\<not> finished st"
  shows "\<exists>st'. InitializeEpoch c st = Inr st' \<and> started (cur_epoch_nr (cl_mgr st) + 1) st' \<and>
    called st' = called st @ [(cur_epoch_nr (cl_mgr st) + 1, Insert, PrepareInsert0)]"
  using reset_all_ok [OF assms(1)] assms(2) by (auto simp: InitializeEpoch_def Let_def CallTxns_def started_def DoAdvance_def)

lemma one_epoch:
  assumes st: "started e st" and cs: "\<not> ec_core_scaling c"
  shows "\<exists>st'. run_phases c [d1, d2, d3] st = Inr st' \<and>
    (if e + 1 < of_nat (ec_max_epoch c)
     then started (e + 1) st' \<and> called st' = called st @ tl (epoch_schedule e) @ [(e + 1, Insert, PrepareInsert0)]
     else finished st' \<and> called st' = called st @ tl (epoch_schedule e))"
proof -
  obtain a1 b1 c1 a2 b2 c2 a3 b3 c3 where d: "d1 = (a1, b1, c1)" "d2 = (a2, b2, c2)" "d3 = (a3, b3, c3)" by (cases d1; cases d2; cases d3) auto
  let ?s1 = "OnInsertComplete c a1 st"
  let ?s2 = "OnInitializeComplete c a2 ?s1"
  have s2: "cl_phase ?s1 = Initialize" "cl_phase ?s2 = Execute" "cl_mgr ?s2 = cl_mgr st" "cl_promise ?s2 = cl_promise st" "finished ?s2 = finished st"
    "called ?s2 = called st @ tl (epoch_schedule e)"
    using st by (auto simp: OnInsertComplete_def OnInitializeComplete_def CallTxns_def epoch_schedule_def started_def)
  obtain tune thr where t: "(if ec_autotune c then GetNextThreshold (cl_tune ?s2) (cl_threshold ?s2) c3 (of_nat a3) else (cl_tune ?s2, cl_threshold ?s2)) = (tune, thr)"
    by (metis surj_pair)
  define s3 where "s3 = ?s2\<lparr>execution_time_ms := execution_time_ms ?s2 + a3, cl_tune := tune, cl_threshold := thr\<rparr>"
  have s3: "cl_mgr s3 = cl_mgr st" "cl_promise s3 = cl_promise st" "finished s3 = finished st" "called s3 = called st @ tl (epoch_schedule e)"
    using s2 by (simp_all add: s3_def)
  have r: "run_phases c [d1, d2, d3] st = (if e + 1 < of_nat (ec_max_epoch c) then InitializeEpoch c s3 else Inr (s3\<lparr>calls := calls s3 @ [Shutdown], finished := True\<rparr>))"
    using st cs s2(1,2,3) t by (simp add: d EpochCallback_def OnExecuteComplete_def started_def s3_def [symmetric])
  show ?thesis
  proof (cases "e + 1 < of_nat (ec_max_epoch c)")
    case True
    then show ?thesis using r InitializeEpoch_ok [of s3 c] s3 st by (auto simp: started_def)
  qed (use r s3 in simp)
qed

text \<open>
  From the start of epoch \<open>e\<close> to the end: every epoch runs its three phases in order, and
  the client shuts down after the last.
\<close>

lemma all_epochs:
  assumes "started (of_nat e) st" "\<not> ec_core_scaling c" "e + n + 1 = ec_max_epoch c" "ec_max_epoch c < 2 ^ 64" "length ds = 3 * (n + 1)"
  shows "\<exists>st'. run_phases c ds st = Inr st' \<and> finished st' \<and>
    called st' = called st @ tl (concat (map (\<lambda>i. epoch_schedule (of_nat i)) [e..<ec_max_epoch c]))"
  using assms
proof (induction n arbitrary: e st ds)
  case 0
  obtain d1 d2 d3 where d: "ds = [d1, d2, d3]" using 0(5) by (auto simp: length_Suc_conv numeral_3_eq_3)
  have "\<not> of_nat e + 1 < (of_nat (ec_max_epoch c) :: u64)" using 0(3) by (metis add.right_neutral of_nat_1 of_nat_add order_less_irrefl)
  then show ?case using one_epoch [OF 0(1,2), of d1 d2 d3] 0(3) d by (auto simp: upt_rec [of e] epoch_schedule_def)
next
  case (Suc n)
  obtain d1 d2 d3 ds' where d: "ds = [d1, d2, d3] @ ds'" "length ds' = 3 * (n + 1)"
    using Suc.prems(5) by (auto simp: length_Suc_conv numeral_3_eq_3)
  have lt: "of_nat e + 1 < (of_nat (ec_max_epoch c) :: u64)"
    using Suc.prems(3,4) by (simp add: word_less_nat_alt unat_word_ariths unsigned_of_nat take_bit_eq_mod flip: of_nat_Suc)
  obtain s1 where s1: "run_phases c [d1, d2, d3] st = Inr s1" "started (of_nat (e + 1)) s1"
    "called s1 = called st @ tl (epoch_schedule (of_nat e)) @ [(of_nat (e + 1), Insert, PrepareInsert0)]"
    using one_epoch [OF Suc.prems(1,2), of d1 d2 d3] lt by (auto simp: add.commute)
  obtain st' where st': "run_phases c ds' s1 = Inr st'" "finished st'"
    "called st' = called s1 @ tl (concat (map (\<lambda>i. epoch_schedule (of_nat i)) [e + 1..<ec_max_epoch c]))"
    using Suc.IH [OF s1(2) Suc.prems(2) _ Suc.prems(4) d(2)] Suc.prems(3) by auto
  have "[e..<ec_max_epoch c] = e # (e + 1) # [e + 2..<ec_max_epoch c]" "[e + 1..<ec_max_epoch c] = (e + 1) # [e + 2..<ec_max_epoch c]"
    using Suc.prems(3) by (simp_all add: upt_rec)
  then show ?case unfolding d(1) run_phases_append using s1 st' by (simp add: epoch_schedule_def)
qed

definition client_init :: "epoch_conf \<Rightarrow> node_mem list \<Rightarrow> promise_alloc list \<Rightarrow> client" where
  "client_init c mem ps =
     \<lparr>cl_phase = Insert, cl_mgr = EpochManager mem, cl_promise = ps, cl_comp = 0, cl_alloc = \<lparr>acomp = 0, apcs = []\<rparr>,
      cl_scaling = \<lparr>core_limit = int (ec_threads c), best_core = 2 ^ 31 - 1, best_duration = 2 ^ 31 - 1, sample_count = 3\<rparr>,
      cl_threshold = 2 ^ 63 - 1, cl_tune = ThresholdAutoTuneController, insert_time_ms = 0, initialize_time_ms = 0,
      execution_time_ms = 0, called = [], calls = [], finished = False\<rparr>"

theorem experiment_runs:
  assumes "\<forall>p\<in>set ps. promise_roomy p" "\<not> ec_core_scaling c" "2 \<le> ec_max_epoch c" "ec_max_epoch c < 2 ^ 64" "length ds = 3 * (ec_max_epoch c - 1)"
  shows "\<exists>st. res_bind (InitializeEpoch c (client_init c mem ps)) (run_phases c ds) = Inr st \<and> finished st \<and>
    called st = concat (map (\<lambda>i. epoch_schedule (of_nat i)) [1..<ec_max_epoch c])"
proof -
  obtain s1 where s1: "InitializeEpoch c (client_init c mem ps) = Inr s1" "started 1 s1" "called s1 = [(1, Insert, PrepareInsert0)]"
    using InitializeEpoch_ok [of "client_init c mem ps" c] assms(1) by (auto simp: client_init_def EpochManager_def)
  obtain n where n: "ec_max_epoch c = n + 2" using assms(3) by (metis add.commute le_Suc_ex)
  obtain st where "run_phases c ds s1 = Inr st" "finished st"
    "called st = called s1 @ tl (concat (map (\<lambda>i. epoch_schedule (of_nat i)) [1..<ec_max_epoch c]))"
    using all_epochs [of 1 s1 c n ds] s1(2) assms n by auto
  moreover have "[1..<ec_max_epoch c] = 1 # [2..<ec_max_epoch c]" using assms(3) by (simp add: upt_conv_Cons numeral_2_eq_2)
  ultimately show ?thesis using s1 by (simp add: epoch_schedule_def)
qed

section \<open>Order within CallTxns\<close>

text \<open>
  The scheduler is reset after all issuing workers are, and pieces are accepted from the
  network only then; workers are woken last.
\<close>

lemma CallTxns_order:
  "calls (CallTxns c e f st) = calls st @ cs \<Longrightarrow> cs = a @ [x] @ b @ [y] @ d \<Longrightarrow>
     \<not> (x = Sched_Reset \<and> (\<exists>t g. y = Worker_reset t g)) \<and> \<not> (x = Continue_inbound \<and> y = Sched_Reset) \<and>
     \<not> ((\<exists>t. x = Worker_wake t) \<and> (y = Continue_inbound \<or> y = Sched_Reset \<or> (\<exists>t g. y = Worker_reset t g)))"
proof -
  define rank :: "call \<Rightarrow> nat" where "rank k = (case k of Plan_Reset \<Rightarrow> 0 | Send_start \<Rightarrow> 1 | Worker_reset _ _ \<Rightarrow> 2 | Sched_Reset \<Rightarrow> 3 | Continue_inbound \<Rightarrow> 4 | Worker_wake _ \<Rightarrow> 5 | _ \<Rightarrow> 6)" for k
  assume cs: "calls (CallTxns c e f st) = calls st @ cs" "cs = a @ [x] @ b @ [y] @ d"
  have "sorted (map rank cs)" using cs(1) by (auto simp: CallTxns_def rank_def sorted_append comp_def map_replicate_const)
  then have "rank x \<le> rank y" unfolding cs(2) by (simp add: sorted_append)
  then show ?thesis by (auto simp: rank_def)
qed

section \<open>Core scaling\<close>

definition scaling_inv :: "nat \<Rightarrow> scaling \<Rightarrow> bool" where
  "scaling_inv n s \<longleftrightarrow> 0 < core_limit s \<and> core_limit s \<le> int n \<and> int kNrCorePerNode dvd core_limit s \<and> core_limit s \<le> best_core s
     \<and> (best_core s = 2 ^ 31 - 1 \<or> best_core s \<le> int n \<and> int kNrCorePerNode dvd best_core s)
     \<and> 1 \<le> sample_count s \<and> sample_count s \<le> 3
     \<and> (best_core s = 2 ^ 31 - 1 \<longrightarrow> best_duration s = 2 ^ 31 - 1)"

text \<open>With a multiple of eight cores, and epochs of less than about 24 days, the limit stays a positive multiple of eight.\<close>

lemma scale_cores_inv:
  assumes inv: "scaling_inv n s" and n: "n < 2 ^ 31 - 1" and d: "105 * dur < 100 * (2 ^ 31 - 1)" and r: "scale_cores th waits dur s = Inr s'"
  shows "scaling_inv n s'"
proof -
  let ?r = "cdiv (sum_list (map (\<lambda>w. cdiv w (core_limit s)) waits)) (int dur)"
  define s1 where "s1 = (if best_core s = 2 ^ 31 - 1 \<and> ?r < th then s\<lparr>best_core := core_limit s\<rparr> else s)"
  define s2 where "s2 = (if 105 * int dur < 100 * best_duration s1 then s1\<lparr>best_duration := int dur, best_core := core_limit s1, sample_count := 1\<rparr> else s1)"
  define s3 where "s3 = (if 100 * int dur > 115 * best_duration s2 then s2\<lparr>sample_count := 1\<rparr> else s2)"
  define s4 where "s4 = (if sample_count s3 - 1 = 0 then s3\<lparr>core_limit := core_limit s3 - int kNrCorePerNode, sample_count := 3\<rparr> else s3\<lparr>sample_count := sample_count s3 - 1\<rparr>)"
  have lim: "int n < 2 ^ 31 - 1" using n by simp
  have i1: "scaling_inv n s1" using inv lim unfolding s1_def by (simp add: scaling_inv_def)
  have s': "s' = (if core_limit s1 < best_core s1 then if core_limit s4 = 0 then s4\<lparr>core_limit := best_core s4\<rparr> else s4 else s1)"
    using r unfolding scale_cores_def Let_def s1_def [symmetric] s2_def [symmetric] s3_def [symmetric] s4_def [symmetric] by (simp split: if_splits)
  have i2: "scaling_inv n s2" using i1 lim unfolding s2_def by (simp add: scaling_inv_def)
  have b2: "best_core s2 \<noteq> 2 ^ 31 - 1"
  proof (cases "105 * int dur < 100 * best_duration s1")
    case True
    then show ?thesis using i1 lim unfolding s2_def scaling_inv_def by auto
  next
    case False
    have "105 * int dur < 100 * (2 ^ 31 - 1)" using d by simp
    then have "best_duration s1 \<noteq> 2 ^ 31 - 1" using False by auto
    then show ?thesis using i1 False unfolding s2_def scaling_inv_def by auto
  qed
  have i3: "scaling_inv n s3" "best_core s3 \<noteq> 2 ^ 31 - 1" using i2 b2 unfolding s3_def by (simp_all add: scaling_inv_def)
  obtain k where k: "core_limit s3 = 8 * k" "0 < k" using i3(1) by (auto simp: scaling_inv_def kNrCorePerNode_def elim!: dvdE)
  have i4: "scaling_inv n (if core_limit s4 = 0 then s4\<lparr>core_limit := best_core s4\<rparr> else s4)"
    using i3 k unfolding s4_def scaling_inv_def kNrCorePerNode_def by auto
  show ?thesis unfolding s' using i1 i4 by simp
qed

text \<open>With another number of cores it becomes negative: twelve cores and two fast epochs.\<close>

lemma scale_cores_negative:
  "res_bind (scale_cores 0 [] 1000 \<lparr>core_limit = 12, best_core = 2 ^ 31 - 1, best_duration = 2 ^ 31 - 1, sample_count = 3\<rparr>)
     (scale_cores 0 [] 500) = Inr \<lparr>core_limit = -4, best_core = 4, best_duration = 500, sample_count = 3\<rparr>"
  by (simp add: scale_cores_def cdiv_def kNrCorePerNode_def)

section \<open>Spreading the transactions of unused cores\<close>

definition extra_offset :: "nat \<Rightarrow> nat list \<Rightarrow> nat \<Rightarrow> nat" where
  "extra_offset limit sizes t = sum_list (map (\<lambda>i. sizes ! i) [limit..<t]) mod limit"

definition issue_affinity :: "EpochPhase \<Rightarrow> nat \<Rightarrow> nat list \<Rightarrow> nat \<Rightarrow> nat \<Rightarrow> nat" where
  "issue_affinity phase limit sizes t i = (if phase = Execute \<and> limit \<le> t then (i + extra_offset limit sizes t) mod limit else t)"

text \<open>
  In the execution phase no transaction goes to a core at or above the limit, and the
  transactions of the cores above it are dealt out in turn: the one with the number \<open>k\<close> in the
  order of cores and positions goes to core \<open>k mod limit\<close>.
\<close>

lemma issue_affinity_round_robin:
  assumes "limit \<le> t"
  shows "issue_affinity Execute limit sizes t i = (sum_list (map (\<lambda>j. sizes ! j) [limit..<t]) + i) mod limit"
  using assms by (simp add: issue_affinity_def extra_offset_def mod_simps add.commute)

lemma issue_affinity_bound: "0 < limit \<Longrightarrow> issue_affinity Execute limit sizes t i < limit"
  by (simp add: issue_affinity_def)

end
