(* ===== verification/Buffer_Plan.thy ===== *)
theory Buffer_Plan
  imports Piece Epoch_Phases
begin

text \<open>
  The buffer plan of \<^verbatim>\<open>src/node_config.cc\<close>: before its pieces run, a node counts how many pieces
  will go from each node to each node on each level of the piece trees, and broadcasts
  the table. From the tables every node knows how many pieces a phase has, and how
  many arrive on each connection. Counters are \<open>unsigned long\<close>, written as \<open>nat\<close>: they count pieces
  held in memory.
\<close>

section \<open>The index of a counter\<close>

definition kPromiseMaxLevels :: nat where "kPromiseMaxLevels = 16"

definition BatchBufferIndex :: "nat \<Rightarrow> nat \<Rightarrow> nat \<Rightarrow> nat \<Rightarrow> nat" where
  "BatchBufferIndex nr_nodes lv src_node dst_node = lv * nr_nodes * nr_nodes + (src_node - 1) * nr_nodes + dst_node - 1"

definition plan_size :: "nat \<Rightarrow> nat" where
  "plan_size nr_nodes = kPromiseMaxLevels * nr_nodes * nr_nodes"

definition node_ok :: "nat \<Rightarrow> nat \<Rightarrow> bool" where
  "node_ok nr_nodes d \<longleftrightarrow> 1 \<le> d \<and> d \<le> nr_nodes"

lemma index_digits:
  assumes "node_ok n s" "node_ok n d"
  shows "BatchBufferIndex n l s d mod n = d - 1" "BatchBufferIndex n l s d div n mod n = s - 1" "BatchBufferIndex n l s d div n div n = l"
proof -
  have n: "0 < n" "d - 1 < n" "s - 1 < n" using assms by (auto simp: node_ok_def)
  have e: "BatchBufferIndex n l s d = (l * n + (s - 1)) * n + (d - 1)"
    using assms by (simp add: BatchBufferIndex_def node_ok_def algebra_simps)
  show "BatchBufferIndex n l s d mod n = d - 1" unfolding e using n by simp
  have q: "BatchBufferIndex n l s d div n = l * n + (s - 1)" unfolding e using n by simp
  show "BatchBufferIndex n l s d div n mod n = s - 1" "BatchBufferIndex n l s d div n div n = l" unfolding q using n by simp_all
qed

lemma index_inj:
  assumes "node_ok n s" "node_ok n d" "node_ok n s'" "node_ok n d'" "BatchBufferIndex n l s d = BatchBufferIndex n l' s' d'"
  shows "l = l' \<and> s = s' \<and> d = d'"
proof -
  have "d - 1 = d' - 1" "s - 1 = s' - 1" "l = l'" using index_digits [OF assms(1,2), of l] index_digits [OF assms(3,4), of l'] assms(5) by auto
  then show ?thesis using assms(1-4) by (auto simp: node_ok_def)
qed

lemma index_bound:
  assumes "node_ok n s" "node_ok n d" "l < kPromiseMaxLevels"
  shows "BatchBufferIndex n l s d < plan_size n"
proof -
  have "BatchBufferIndex n l s d div n div n < kPromiseMaxLevels" unfolding index_digits(3) [OF assms(1,2)] by (rule assms(3))
  moreover have "0 < n" using assms by (auto simp: node_ok_def)
  ultimately show ?thesis by (simp add: plan_size_def less_mult_imp_div_less div_less_iff_less_mult)
qed

section \<open>Collecting the plan\<close>

definition add_cnt :: "nat \<Rightarrow> nat \<Rightarrow> nat list \<Rightarrow> nat list res" where
  "add_cnt idx v cnts = res_bind (rd cnts idx) (\<lambda>x. wr cnts idx (x + v))"

fun add_dynamic :: "nat \<Rightarrow> nat \<Rightarrow> nat \<Rightarrow> nat list \<Rightarrow> nat list \<Rightarrow> nat list res" where
  "add_dynamic n lv src [] cnts = Inr cnts"
| "add_dynamic n lv src (d # ds) cnts = res_bind (add_cnt (BatchBufferIndex n lv src d) 1 cnts) (add_dynamic n lv src ds)"

fun CollectBufferPlanImpl :: "nat \<Rightarrow> nat \<Rightarrow> nat \<Rightarrow> nat \<Rightarrow> pnode \<Rightarrow> nat list \<Rightarrow> (pnode \<times> nat list) res"
  and CollectChildren :: "nat \<Rightarrow> nat \<Rightarrow> nat \<Rightarrow> nat \<Rightarrow> pnode list \<Rightarrow> nat list \<Rightarrow> (pnode list \<times> nat list) res" where
  "CollectBufferPlanImpl n lv src fsrc (PNode h cap ks) cnts =
     (if kPromiseMaxLevels \<le> lv then Inl (Abort ''promise level too deep'')
      else
        let h' = h\<lparr>level := of_nat lv\<rparr>;
            dst = (if node_id h = 0 then src else unat (node_id h))
        in res_bind (if dst < 255
                     then res_bind (add_cnt (BatchBufferIndex n lv src dst) 1 cnts) (add_cnt (BatchBufferIndex n lv fsrc dst) (unat (fv_signals h)))
                     else add_dynamic n lv src [1..<n + 1] cnts) (\<lambda>c1.
           res_bind (CollectChildren n (lv + 1) dst fsrc ks c1) (\<lambda>(ks', c2). Inr (PNode h' cap ks', c2))))"
| "CollectChildren n lv src fsrc [] cnts = Inr ([], cnts)"
| "CollectChildren n lv src fsrc (k # ks) cnts =
     res_bind (CollectBufferPlanImpl n lv src fsrc k cnts) (\<lambda>(k', c1).
     res_bind (CollectChildren n lv src fsrc ks c1) (\<lambda>(ks', c2). Inr (k' # ks', c2)))"

text \<open>The root promise: each piece names the node its future comes from, 0 for this node.\<close>

fun CollectBufferPlan :: "nat \<Rightarrow> nat \<Rightarrow> pnode list \<Rightarrow> nat list \<Rightarrow> (pnode list \<times> nat list) res" where
  "CollectBufferPlan n self [] cnts = Inr ([], cnts)"
| "CollectBufferPlan n self (r # rs) cnts =
     (let fsrc = (if future_source_node_id (phdr r) = 0 then self else unat (future_source_node_id (phdr r))) in
      res_bind (CollectBufferPlanImpl n 0 self fsrc r cnts) (\<lambda>(r', c1).
      res_bind (CollectBufferPlan n self rs c1) (\<lambda>(rs', c2). Inr (r' # rs', c2))))"

text \<open>The messages of a tree of pieces, as (level, source, destination).\<close>

fun plan_of :: "nat \<Rightarrow> nat \<Rightarrow> nat \<Rightarrow> pnode \<Rightarrow> (nat \<times> nat \<times> nat) list" where
  "plan_of lv src fsrc (PNode h cap ks) =
     (let dst = (if node_id h = 0 then src else unat (node_id h)) in
      (lv, src, dst) # replicate (unat (fv_signals h)) (lv, fsrc, dst) @ concat (map (plan_of (lv + 1) dst fsrc) ks))"

text \<open>Trees without dynamic pieces (destination 255), of at most 16 levels.\<close>

fun tree_ok :: "nat \<Rightarrow> nat \<Rightarrow> pnode \<Rightarrow> bool" where
  "tree_ok n lv (PNode h cap ks) \<longleftrightarrow> lv < kPromiseMaxLevels \<and> (node_id h = 0 \<or> node_ok n (unat (node_id h))) \<and> (\<forall>k\<in>set ks. tree_ok n (lv + 1) k)"

definition key_ok :: "nat \<Rightarrow> nat \<times> nat \<times> nat \<Rightarrow> bool" where
  "key_ok n k \<longleftrightarrow> (case k of (l, s, d) \<Rightarrow> l < kPromiseMaxLevels \<and> node_ok n s \<and> node_ok n d)"

definition idx_of :: "nat \<Rightarrow> nat \<times> nat \<times> nat \<Rightarrow> nat" where
  "idx_of n k = (case k of (l, s, d) \<Rightarrow> BatchBufferIndex n l s d)"

definition count_all :: "nat list \<Rightarrow> nat list \<Rightarrow> nat list" where
  "count_all is c = map (\<lambda>i. c ! i + count_list is i) [0..<length c]"

lemma count_all_nth [simp]: "i < length c \<Longrightarrow> count_all is c ! i = c ! i + count_list is i"
  by (simp add: count_all_def)

lemma count_all_length [simp]: "length (count_all is c) = length c"
  by (simp add: count_all_def)

lemma count_all_append: "count_all (is @ js) c = count_all js (count_all is c)"
  by (rule nth_equalityI) simp_all

lemma count_all_Nil: "count_all [] c = c"
  by (rule nth_equalityI) simp_all

lemma count_list_replicate: "count_list (replicate k x) y = (if x = y then k else 0)"
  by (induction k) auto

lemma add_cnt_all: "idx < length c \<Longrightarrow> add_cnt idx v c = Inr (count_all (replicate v idx) c)"
  by (auto simp: add_cnt_def wr_def count_list_replicate intro!: nth_equalityI)

lemma plan_of_ok:
  "tree_ok n lv p \<Longrightarrow> node_ok n src \<Longrightarrow> node_ok n fsrc \<Longrightarrow> x \<in> set (plan_of lv src fsrc p) \<Longrightarrow> key_ok n x"
proof (induction p arbitrary: lv src x)
  case (PNode h cap ks)
  let ?d = "if node_id h = 0 then src else unat (node_id h)"
  have d: "node_ok n ?d" "lv < kPromiseMaxLevels" using PNode.prems by (auto split: if_splits)
  from PNode.prems(4) consider "x = (lv, src, ?d) \<or> x = (lv, fsrc, ?d)" | k where "k \<in> set ks" "x \<in> set (plan_of (lv + 1) ?d fsrc k)"
    by (auto simp: Let_def)
  then show ?case
  proof cases
    case 1
    then show ?thesis using d PNode.prems(2,3) by (auto simp: key_ok_def)
  next
    case 2
    then show ?thesis using PNode.IH [OF 2(1) _ d(1) PNode.prems(3) 2(2)] PNode.prems(1) by simp
  qed
qed

lemma Collect_plan:
  "tree_ok n lv p \<Longrightarrow> node_ok n src \<Longrightarrow> node_ok n fsrc \<Longrightarrow> n < 255 \<Longrightarrow> length c = plan_size n \<Longrightarrow>
     \<exists>p'. CollectBufferPlanImpl n lv src fsrc p c = Inr (p', count_all (map (idx_of n) (plan_of lv src fsrc p)) c)"
  "\<forall>k\<in>set ks. tree_ok n lv k \<Longrightarrow> node_ok n src \<Longrightarrow> node_ok n fsrc \<Longrightarrow> n < 255 \<Longrightarrow> length c = plan_size n \<Longrightarrow>
     \<exists>ks'. CollectChildren n lv src fsrc ks c = Inr (ks', count_all (map (idx_of n) (concat (map (plan_of lv src fsrc) ks))) c)"
proof (induction n lv src fsrc p c and n lv src fsrc ks c rule: CollectBufferPlanImpl_CollectChildren.induct)
  case (1 n lv src fsrc h cap ks c)
  let ?d = "if node_id h = 0 then src else unat (node_id h)"
  let ?a = "replicate 1 (BatchBufferIndex n lv src ?d)" and ?b = "replicate (unat (fv_signals h)) (BatchBufferIndex n lv fsrc ?d)"
  have d: "node_ok n ?d" "lv < kPromiseMaxLevels" "\<forall>k\<in>set ks. tree_ok n (lv + 1) k" using 1(2,3) by (auto split: if_splits)
  have b: "BatchBufferIndex n lv src ?d < length c" "BatchBufferIndex n lv fsrc ?d < length c"
    using index_bound [OF 1(3) d(1,2)] index_bound [OF 1(4) d(1,2)] 1(6) by auto
  have lt: "?d < 255" using d(1) 1(5) by (auto simp: node_ok_def)
  let ?c1 = "count_all ?b (count_all ?a c)"
  have c1: "res_bind (add_cnt (BatchBufferIndex n lv src ?d) 1 c) (add_cnt (BatchBufferIndex n lv fsrc ?d) (unat (fv_signals h))) = Inr ?c1"
    using add_cnt_all [OF b(1), of 1] add_cnt_all [of "BatchBufferIndex n lv fsrc ?d" "count_all ?a c" "unat (fv_signals h)"] b(2) by simp
  obtain ks' where ks: "CollectChildren n (lv + 1) ?d fsrc ks ?c1 = Inr (ks', count_all (map (idx_of n) (concat (map (plan_of (lv + 1) ?d fsrc) ks))) ?c1)"
    using 1(1) [OF _ refl refl d(3,1) 1(4,5), of ?c1] d(2) 1(6) by auto
  have e: "map (idx_of n) (plan_of lv src fsrc (PNode h cap ks)) = ?a @ ?b @ map (idx_of n) (concat (map (plan_of (lv + 1) ?d fsrc) ks))"
    by (simp add: Let_def idx_of_def)
  show ?case unfolding e count_all_append using c1 ks d(2) lt by (simp add: Let_def del: replicate.simps)
next
  case (2 n lv src fsrc c)
  then show ?case by (simp add: count_all_Nil)
next
  case (3 n lv src fsrc k ks c)
  then obtain k' where k: "CollectBufferPlanImpl n lv src fsrc k c = Inr (k', count_all (map (idx_of n) (plan_of lv src fsrc k)) c)" by auto
  obtain ks' where ks: "CollectChildren n lv src fsrc ks (count_all (map (idx_of n) (plan_of lv src fsrc k)) c)
      = Inr (ks', count_all (map (idx_of n) (concat (map (plan_of lv src fsrc) ks))) (count_all (map (idx_of n) (plan_of lv src fsrc k)) c))"
    using 3(2) [of "count_all (map (idx_of n) (plan_of lv src fsrc k)) c"] 3(3-7) by auto
  show ?case using k ks by (simp add: count_all_append)
qed

definition future_src :: "nat \<Rightarrow> pnode \<Rightarrow> nat" where
  "future_src self r = (if future_source_node_id (phdr r) = 0 then self else unat (future_source_node_id (phdr r)))"

definition root_plan :: "nat \<Rightarrow> pnode list \<Rightarrow> (nat \<times> nat \<times> nat) list" where
  "root_plan self rs = concat (map (\<lambda>r. plan_of 0 self (future_src self r) r) rs)"

definition root_ok :: "nat \<Rightarrow> nat \<Rightarrow> pnode \<Rightarrow> bool" where
  "root_ok n self r \<longleftrightarrow> tree_ok n 0 r \<and> node_ok n (future_src self r)"

lemma Collect_root:
  "\<forall>r\<in>set rs. root_ok n self r \<Longrightarrow> node_ok n self \<Longrightarrow> n < 255 \<Longrightarrow> length c = plan_size n \<Longrightarrow>
     \<exists>rs'. CollectBufferPlan n self rs c = Inr (rs', count_all (map (idx_of n) (root_plan self rs)) c)"
proof (induction rs arbitrary: c)
  case Nil
  then show ?case by (simp add: root_plan_def count_all_Nil)
next
  case (Cons r rs)
  have f: "(if future_source_node_id (phdr r) = 0 then self else unat (future_source_node_id (phdr r))) = future_src self r"
    by (simp add: future_src_def)
  obtain r' where r: "CollectBufferPlanImpl n 0 self (future_src self r) r c = Inr (r', count_all (map (idx_of n) (plan_of 0 self (future_src self r) r)) c)"
    using Collect_plan(1) [of n 0 r self "future_src self r" c] Cons.prems by (auto simp: root_ok_def)
  let ?c1 = "count_all (map (idx_of n) (plan_of 0 self (future_src self r) r)) c"
  obtain rs' where "CollectBufferPlan n self rs ?c1 = Inr (rs', count_all (map (idx_of n) (root_plan self rs)) ?c1)"
    using Cons.IH [of ?c1] Cons.prems by auto
  then show ?case unfolding CollectBufferPlan.simps f using r by (simp add: root_plan_def count_all_append)
qed

text \<open>A counter of the plan is the number of messages on its level from its source to its destination.\<close>

lemma idx_of_inj:
  assumes "key_ok n j" "key_ok n k" "idx_of n j = idx_of n k"
  shows "j = k"
proof -
  obtain l s d l' s' d' where jk: "j = (l, s, d)" "k = (l', s', d')" by (cases j; cases k) auto
  show ?thesis using assms index_inj [of n s d s' d' l l'] by (simp add: jk key_ok_def idx_of_def)
qed

lemma idx_of_bound: "key_ok n k \<Longrightarrow> idx_of n k < plan_size n"
  using index_bound by (auto simp: key_ok_def idx_of_def split: prod.splits)

lemma count_idx: "\<forall>j\<in>set ks. key_ok n j \<Longrightarrow> key_ok n k \<Longrightarrow> count_list (map (idx_of n) ks) (idx_of n k) = count_list ks k"
  by (induction ks) (auto dest: idx_of_inj)

lemma root_plan_ok: "\<forall>r\<in>set rs. root_ok n self r \<Longrightarrow> node_ok n self \<Longrightarrow> k \<in> set (root_plan self rs) \<Longrightarrow> key_ok n k"
  by (auto simp: root_plan_def root_ok_def intro: plan_of_ok)

theorem CollectBufferPlan_counts:
  assumes "\<forall>r\<in>set rs. root_ok n self r" "node_ok n self" "n < 255"
  shows "\<exists>rs' c. CollectBufferPlan n self rs (replicate (plan_size n) 0) = Inr (rs', c) \<and>
    (\<forall>k. key_ok n k \<longrightarrow> c ! idx_of n k = count_list (root_plan self rs) k)"
proof -
  let ?c = "count_all (map (idx_of n) (root_plan self rs)) (replicate (plan_size n) 0)"
  obtain rs' where "CollectBufferPlan n self rs (replicate (plan_size n) 0) = Inr (rs', ?c)"
    using Collect_root [OF assms, of "replicate (plan_size n) 0"] by auto
  moreover have "?c ! idx_of n k = count_list (root_plan self rs) k" if "key_ok n k" for k
    using idx_of_bound [OF that] count_idx [of "root_plan self rs" n k] that root_plan_ok [OF assms(1,2)] by simp
  ultimately show ?thesis by blast
qed

text \<open>
  The children of a dynamic piece are counted with source 255, outside the table of a
  small cluster.
\<close>

lemma add_dynamic_ok:
  "\<forall>d\<in>set ds. BatchBufferIndex n lv src d < length c \<Longrightarrow> \<exists>c'. add_dynamic n lv src ds c = Inr c' \<and> length c' = length c"
proof (induction ds arbitrary: c)
  case (Cons d ds)
  then show ?case using add_cnt_all [of "BatchBufferIndex n lv src d" c 1] Cons.IH [of "count_all [BatchBufferIndex n lv src d] c"] by auto
qed simp

lemma Collect_dynamic_child:
  assumes "node_id h = 255" "node_ok n src" "n \<le> 16" "length c = plan_size n" "node_ok n (unat (node_id g))"
  shows "CollectBufferPlanImpl n 0 src fsrc (PNode h cap [PNode g cap' ks]) c = Inl OutOfBounds"
proof -
  let ?d = "unat (node_id g)"
  have "BatchBufferIndex n 0 src d < length c" if "d \<in> set [1..<n + 1]" for d
    using index_bound [OF assms(2), of d 0] that assms(4) by (auto simp: node_ok_def kPromiseMaxLevels_def)
  then obtain c1 where c1: "add_dynamic n 0 src [1..<n + 1] c = Inr c1" "length c1 = plan_size n"
    using add_dynamic_ok [of "[1..<n + 1]" n 0 src c] assms(4) by auto
  have "16 * n * n = n * n + (15 * n) * n" by (simp add: algebra_simps)
  also have "\<dots> \<le> n * n + 254 * n" using assms(3) by (intro add_left_mono mult_le_mono1) simp
  also have "\<dots> \<le> BatchBufferIndex n 1 255 ?d" using assms(5) by (auto simp: BatchBufferIndex_def node_ok_def)
  finally have "\<not> BatchBufferIndex n 1 255 ?d < length c1" using c1(2) by (simp add: plan_size_def kPromiseMaxLevels_def)
  then have a: "add_cnt (BatchBufferIndex n 1 255 ?d) 1 c1 = Inl OutOfBounds" by (simp add: add_cnt_def rd_def)
  have g: "node_id g \<noteq> 0" "?d < 255" using assms(3,5) by (auto simp: node_ok_def)
  have h: "(255 :: byte) \<noteq> 0" "unat (255 :: byte) = 255" by simp_all
  have g': "(kPromiseMaxLevels \<le> 1) = False" "(node_id g = 0) = False" "(?d < 255) = True" using g by (simp_all add: kPromiseMaxLevels_def)
  have k: "CollectBufferPlanImpl n (0 + 1) 255 fsrc (PNode g cap' ks) c1 = Inl OutOfBounds"
    unfolding CollectBufferPlanImpl.simps(1) [of n "0 + 1" 255 fsrc g cap'] Let_def
    by (simp only: g' if_False if_True a [folded add_0] add_0 a res_bind_simps)
  have kk: "CollectChildren n (0 + 1) 255 fsrc [PNode g cap' ks] c1 = Inl OutOfBounds"
    by (simp only: CollectChildren.simps k res_bind_simps)
  have z: "(kPromiseMaxLevels \<le> 0) = False" "((255 :: byte) = 0) = False" by (simp_all add: kPromiseMaxLevels_def)
  show ?thesis
    unfolding CollectBufferPlanImpl.simps(1) [of n 0 src fsrc h cap] Let_def assms(1)
    by (simp only: z h(2) if_False less_irrefl c1(1) res_bind_simps kk)
qed

section \<open>Flushing the plan\<close>

definition plan_keys :: "nat \<Rightarrow> (nat \<times> nat \<times> nat) list" where
  "plan_keys n = List.product [0..<kPromiseMaxLevels] (List.product [1..<n + 1] [1..<n + 1])"

record plan_state =
  local_batch :: "nat list"
  total_batch :: "nat list"
  batch_completed :: nat
  plan_comp :: int

definition ResetBufferPlan :: "nat \<Rightarrow> plan_state \<Rightarrow> plan_state" where
  "ResetBufferPlan n st = st\<lparr>batch_completed := 0, local_batch := replicate (plan_size n) 0, total_batch := replicate (plan_size n) 0\<rparr>"

definition flush_key :: "nat \<Rightarrow> nat \<Rightarrow> nat list \<Rightarrow> nat \<times> nat \<times> nat \<Rightarrow> plan_state \<Rightarrow> plan_state" where
  "flush_key n self cnts k st =
     (let idx = idx_of n k; counter = cnts ! idx;
          st1 = st\<lparr>local_batch := (local_batch st)[idx := local_batch st ! idx + counter],
                   total_batch := (total_batch st)[idx := total_batch st ! idx + counter]\<rparr>
      in if counter = 0 then st1
         else if snd (snd k) = self then st1\<lparr>plan_comp := completion_Increment (int counter) (plan_comp st1)\<rparr> else st1)"

text \<open>The result is the message (node id, counters) that the last core broadcasts.\<close>

definition FlushBufferPlan :: "nat \<Rightarrow> nat \<Rightarrow> nat \<Rightarrow> nat list \<Rightarrow> plan_state \<Rightarrow> plan_state \<times> (nat \<times> nat list) option" where
  "FlushBufferPlan n self nr_threads cnts st =
     (let st1 = fold (flush_key n self cnts) (plan_keys n) st;
          st2 = st1\<lparr>batch_completed := batch_completed st1 + 1\<rparr>
      in if batch_completed st2 < nr_threads then (st2, None) else (st2, Some (self, local_batch st2)))"

definition receive_key :: "nat \<Rightarrow> nat \<Rightarrow> nat list \<Rightarrow> nat \<times> nat \<times> nat \<Rightarrow> nat list \<times> nat \<Rightarrow> nat list \<times> nat" where
  "receive_key n self cnts k x =
     (let idx = idx_of n k; cnt = cnts ! idx in
      if cnt = 0 then x
      else ((fst x)[idx := fst x ! idx + cnt], if snd (snd k) = self then snd x + cnt else snd x))"

definition UpdateBatchCountersFromReceiver :: "nat \<Rightarrow> nat \<Rightarrow> nat \<times> nat list \<Rightarrow> plan_state \<Rightarrow> (plan_state \<times> nat) res" where
  "UpdateBatchCountersFromReceiver n self msg st =
     (let (tot, total_cnt) = fold (receive_key n self (snd msg)) (plan_keys n) (total_batch st, 0) in
      res_bind (completion_Complete (int kMaxPiecesPerPhase - int total_cnt) (plan_comp st)) (\<lambda>(c, _).
      Inr (st\<lparr>total_batch := tot, plan_comp := c\<rparr>, fst msg)))"

definition CalculateIncomingFromNode :: "nat \<Rightarrow> nat \<Rightarrow> nat \<Rightarrow> plan_state \<Rightarrow> nat" where
  "CalculateIncomingFromNode n self src st = sum_list (map (\<lambda>i. total_batch st ! BatchBufferIndex n i src self) [0..<kPromiseMaxLevels])"

text \<open>The messages of a table for one destination.\<close>

definition planned_for :: "nat \<Rightarrow> nat \<Rightarrow> nat list \<Rightarrow> nat" where
  "planned_for n d cnts = sum_list (map (\<lambda>k. if snd (snd k) = d then cnts ! idx_of n k else 0) (plan_keys n))"

lemma plan_keys_ok: "k \<in> set (plan_keys n) \<longleftrightarrow> key_ok n k"
proof (cases k)
  case (fields l s d)
  show ?thesis unfolding fields plan_keys_def set_product set_upt mem_Sigma_iff atLeastLessThan_iff key_ok_def node_ok_def prod.case by (simp add: less_Suc_eq_le)
qed

lemma plan_keys_distinct: "distinct (plan_keys n)"
  unfolding plan_keys_def by (intro distinct_product distinct_upt)

text \<open>Adding the counters of a table, one key after the other.\<close>

definition add_table :: "nat \<Rightarrow> nat list \<Rightarrow> (nat \<times> nat \<times> nat) list \<Rightarrow> nat list \<Rightarrow> nat list" where
  "add_table n c ks t = fold (\<lambda>k t. t[idx_of n k := t ! idx_of n k + c ! idx_of n k]) ks t"

lemma add_table_length: "length (add_table n c ks t) = length t"
  unfolding add_table_def by (induction ks arbitrary: t) simp_all

lemma add_table_other: "i \<notin> idx_of n ` set ks \<Longrightarrow> add_table n c ks t ! i = t ! i"
  unfolding add_table_def by (induction ks arbitrary: t) simp_all

lemma add_table_Cons: "add_table n c (k # ks) t = add_table n c ks (t[idx_of n k := t ! idx_of n k + c ! idx_of n k])"
  by (simp add: add_table_def)

lemma add_table_nth:
  assumes "\<And>k. k \<in> set ks \<Longrightarrow> key_ok n k" "distinct ks" "length t = plan_size n" "j \<in> set ks"
  shows "add_table n c ks t ! idx_of n j = t ! idx_of n j + c ! idx_of n j"
  using assms
proof (induction ks arbitrary: t)
  case (Cons k ks)
  let ?t = "t[idx_of n k := t ! idx_of n k + c ! idx_of n k]"
  have inj: "idx_of n k = idx_of n i \<Longrightarrow> k = i" if "i \<in> set ks" for i
    using idx_of_inj [OF Cons.prems(1) Cons.prems(1), of k i] that by simp
  have b: "idx_of n k < length t" using idx_of_bound [OF Cons.prems(1), of k] Cons.prems(3) by simp
  show ?case
  proof (cases "j = k")
    case True
    have "idx_of n k \<notin> idx_of n ` set ks" using inj Cons.prems(2) by auto
    then have "add_table n c ks ?t ! idx_of n k = ?t ! idx_of n k" by (rule add_table_other)
    then show ?thesis using True b by (simp add: add_table_Cons)
  next
    case False
    then have j: "j \<in> set ks" using Cons.prems(4) by simp
    then have "idx_of n k \<noteq> idx_of n j" using inj False by blast
    moreover have "add_table n c ks ?t ! idx_of n j = ?t ! idx_of n j + c ! idx_of n j"
      by (rule Cons.IH) (use Cons.prems j in simp_all)
    ultimately show ?thesis by (simp add: add_table_Cons)
  qed
qed simp

lemma flush_fold:
  "fold (flush_key n self cnts) ks st =
     st\<lparr>local_batch := add_table n cnts ks (local_batch st), total_batch := add_table n cnts ks (total_batch st),
        plan_comp := plan_comp st + int (sum_list (map (\<lambda>k. if snd (snd k) = self then cnts ! idx_of n k else 0) ks))\<rparr>"
proof (induction ks arbitrary: st)
  case Nil
  then show ?case by (simp add: add_table_def)
next
  case (Cons k ks)
  have "flush_key n self cnts k st = st\<lparr>local_batch := (local_batch st)[idx_of n k := local_batch st ! idx_of n k + cnts ! idx_of n k],
      total_batch := (total_batch st)[idx_of n k := total_batch st ! idx_of n k + cnts ! idx_of n k],
      plan_comp := plan_comp st + int (if snd (snd k) = self then cnts ! idx_of n k else 0)\<rparr>"
    by (simp add: flush_key_def Let_def completion_Increment_def)
  then show ?case by (simp add: Cons.IH add_table_Cons)
qed

lemma receive_fold:
  "fold (receive_key n self cnts) ks (t, v) =
     (add_table n cnts ks t, v + sum_list (map (\<lambda>k. if snd (snd k) = self then cnts ! idx_of n k else 0) ks))"
proof (induction ks arbitrary: t v)
  case Nil
  then show ?case by (simp add: add_table_def)
next
  case (Cons k ks)
  have "receive_key n self cnts k (t, v) =
      (t[idx_of n k := t ! idx_of n k + cnts ! idx_of n k], v + (if snd (snd k) = self then cnts ! idx_of n k else 0))"
    by (simp add: receive_key_def Let_def)
  then show ?case by (simp add: Cons.IH add_table_Cons)
qed

text \<open>
  A flush of a core adds its table to the two tables of the node, and the pieces planned for
  this node to the completion counter; the last core sends.
\<close>

theorem FlushBufferPlan_adds:
  assumes "length (local_batch st) = plan_size n" "length (total_batch st) = plan_size n"
  shows "(let (st', msg) = FlushBufferPlan n self nr cnts st in
     (\<forall>k. key_ok n k \<longrightarrow> local_batch st' ! idx_of n k = local_batch st ! idx_of n k + cnts ! idx_of n k
        \<and> total_batch st' ! idx_of n k = total_batch st ! idx_of n k + cnts ! idx_of n k)
     \<and> plan_comp st' = plan_comp st + int (planned_for n self cnts)
     \<and> (msg \<noteq> None \<longleftrightarrow> nr \<le> batch_completed st + 1) \<and> (\<forall>m. msg = Some m \<longrightarrow> m = (self, local_batch st')))"
proof -
  have k: "add_table n cnts (plan_keys n) t ! idx_of n k = t ! idx_of n k + cnts ! idx_of n k" if "length t = plan_size n" "key_ok n k" for t k
    using add_table_nth [OF _ plan_keys_distinct that(1), where j = k and c = cnts] that(2) by (simp add: plan_keys_ok)
  show ?thesis using k [OF assms(1)] k [OF assms(2)]
    unfolding FlushBufferPlan_def Let_def flush_fold by (simp add: planned_for_def)
qed

lemma UpdateBatchCounters_eq:
  "UpdateBatchCountersFromReceiver n self msg st =
     res_bind (completion_Complete (int kMaxPiecesPerPhase - int (planned_for n self (snd msg))) (plan_comp st)) (\<lambda>(c, _).
     Inr (st\<lparr>total_batch := add_table n (snd msg) (plan_keys n) (total_batch st), plan_comp := c\<rparr>, fst msg))"
  unfolding UpdateBatchCountersFromReceiver_def receive_fold by (simp add: planned_for_def)

text \<open>
  After the tables of all nodes are added, the pieces expected from a node are those that the
  tables have between the two nodes.
\<close>

lemma CalculateIncoming_add:
  assumes "length (total_batch st) = plan_size n" "node_ok n self" "node_ok n src"
  shows "CalculateIncomingFromNode n self src (st\<lparr>total_batch := add_table n c (plan_keys n) (total_batch st)\<rparr>) =
    CalculateIncomingFromNode n self src st + sum_list (map (\<lambda>i. c ! BatchBufferIndex n i src self) [0..<kPromiseMaxLevels])"
proof -
  have k: "add_table n c (plan_keys n) (total_batch st) ! BatchBufferIndex n i src self = total_batch st ! BatchBufferIndex n i src self + c ! BatchBufferIndex n i src self"
    if "i \<in> set [0..<kPromiseMaxLevels]" for i
    using add_table_nth [OF _ plan_keys_distinct assms(1), where j = "(i, src, self)" and c = c] assms(2,3) that
    by (auto simp: plan_keys_ok key_ok_def idx_of_def)
  show ?thesis unfolding CalculateIncomingFromNode_def using k by (simp add: sum_list_addf [symmetric] del: set_upt cong: map_cong)
qed

end
