(* ===== verification/Sched_Properties.thy ===== *)
theory Sched_Properties
  imports Exec_Routine Buffer_Plan Epoch_Phases
begin

text \<open>
  Properties of the execution of pieces: the queue of a core, the packets in which pieces travel between
  nodes, the counting of the pieces of a phase, and the sequence of phases of an experiment.
\<close>

section \<open>The queue of a core\<close>

definition ex_pieces :: "piece list" where
  "ex_pieces = [\<lparr>piece_id = 1, sched_key = 5\<rparr>, \<lparr>piece_id = 2, sched_key = 0\<rparr>, \<lparr>piece_id = 3, sched_key = 4\<rparr>, \<lparr>piece_id = 4, sched_key = 5\<rparr>]"



text \<open>
  C26. Every look at the queue keeps its invariant, and neither loses nor duplicates a piece or
  a waiting coroutine: what it hands out is exactly what leaves the queue.
\<close>

theorem peek_conserves:
  assumes "sched_inv n q" "Peek n ready f q b = Inr (r, q', b')"
  shows "sched_inv n q' \<and> peek_takes n r q q'"
  using Peek_conserves [OF assms] .

definition ex_waiting :: sched_queue where
  "ex_waiting = (sched_init 4)\<lparr>zq := [\<lparr>piece_id = 7, sched_key = 0\<rparr>, no_piece, no_piece, no_piece], z_end := 1\<rparr>"

lemma ex_waiting_inv: "sched_inv 4 ex_waiting"
  using sched_init_inv [of 4] by (simp add: ex_waiting_def sched_inv_def sched_init_def)

lemma ex_waiting_Peek:
  "\<exists>q'. Peek 4 True (\<lambda>_ _. True) ex_waiting 0 = Inr (Offer_zero \<lparr>piece_id = 7, sched_key = 0\<rparr> True, q', 0)"
  by (simp add: Peek_def ex_waiting_def sched_init_def Let_def)

theorem peek_conserves_witness:
  "\<exists>q'. sched_inv 4 q' \<and> out_pieces 4 ex_waiting = add_mset \<lparr>piece_id = 7, sched_key = 0\<rparr> (out_pieces 4 q')"
proof -
  obtain q' where "Peek 4 True (\<lambda>_ _. True) ex_waiting 0 = Inr (Offer_zero \<lparr>piece_id = 7, sched_key = 0\<rparr> True, q', 0)" using ex_waiting_Peek by blast
  from peek_conserves [OF ex_waiting_inv this] show ?thesis by (auto simp: peek_takes_def)
qed

text \<open>
  C27. The queue hands out in order of priority: a piece with key 0 before all others; a piece with a key only
  if no piece outside has a smaller key and no waiting coroutine a smaller back-off key; a waiting coroutine
  only if it is the first of those that wait and no piece comes before it or the window is full; and it
  reports completions only when nothing is left.
\<close>

theorem peek_by_priority:
  assumes "sched_inv n q" "Peek n ready f q b = Inr (r, q', b')"
  shows "peek_order n r q"
  using Peek_order [OF assms] .

theorem peek_by_priority_witness:
  "zero_pieces ex_waiting \<noteq> [] \<and> hd (zero_pieces ex_waiting) = \<lparr>piece_id = 7, sched_key = 0\<rparr>"
proof -
  obtain q' where "Peek 4 True (\<lambda>_ _. True) ex_waiting 0 = Inr (Offer_zero \<lparr>piece_id = 7, sched_key = 0\<rparr> True, q', 0)" using ex_waiting_Peek by blast
  from peek_by_priority [OF ex_waiting_inv this] show ?thesis by (simp add: peek_order_def)
qed



section \<open>Packets\<close>

text \<open>
  C29. A tree of pieces that is written to a packet of its size is read back from the packet: every header, but
  for the two addresses, every captured byte and every child, in order.
\<close>

theorem packet_is_read_back:
  assumes "piece_ok n" "length buf = NodeSize n"
  shows "\<exists>packet n'. EncodeNode n 0 buf = Inr (packet, NodeSize n) \<and> CreateFromPacket packet = Inr n' \<and> same_piece n n'"
  using packet_round_trip [OF assms] .

definition ex_hdr :: "u32 \<Rightarrow> u8 \<Rightarrow> piece_hdr" where
  "ex_hdr len node = \<lparr>capture_data = 0x7000, capture_len = len, level = 0, node_id = node, hole = 0, hdr_sched_key = 0x100000201, affinity = 3,
     callback = 0x400100, next_coll = 0, fv_signals = 0, future_source_node_id = 0, pad = replicate 14 0\<rparr>"

definition ex_tree :: pnode where
  "ex_tree = PNode (ex_hdr 3 1) [1, 2, 3] [PNode (ex_hdr 0 2) [] [], PNode (ex_hdr 2 1) [8, 9] []]"

lemma ex_tree_ok: "piece_ok ex_tree" "NodeSize ex_tree = 248"
  by (simp_all add: ex_tree_def ex_hdr_def hdr_ok_def sizeof_PieceRoutine_def Align_def)

theorem packet_is_read_back_witness:
  "\<exists>packet n'. EncodeNode ex_tree 0 (replicate 248 0) = Inr (packet, 248) \<and> CreateFromPacket packet = Inr n' \<and> same_piece ex_tree n'"
  using packet_is_read_back [OF ex_tree_ok(1), of "replicate 248 0"] ex_tree_ok(2) by simp



section \<open>Counting the pieces of a phase\<close>



text \<open>
  C32. A thread that hands in its counts adds them to the tables of the node, raises the phase's
  completion counter by the pieces meant for this node, and the last thread, and only
  it, announces the node's table to the others.
\<close>

theorem plan_flush_adds:
  assumes "length (local_batch st) = plan_size n" "length (total_batch st) = plan_size n" "FlushBufferPlan n self nr cnts st = (st', msg)"
  shows "(\<forall>k. key_ok n k \<longrightarrow> local_batch st' ! idx_of n k = local_batch st ! idx_of n k + cnts ! idx_of n k
        \<and> total_batch st' ! idx_of n k = total_batch st ! idx_of n k + cnts ! idx_of n k)
     \<and> plan_comp st' = plan_comp st + int (planned_for n self cnts)
     \<and> (msg \<noteq> None \<longleftrightarrow> nr \<le> batch_completed st + 1) \<and> (\<forall>m. msg = Some m \<longrightarrow> m = (self, local_batch st'))"
  using FlushBufferPlan_adds [OF assms(1,2), of self nr cnts] assms(3) by simp

definition ex_plan :: plan_state where
  "ex_plan = ResetBufferPlan 2 \<lparr>local_batch = [], total_batch = [], batch_completed = 5, plan_comp = 9\<rparr>"

theorem plan_flush_adds_witness:
  "\<exists>st' m. FlushBufferPlan 2 1 1 (replicate (plan_size 2) 3) ex_plan = (st', Some m) \<and> m = (1, local_batch st')"
proof -
  obtain st' msg where f: "FlushBufferPlan 2 1 1 (replicate (plan_size 2) 3) ex_plan = (st', msg)" by (cases "FlushBufferPlan 2 1 1 (replicate (plan_size 2) 3) ex_plan")
  have "length (local_batch ex_plan) = plan_size 2" "length (total_batch ex_plan) = plan_size 2" by (simp_all add: ex_plan_def ResetBufferPlan_def)
  from plan_flush_adds [OF this f] f show ?thesis by auto
qed

text \<open>
  C33. The completion counter reaches zero with the last of the expected completions and not before, and
  a completion too many is an error.
\<close>

theorem completion_reaches_zero:
  assumes "\<forall>d\<in>set ds. 0 < d" "ds \<noteq> []" "0 < d'"
  shows "(\<exists>xs. completes ds (sum_list ds) = Inr (0, xs @ [0]) \<and> length xs + 1 = length ds \<and> (\<forall>x\<in>set xs. 0 < x))
    \<and> completes (ds @ [d']) (sum_list ds) = Inl (Abort ''Completion handler isnt enough!'')"
proof -
  have "0 \<le> sum_list ds" using assms(1) by (intro sum_list_nonneg) (simp add: less_imp_le)
  then show ?thesis using completes_last [OF assms(1) refl assms(2)] completes_too_many [of "ds @ [d']" "sum_list ds"] assms(1,3) by auto
qed

theorem completion_reaches_zero_witness:
  "completes [2, 3, 1] 5 = Inl (Abort ''Completion handler isnt enough!'') \<and> (\<exists>xs. completes [2, 3] 5 = Inr (0, xs @ [0]))"
  using completion_reaches_zero [where ds = "[2, 3]" and d' = 1] by auto

section \<open>Epochs\<close>

text \<open>
  C34. Serial ids order the transactions of the cluster by epoch, then by their position in the
  epoch, then by node.
\<close>

theorem serial_id_order:
  assumes "unat e < 2 ^ 32" "unat s < 2 ^ 24" "n < 2 ^ 8" "unat e' < 2 ^ 32" "unat s' < 2 ^ 24" "n' < 2 ^ 8"
  shows "GenerateSerialId n e s < GenerateSerialId n' e' s' \<longleftrightarrow> e < e' \<or> e = e' \<and> (s < s' \<or> s = s' \<and> n < n')"
  using serial_id_less [OF assms] .

theorem serial_id_order_witness: "GenerateSerialId 2 3 100 < GenerateSerialId 1 3 101 \<and> \<not> GenerateSerialId 2 3 100 < GenerateSerialId 1 3 100"
  using serial_id_order [of 3 100 2 3 101 1] serial_id_order [of 3 100 2 3 100 1] by simp



text \<open>
  C36. No transaction is issued before every thread has made its transactions' state ready, once they all
  have it may be issued, and until then some thread can go on.
\<close>

theorem alloc_barrier:
  assumes "0 < n" "alloc_step\<^sup>*\<^sup>* (alloc_start n) s"
  shows "(may_issue s \<longleftrightarrow> (\<forall>t<n. apcs s ! t = Prepared)) \<and> (\<not> may_issue s \<longrightarrow> (\<exists>s'. alloc_step s s'))"
proof -
  have i: "alloc_inv n s" by (rule alloc_reach_inv [OF assms(2,1)])
  show ?thesis using may_issue_prepared [OF i] prepared_may_issue [OF i] alloc_not_stuck [OF i] by blast
qed

theorem alloc_barrier_witness: "\<not> may_issue (alloc_start 3) \<and> (\<exists>s'. alloc_step (alloc_start 3) s')"
  using alloc_barrier [where n = 3 and s = "alloc_start 3"] by (simp add: may_issue_def alloc_start_def)


definition ex_conf :: epoch_conf where
  "ex_conf = \<lparr>ec_node_id = 1, ec_nr_nodes = 1, ec_threads = 8, ec_max_epoch = 3, ec_batch_append = False, ec_splitting = False, ec_binpack = False,
     ec_core_scaling = False, ec_autotune = False, ec_migration = False, ec_scaling_threshold = 0\<rparr>"




end
