(* ===== verification/Flushable.thy ===== *)
theory Flushable
  imports Lower_Bound
begin

text \<open>
  The class template \<open>Flushable\<close> of \<^verbatim>\<open>src/node_config.h\<close>: \<open>Flush\<close> goes over the buffers of all threads
  until each of them was flushed once. The operation of the class that is flushed is an
  argument; whether \<open>TryLock\<close> succeeds for a thread is given for each pass. The interface \<open>flushable\<close> is what
  the loop needs of the class, and shows that \<open>Flush\<close> returns and empties all buffers.
\<close>

section \<open>The loop\<close>

fun flush_pass :: "(bool \<Rightarrow> nat \<Rightarrow> 's \<Rightarrow> ('s \<times> bool \<times> bool) res) \<Rightarrow> (nat \<Rightarrow> bool) \<Rightarrow> nat list \<Rightarrow> bool list \<times> bool \<Rightarrow> 's \<Rightarrow> ('s \<times> bool list \<times> bool) res" where
  "flush_pass try_flush locks [] fl s = Inr (s, fl)"
| "flush_pass try_flush locks (i # is) (flushed, need) s =
     (if flushed ! i then flush_pass try_flush locks is (flushed, need) s
      else res_bind (try_flush (locks i) i s) (\<lambda>(s', success, did).
           flush_pass try_flush locks is (if success then (flushed[i := True], need \<or> did) else (flushed, need)) s'))"

fun flush_passes :: "(bool \<Rightarrow> nat \<Rightarrow> 's \<Rightarrow> ('s \<times> bool \<times> bool) res) \<Rightarrow> nat \<Rightarrow> (nat \<Rightarrow> bool) list \<Rightarrow> bool list \<times> bool \<Rightarrow> 's \<Rightarrow> ('s \<times> bool) res option" where
  "flush_passes try_flush nr passes (flushed, need) s =
     (if \<not> length (filter id flushed) < nr + 1 then Some (Inr (s, need))
      else
        case passes of
          [] \<Rightarrow> None
        | locks # rest \<Rightarrow>
            (case flush_pass try_flush locks [0..<nr + 1] (flushed, need) s of
               Inl e \<Rightarrow> Some (Inl e)
             | Inr (s', fl) \<Rightarrow> flush_passes try_flush nr rest fl s'))"

text \<open>\<open>Flush\<close> up to the call of \<open>DoFlush\<close>, which is made when the result says that something was flushed.\<close>

definition Flush :: "(bool \<Rightarrow> nat \<Rightarrow> 's \<Rightarrow> ('s \<times> bool \<times> bool) res) \<Rightarrow> nat \<Rightarrow> (nat \<Rightarrow> bool) list \<Rightarrow> 's \<Rightarrow> ('s \<times> bool) res option" where
  "Flush try_flush nr passes s = flush_passes try_flush nr passes (replicate (nr + 1) False, False) s"

lemma all_flushed: "length flushed = nr + 1 \<Longrightarrow> \<not> length (filter id flushed) < nr + 1 \<longleftrightarrow> (\<forall>i\<le>nr. flushed ! i)"
proof -
  assume l: "length flushed = nr + 1"
  have "\<not> length (filter id flushed) < length flushed \<longleftrightarrow> (\<forall>x\<in>set flushed. id x)"
    using length_filter_less [of _ flushed id] by (metis filter_id_conv less_irrefl)
  also have "\<dots> \<longleftrightarrow> (\<forall>i\<le>nr. flushed ! i)" using l by (auto simp: all_set_conv_all_nth less_Suc_eq_le)
  finally show ?thesis using l by simp
qed

section \<open>The interface\<close>

locale flushable =
  fixes try_flush :: "bool \<Rightarrow> nat \<Rightarrow> 's \<Rightarrow> ('s \<times> bool \<times> bool) res"
    and nr :: nat
    and inv :: "'s \<Rightarrow> bool"
    and drained :: "nat \<Rightarrow> 's \<Rightarrow> bool"
    and eff :: "'s \<Rightarrow> 's \<Rightarrow> bool"
  assumes eff_refl: "inv s \<Longrightarrow> eff s s"
    and eff_trans: "eff s s1 \<Longrightarrow> eff s1 s2 \<Longrightarrow> eff s s2"
    and try_law: "inv s \<Longrightarrow> i \<le> nr \<Longrightarrow> \<exists>s' did. try_flush locked i s = Inr (s', locked, did) \<and> inv s' \<and> eff s s'
      \<and> (locked \<longrightarrow> drained i s') \<and> (\<forall>j\<le>nr. drained j s \<longrightarrow> drained j s')"
begin

definition emptied :: "bool list \<Rightarrow> 's \<Rightarrow> bool" where
  "emptied flushed s \<longleftrightarrow> (\<forall>j\<le>nr. flushed ! j \<longrightarrow> drained j s)"

lemma flush_pass_effect:
  assumes "inv s" "\<forall>i\<in>set is. i \<le> nr" "length flushed = nr + 1" "emptied flushed s"
  shows "\<exists>s' flushed' need'. flush_pass try_flush locks is (flushed, need) s = Inr (s', flushed', need') \<and> inv s' \<and> eff s s'
    \<and> length flushed' = nr + 1 \<and> emptied flushed' s' \<and> (\<forall>i\<le>nr. flushed' ! i \<longleftrightarrow> flushed ! i \<or> i \<in> set is \<and> locks i)"
  using assms
proof (induction "is" arbitrary: flushed need s)
  case Nil
  then show ?case by (simp add: eff_refl)
next
  case (Cons i "is")
  have isn: "\<forall>i\<in>set is. i \<le> nr" "i \<le> nr" using Cons.prems(2) by simp_all
  show ?case
  proof (cases "flushed ! i")
    case True
    from Cons.IH [OF Cons.prems(1) isn(1) Cons.prems(3,4), of need] True show ?thesis by auto
  next
    case False
    obtain s1 did where t: "try_flush (locks i) i s = Inr (s1, locks i, did)" "inv s1" "eff s s1" "locks i \<longrightarrow> drained i s1"
      "\<forall>j\<le>nr. drained j s \<longrightarrow> drained j s1" using try_law [OF Cons.prems(1) isn(2), of "locks i"] by blast
    let ?f = "if locks i then (flushed[i := True], need \<or> did) else (flushed, need)"
    have f: "fst ?f ! j \<longleftrightarrow> flushed ! j \<or> j = i \<and> locks i" if "j \<le> nr" for j
      using that Cons.prems(3) by (cases "j = i") auto
    have e: "emptied (fst ?f) s1" unfolding emptied_def
    proof (intro allI impI)
      fix j assume j: "j \<le> nr" "fst ?f ! j"
      then show "drained j s1" using f [OF j(1)] t(4,5) Cons.prems(4) by (auto simp: emptied_def)
    qed
    have l: "length (fst ?f) = nr + 1" using Cons.prems(3) by simp
    from Cons.IH [OF t(2) isn(1) l e, of "snd ?f"]
    obtain s' flushed' need' where r: "flush_pass try_flush locks is ?f s1 = Inr (s', flushed', need')" "inv s'" "eff s1 s'"
      "length flushed' = nr + 1" "emptied flushed' s'" "\<forall>j\<le>nr. flushed' ! j \<longleftrightarrow> fst ?f ! j \<or> j \<in> set is \<and> locks j" by auto
    have "flush_pass try_flush locks (i # is) (flushed, need) s = Inr (s', flushed', need')" using False t(1) r(1) by simp
    moreover have "\<forall>j\<le>nr. flushed' ! j \<longleftrightarrow> flushed ! j \<or> j \<in> set (i # is) \<and> locks j" using r(6) f by auto
    ultimately show ?thesis using r(2,4,5) eff_trans [OF t(3) r(3)] by blast
  qed
qed

lemma flush_passes_effect:
  assumes "inv s" "length flushed = nr + 1" "emptied flushed s" "\<forall>i\<le>nr. flushed ! i \<or> (\<exists>locks\<in>set passes. locks i)"
  shows "\<exists>s' need'. flush_passes try_flush nr passes (flushed, need) s = Some (Inr (s', need')) \<and> inv s' \<and> eff s s' \<and> (\<forall>i\<le>nr. drained i s')"
  using assms
proof (induction passes arbitrary: flushed need s)
  case Nil
  then have "\<forall>i\<le>nr. flushed ! i" by simp
  then show ?case using Nil all_flushed [OF Nil(2)] by (auto simp: eff_refl emptied_def)
next
  case (Cons locks passes)
  show ?case
  proof (cases "\<forall>i\<le>nr. flushed ! i")
    case True
    then show ?thesis using Cons.prems(1-3) all_flushed [OF Cons.prems(2)] by (auto simp: eff_refl emptied_def)
  next
    case False
    have "\<forall>i\<in>set [0..<nr + 1]. i \<le> nr" by auto
    from flush_pass_effect [OF Cons.prems(1) this Cons.prems(2,3), of locks need]
    obtain s1 f1 n1 where p: "flush_pass try_flush locks [0..<nr + 1] (flushed, need) s = Inr (s1, f1, n1)" "inv s1" "eff s s1" "length f1 = nr + 1"
      "emptied f1 s1" "\<forall>i\<le>nr. f1 ! i \<longleftrightarrow> flushed ! i \<or> i \<in> set [0..<nr + 1] \<and> locks i" by blast
    have "\<forall>i\<le>nr. f1 ! i \<or> (\<exists>locks\<in>set passes. locks i)" using p(6) Cons.prems(4) by (auto simp: less_Suc_eq_le)
    from Cons.IH [OF p(2,4,5) this, of n1]
    obtain s' need' where r: "flush_passes try_flush nr passes (f1, n1) s1 = Some (Inr (s', need'))" "inv s'" "eff s1 s'" "\<forall>i\<le>nr. drained i s'" by blast
    have "length (filter id flushed) < nr + 1" using False all_flushed [OF Cons.prems(2)] by blast
    then have "flush_passes try_flush nr (locks # passes) (flushed, need) s = Some (Inr (s', need'))" using p(1) r(1) by (simp del: upt_Suc)
    then show ?thesis using r(2,4) eff_trans [OF p(3) r(3)] by blast
  qed
qed

lemma Flush_drains:
  assumes "inv s" "\<forall>i\<le>nr. \<exists>locks\<in>set passes. locks i"
  shows "\<exists>s' need. Flush try_flush nr passes s = Some (Inr (s', need)) \<and> inv s' \<and> eff s s' \<and> (\<forall>i\<le>nr. drained i s')"
proof -
  have "emptied (replicate (nr + 1) False) s" by (simp add: emptied_def less_Suc_eq_le del: replicate_Suc)
  with flush_passes_effect [OF assms(1), of "replicate (nr + 1) False" passes False] assms(2) show ?thesis
    unfolding Flush_def by auto
qed

end

end
