(* ===== verification/Local_Dispatch.thy ===== *)
theory Local_Dispatch
  imports Exec_Routine Flushable
begin

text \<open>
  The local dispatcher of \<^verbatim>\<open>src/node_config.cc\<close> (\<open>LocalDispatcherImpl\<close> with its base \<open>Flushable\<close>): every
  thread appends the pieces it issues to a buffer of its own, and flushing a buffer hands them to the
  cores' queues. The calls of the dispatch service's \<open>Add\<close> are recorded in order in
  \<open>submitted\<close>. A thread that holds the lock of a buffer runs to its release in one step;
  whether \<open>TryLock\<close> succeeds is an argument.
\<close>

section \<open>State\<close>

definition kBufferSize :: nat where "kBufferSize = 16383"

record dpiece =
  dp_piece :: piece
  dp_affinity :: u64

record dqueue =
  dbuf :: "dpiece list"
  append_start :: nat
  flusher_start :: nat
  need_scan :: bool

record dispatcher =
  dqueues :: "dqueue list"
  ddice :: u64
  submitted :: "(nat \<times> dpiece list) list"

definition no_dpiece :: dpiece where "no_dpiece = \<lparr>dp_piece = no_piece, dp_affinity = 0\<rparr>"

definition LocalDispatcherImpl :: "nat \<Rightarrow> dispatcher" where
  "LocalDispatcherImpl nr = \<lparr>dqueues = replicate (nr + 1) \<lparr>dbuf = replicate kBufferSize no_dpiece, append_start = 0, flusher_start = 0, need_scan = False\<rparr>,
     ddice = 0, submitted = []\<rparr>"

section \<open>Operations\<close>

definition SubmitOnCore :: "nat \<Rightarrow> dpiece list \<Rightarrow> nat \<Rightarrow> nat \<Rightarrow> nat \<Rightarrow> dispatcher \<Rightarrow> dispatcher res" where
  "SubmitOnCore nr rs a b thread d =
     (if a = b then Inr d
      else if thread = 0 \<or> thread > nr then Inl (Abort ''thread is invalid'')
      else Inr (d\<lparr>submitted := submitted d @ [(thread - 1, slice rs a b)]\<rparr>))"

definition dispatch_core :: "nat \<Rightarrow> u64 \<Rightarrow> nat \<Rightarrow> dpiece \<Rightarrow> nat" where
  "dispatch_core nr delta k r = (if unat (dp_affinity r) < nr then unat (dp_affinity r) else unat (delta + of_nat k) mod nr)"

fun scan_loop :: "nat \<Rightarrow> u64 \<Rightarrow> nat \<Rightarrow> dpiece list \<Rightarrow> dpiece list list \<Rightarrow> dpiece list list res" where
  "scan_loop nr delta k [] tb = Inr tb"
| "scan_loop nr delta k (r # rs) tb =
     (let core = dispatch_core nr delta k r in
      if length (tb ! core) < kBufferSize then scan_loop nr delta (k + 1) rs (tb[core := tb ! core @ [r]])
      else Inl OutOfBounds)"

fun submit_all :: "nat \<Rightarrow> nat list \<Rightarrow> dpiece list list \<Rightarrow> dispatcher \<Rightarrow> dispatcher res" where
  "submit_all nr [] tb d = Inr d"
| "submit_all nr (i # is) tb d = res_bind (SubmitOnCore nr (tb ! i) 0 (length (tb ! i)) (i + 1) d) (submit_all nr is tb)"

definition FlushOnCore :: "nat \<Rightarrow> nat \<Rightarrow> nat \<Rightarrow> nat \<Rightarrow> dispatcher \<Rightarrow> dispatcher res" where
  "FlushOnCore nr tid a b d =
     (if a = b then Inr d
      else
        let q = dqueues d ! tid in
        if \<not> need_scan q then SubmitOnCore nr (dbuf q) a b tid d
        else
          let delta = ddice d; d1 = d\<lparr>ddice := ddice d + of_nat ((b - a) mod nr)\<rparr> in
          res_bind (scan_loop nr delta 0 (slice (dbuf q) a b) (replicate nr [])) (\<lambda>tb. submit_all nr [0..<nr] tb d1))"

definition PushRelease :: "nat \<Rightarrow> nat \<Rightarrow> nat \<Rightarrow> nat \<Rightarrow> dispatcher \<Rightarrow> (dispatcher \<times> bool) res" where
  "PushRelease nr tid a b d = res_bind (FlushOnCore nr tid a b d) (\<lambda>d'. Inr (d', b > a))"

definition set_queue :: "nat \<Rightarrow> dqueue \<Rightarrow> dispatcher \<Rightarrow> dispatcher" where
  "set_queue tid q d = d\<lparr>dqueues := (dqueues d)[tid := q]\<rparr>"

definition with_affinity :: "nat \<Rightarrow> dpiece \<Rightarrow> dpiece" where
  "with_affinity tid r = (if dp_affinity r = -1 then r\<lparr>dp_affinity := of_nat tid - 1\<rparr> else r)"

definition QueueRoutine :: "nat \<Rightarrow> nat \<Rightarrow> dpiece \<Rightarrow> dispatcher \<Rightarrow> dispatcher res" where
  "QueueRoutine nr tid r0 d =
     (let q = dqueues d ! tid; pos = append_start q; r = with_affinity tid r0 in
      res_bind (wr (dbuf q) pos r) (\<lambda>buf.
      let q1 = q\<lparr>dbuf := buf, need_scan := (need_scan q \<or> of_nat tid \<noteq> dp_affinity r + 1 \<or> tid = 0), append_start := pos + 1\<rparr> in
      if pos = kBufferSize - 1 then
        res_bind (PushRelease nr tid (flusher_start q1) (append_start q1)
          (set_queue tid (q1\<lparr>flusher_start := 0, append_start := 0\<rparr>) d)) (\<lambda>(d', _).
        Inr (set_queue tid ((dqueues d' ! tid)\<lparr>need_scan := False\<rparr>) d'))
      else Inr (set_queue tid q1 d)))"

definition TryFlushForThread :: "nat \<Rightarrow> bool \<Rightarrow> nat \<Rightarrow> dispatcher \<Rightarrow> (dispatcher \<times> bool \<times> bool) res" where
  "TryFlushForThread nr locked i d =
     (if \<not> locked then Inr (d, False, False)
      else
        let q = dqueues d ! i in
        res_bind (PushRelease nr i (flusher_start q) (append_start q) (set_queue i (q\<lparr>flusher_start := append_start q\<rparr>) d)) (\<lambda>(d', did).
        Inr (d', True, did)))"

section \<open>What a flush submits\<close>

definition dispatched :: "nat \<Rightarrow> u64 \<Rightarrow> dpiece list \<Rightarrow> nat \<Rightarrow> dpiece list" where
  "dispatched nr delta rs c = map snd (filter (\<lambda>(k, r). dispatch_core nr delta k r = c) (enumerate 0 rs))"

lemma dispatch_core_less: "0 < nr \<Longrightarrow> dispatch_core nr delta k r < nr"
  by (simp add: dispatch_core_def)

lemma scan_loop_spec:
  assumes "0 < nr" "length tb = nr" "\<forall>c<nr. length (tb ! c) + length rs \<le> kBufferSize"
  shows "\<exists>tb'. scan_loop nr delta k rs tb = Inr tb' \<and> length tb' = nr
    \<and> (\<forall>c<nr. tb' ! c = tb ! c @ map snd (filter (\<lambda>(k, r). dispatch_core nr delta k r = c) (enumerate k rs)))"
  using assms
proof (induction rs arbitrary: k tb)
  case (Cons r rs)
  let ?c = "dispatch_core nr delta k r" and ?tb = "tb[dispatch_core nr delta k r := tb ! dispatch_core nr delta k r @ [r]]"
  have c: "?c < nr" by (rule dispatch_core_less [OF Cons.prems(1)])
  have "length (tb ! ?c) < kBufferSize" using Cons.prems(3) c by fastforce
  moreover have "\<forall>c<nr. length (?tb ! c) + length rs \<le> kBufferSize" using Cons.prems(2,3) c by (auto simp: nth_list_update Suc_le_eq)
  then obtain tb' where "scan_loop nr delta (k + 1) rs ?tb = Inr tb'" "length tb' = nr"
    "\<forall>c<nr. tb' ! c = ?tb ! c @ map snd (filter (\<lambda>(k, r). dispatch_core nr delta k r = c) (enumerate (k + 1) rs))"
    using Cons.IH [of ?tb "k + 1"] Cons.prems(1,2) by auto
  ultimately show ?case using Cons.prems(2) c by (auto simp: nth_list_update Let_def)
qed simp

lemma submit_all_spec:
  "\<forall>i\<in>set is. i < nr \<Longrightarrow> submit_all nr is tb d =
     Inr (d\<lparr>submitted := submitted d @ map (\<lambda>i. (i, tb ! i)) (filter (\<lambda>i. tb ! i \<noteq> []) is)\<rparr>)"
proof (induction "is" arbitrary: d)
  case (Cons i "is")
  show ?case using Cons by (cases "tb ! i = []") (auto simp: SubmitOnCore_def)
qed simp

lemma FlushOnCore_scan:
  assumes "0 < nr" "need_scan (dqueues d ! tid)" "a < b" "b \<le> kBufferSize" "length (dbuf (dqueues d ! tid)) = kBufferSize"
  shows "FlushOnCore nr tid a b d = Inr (d\<lparr>ddice := ddice d + of_nat ((b - a) mod nr),
    submitted := submitted d @ map (\<lambda>c. (c, dispatched nr (ddice d) (slice (dbuf (dqueues d ! tid)) a b) c))
      (filter (\<lambda>c. dispatched nr (ddice d) (slice (dbuf (dqueues d ! tid)) a b) c \<noteq> []) [0..<nr])\<rparr>)"
proof -
  let ?s = "slice (dbuf (dqueues d ! tid)) a b"
  have "\<forall>c<nr. length (replicate nr [] ! c) + length ?s \<le> kBufferSize" using assms(3-5) by (simp add: le_diff_conv)
  then obtain tb where tb: "scan_loop nr (ddice d) 0 ?s (replicate nr []) = Inr tb" "\<forall>c<nr. tb ! c = dispatched nr (ddice d) ?s c"
    using scan_loop_spec [OF assms(1), of "replicate nr []" ?s "ddice d" 0] by (auto simp: dispatched_def)
  have e: "map (\<lambda>i. (i, tb ! i)) (filter (\<lambda>i. tb ! i \<noteq> []) [0..<nr]) =
      map (\<lambda>c. (c, dispatched nr (ddice d) ?s c)) (filter (\<lambda>c. dispatched nr (ddice d) ?s c \<noteq> []) [0..<nr])"
    using tb(2) by (auto intro!: map_cong filter_cong)
  show ?thesis using assms(2,3) tb(1) e by (simp add: FlushOnCore_def Let_def submit_all_spec del: map_eq_conv)
qed

lemma mset_partition:
  "\<forall>x\<in>set xs. f x < n \<Longrightarrow> mset (concat (map (\<lambda>c. filter (\<lambda>x. f x = c) xs) [0..<n])) = mset xs"
proof (induction xs)
  case (Cons x xs)
  have "mset (concat (map (\<lambda>c. filter (\<lambda>y. f y = c) (x # xs)) [0..<n])) =
      (\<Sum>c<n. (if f x = c then {#x#} else {#}) + mset (filter (\<lambda>y. f y = c) xs))"
    by (simp add: mset_concat sum_list_sum_nth atLeast0LessThan comp_def) (rule sum.cong, auto)
  also have "\<dots> = {#x#} + mset (concat (map (\<lambda>c. filter (\<lambda>y. f y = c) xs) [0..<n]))"
    using Cons.prems by (simp add: sum.distrib mset_concat sum_list_sum_nth atLeast0LessThan comp_def)
  finally show ?case using Cons by simp
qed simp

lemma dispatched_all: "0 < nr \<Longrightarrow> mset (concat (map (dispatched nr delta rs) [0..<nr])) = mset rs"
proof -
  assume nr: "0 < nr"
  let ?f = "\<lambda>p. dispatch_core nr delta (fst p) (snd p)"
  have "mset (concat (map (\<lambda>c. filter (\<lambda>p. ?f p = c) (enumerate 0 rs)) [0..<nr])) = mset (enumerate 0 rs)"
    by (rule mset_partition) (simp add: dispatch_core_less [OF nr])
  from arg_cong [OF this, of "image_mset snd"] have "mset (map snd (concat (map (\<lambda>c. filter (\<lambda>p. ?f p = c) (enumerate 0 rs)) [0..<nr]))) = mset rs"
    by (metis mset_map map_snd_enumerate)
  then show ?thesis by (simp add: dispatched_def [abs_def] map_concat comp_def case_prod_unfold)
qed

section \<open>Nothing is lost\<close>

definition unflushed :: "dqueue \<Rightarrow> dpiece list" where
  "unflushed q = slice (dbuf q) (flusher_start q) (append_start q)"

definition queue_ok :: "nat \<Rightarrow> dqueue \<Rightarrow> bool" where
  "queue_ok tid q \<longleftrightarrow> length (dbuf q) = kBufferSize \<and> flusher_start q \<le> append_start q \<and> append_start q < kBufferSize
     \<and> (\<not> need_scan q \<longrightarrow> (\<forall>r\<in>set (unflushed q). 0 < tid \<and> dp_affinity r + 1 = of_nat tid))"

definition disp_inv :: "nat \<Rightarrow> dispatcher \<Rightarrow> bool" where
  "disp_inv nr d \<longleftrightarrow> 0 < nr \<and> nr \<le> 32 \<and> length (dqueues d) = nr + 1 \<and> (\<forall>tid\<le>nr. queue_ok tid (dqueues d ! tid))"

definition placed :: "nat \<Rightarrow> nat \<times> dpiece list \<Rightarrow> bool" where
  "placed nr s \<longleftrightarrow> fst s < nr \<and> (\<forall>r\<in>set (snd s). unat (dp_affinity r) < nr \<longrightarrow> unat (dp_affinity r) = fst s)"

definition held :: "dispatcher \<Rightarrow> dpiece multiset" where
  "held d = (\<Sum>q\<leftarrow>dqueues d. mset (unflushed q))"

definition handed :: "dispatcher \<Rightarrow> dpiece multiset" where
  "handed d = mset (concat (map snd (submitted d)))"

definition flushes :: "nat \<Rightarrow> dpiece list \<Rightarrow> dispatcher \<Rightarrow> dispatcher \<Rightarrow> bool" where
  "flushes nr rs d d' \<longleftrightarrow> dqueues d' = dqueues d \<and> (\<exists>subs. submitted d' = submitted d @ subs \<and> (\<forall>s\<in>set subs. placed nr s)
     \<and> mset (concat (map snd subs)) = mset rs)"

lemma aff_self: "0 < tid \<Longrightarrow> tid \<le> 32 \<Longrightarrow> (a :: u64) + 1 = of_nat tid \<Longrightarrow> unat a = tid - 1"
proof -
  assume t: "0 < tid" "tid \<le> 32" "a + 1 = of_nat tid"
  have "a = of_nat tid - 1" using t(3) by (metis add_diff_cancel_right')
  also have "\<dots> = of_nat (tid - 1)" using t(1) by (simp add: of_nat_diff)
  finally show ?thesis using t(2) by (simp add: unat_of_nat)
qed

lemma FlushOnCore_ok:
  assumes nr: "0 < nr" "nr \<le> 32" "tid \<le> nr" and q: "length (dbuf (dqueues d ! tid)) = kBufferSize" "a \<le> b" "b \<le> kBufferSize"
    and self: "\<not> need_scan (dqueues d ! tid) \<Longrightarrow> \<forall>r\<in>set (slice (dbuf (dqueues d ! tid)) a b). 0 < tid \<and> dp_affinity r + 1 = of_nat tid"
  shows "\<exists>d'. FlushOnCore nr tid a b d = Inr d' \<and> flushes nr (slice (dbuf (dqueues d ! tid)) a b) d d'"
proof -
  let ?s = "slice (dbuf (dqueues d ! tid)) a b"
  consider (none) "a = b" | (own) "a < b" "\<not> need_scan (dqueues d ! tid)" | (scan) "a < b" "need_scan (dqueues d ! tid)" using q(2) by fastforce
  then show ?thesis
  proof cases
    case none
    then show ?thesis by (simp add: FlushOnCore_def flushes_def slice_def)
  next
    case own
    have "?s \<noteq> []" using own(1) q by (auto simp: slice_def)
    then obtain r where "r \<in> set ?s" by (cases ?s) auto
    then have t: "0 < tid" using self [OF own(2)] by blast
    have "placed nr (tid - 1, ?s)" using self [OF own(2)] t nr(2,3) aff_self by (auto simp: placed_def)
    then show ?thesis using own t nr(3) by (auto simp: FlushOnCore_def SubmitOnCore_def flushes_def)
  next
    case scan
    let ?d = "dispatched nr (ddice d) ?s"
    have "concat (map ?d (filter (\<lambda>c. ?d c \<noteq> []) cs)) = concat (map ?d cs)" for cs by (induction cs) auto
    then have m: "mset (concat (map snd (map (\<lambda>c. (c, ?d c)) (filter (\<lambda>c. ?d c \<noteq> []) [0..<nr])))) = mset ?s"
      using dispatched_all [OF nr(1), of "ddice d" ?s] by (simp add: comp_def)
    have "placed nr (c, ?d c)" if "c < nr" for c using that by (auto simp: placed_def dispatched_def dispatch_core_def)
    then show ?thesis using FlushOnCore_scan [OF nr(1) scan(2,1) q(3,1)] m by (auto simp: flushes_def)
  qed
qed

lemma held_update: "tid < length (dqueues d) \<Longrightarrow> held (set_queue tid q d) + mset (unflushed (dqueues d ! tid)) = held d + mset (unflushed q)"
proof -
  have "tid < length qs \<Longrightarrow> (\<Sum>q\<leftarrow>qs[tid := q]. mset (unflushed q)) + mset (unflushed (qs ! tid)) = (\<Sum>q\<leftarrow>qs. mset (unflushed q)) + mset (unflushed q)" for qs
  proof (induction qs arbitrary: tid)
    case (Cons p qs)
    then show ?case by (cases tid) (auto simp: ac_simps)
  qed simp
  then show "tid < length (dqueues d) \<Longrightarrow> ?thesis" by (simp add: held_def set_queue_def)
qed

lemma handed_flushes: "flushes nr rs d d' \<Longrightarrow> handed d' = handed d + mset rs \<and> held d' = held d"
  by (auto simp: flushes_def handed_def held_def)

lemma set_queue_simps [simp]: "submitted (set_queue t q d) = submitted d" "handed (set_queue t q d) = handed d" "dqueues (set_queue t q d) = (dqueues d)[t := q]"
  "ddice (set_queue t q d) = ddice d"
  by (simp_all add: set_queue_def handed_def)

lemma disp_inv_set: "disp_inv nr d \<Longrightarrow> (tid \<le> nr \<Longrightarrow> queue_ok tid q) \<Longrightarrow> disp_inv nr (set_queue tid q d)"
  by (cases "tid \<le> nr") (auto simp: disp_inv_def nth_list_update less_Suc_eq_le)

lemma disp_inv_flushes: "disp_inv nr d \<Longrightarrow> flushes nr rs d d' \<Longrightarrow> disp_inv nr d'"
  by (simp add: disp_inv_def flushes_def)

lemma LocalDispatcher_init: "0 < nr \<Longrightarrow> nr \<le> 32 \<Longrightarrow> disp_inv nr (LocalDispatcherImpl nr) \<and> held (LocalDispatcherImpl nr) = {#} \<and> submitted (LocalDispatcherImpl nr) = []"
proof -
  have "sum_list (replicate n {#}) = {#}" for n by (induction n) simp_all
  then show "0 < nr \<Longrightarrow> nr \<le> 32 \<Longrightarrow> ?thesis"
    by (auto simp: disp_inv_def LocalDispatcherImpl_def queue_ok_def held_def unflushed_def slice_def kBufferSize_def simp del: replicate_Suc)
qed

text \<open>The effect of an operation: it hands out correctly placed pieces and conserves the pieces, but for those that it adds.\<close>

definition disp_effect :: "nat \<Rightarrow> dpiece multiset \<Rightarrow> dispatcher \<Rightarrow> dispatcher \<Rightarrow> bool" where
  "disp_effect nr new d d' \<longleftrightarrow> disp_inv nr d' \<and> held d' + handed d' = held d + handed d + new
     \<and> (\<exists>subs. submitted d' = submitted d @ subs \<and> (\<forall>s\<in>set subs. placed nr s))"

theorem TryFlush_effect:
  assumes inv: "disp_inv nr d" and i: "i \<le> nr"
  shows "\<exists>d' did. TryFlushForThread nr locked i d = Inr (d', locked, did) \<and> disp_effect nr {#} d d'
    \<and> (locked \<longrightarrow> unflushed (dqueues d' ! i) = [] \<and> (\<forall>j. j \<noteq> i \<longrightarrow> dqueues d' ! j = dqueues d ! j)
       \<and> did = (unflushed (dqueues d ! i) \<noteq> []))"
proof (cases locked)
  case False
  then show ?thesis using inv by (auto simp: TryFlushForThread_def disp_effect_def)
next
  case True
  let ?q = "dqueues d ! i"
  let ?q1 = "?q\<lparr>flusher_start := append_start ?q\<rparr>"
  let ?d1 = "set_queue i ?q1 d"
  have I: "0 < nr" "nr \<le> 32" "i < length (dqueues d)" "queue_ok i ?q" using inv i by (auto simp: disp_inv_def)
  have qk: "length (dbuf ?q) = kBufferSize" "flusher_start ?q \<le> append_start ?q" "append_start ?q < kBufferSize" using I(4) by (simp_all add: queue_ok_def)
  have u: "unflushed ?q1 = []" by (simp add: unflushed_def slice_def)
  have "queue_ok i ?q1" using qk u by (simp add: queue_ok_def)
  then have i1: "disp_inv nr ?d1" by (intro disp_inv_set [OF inv])
  have n1: "dqueues ?d1 ! i = ?q1" using I(3) by simp
  obtain d' where f: "FlushOnCore nr i (flusher_start ?q) (append_start ?q) ?d1 = Inr d'" "flushes nr (unflushed ?q) ?d1 d'"
    using FlushOnCore_ok [OF I(1,2) i, of ?d1 "flusher_start ?q" "append_start ?q"] qk I(4) n1 by (auto simp: unflushed_def queue_ok_def)
  have h: "held ?d1 + mset (unflushed ?q) = held d" using held_update [OF I(3), of ?q1] u by simp
  have "disp_effect nr {#} d d'"
    using disp_inv_flushes [OF i1 f(2)] handed_flushes [OF f(2)] h f(2) by (auto simp: disp_effect_def flushes_def ac_simps)
  moreover have "dqueues d' = (dqueues d)[i := ?q1]" using f(2) by (simp add: flushes_def)
  moreover have "flusher_start ?q < append_start ?q \<longleftrightarrow> unflushed ?q \<noteq> []" using qk by (auto simp: unflushed_def slice_def)
  ultimately show ?thesis using True f(1) u I(3) by (auto simp: TryFlushForThread_def PushRelease_def Let_def)
qed

theorem QueueRoutine_effect:
  assumes inv: "disp_inv nr d" and i: "tid \<le> nr"
  shows "\<exists>d'. QueueRoutine nr tid r d = Inr d' \<and> disp_effect nr {#with_affinity tid r#} d d'"
proof -
  let ?q = "dqueues d ! tid" and ?r = "with_affinity tid r"
  have I: "0 < nr" "nr \<le> 32" "tid < length (dqueues d)" "queue_ok tid ?q" using inv i by (auto simp: disp_inv_def)
  have qk: "length (dbuf ?q) = kBufferSize" "flusher_start ?q \<le> append_start ?q" "append_start ?q < kBufferSize" using I(4) by (simp_all add: queue_ok_def)
  define q1 where "q1 = ?q\<lparr>dbuf := (dbuf ?q)[append_start ?q := ?r], need_scan := (need_scan ?q \<or> of_nat tid \<noteq> dp_affinity ?r + 1 \<or> tid = 0),
    append_start := append_start ?q + 1\<rparr>"
  have f1: "dbuf q1 = (dbuf ?q)[append_start ?q := ?r]" "append_start q1 = append_start ?q + 1" "flusher_start q1 = flusher_start ?q" by (simp_all add: q1_def)
  have u: "unflushed q1 = unflushed ?q @ [?r]"
    using qk by (auto simp: unflushed_def f1 slice_def take_Suc_conv_app_nth Suc_diff_le drop_update_swap)
  have s1: "\<forall>x\<in>set (unflushed q1). 0 < tid \<and> dp_affinity x + 1 = of_nat tid" if "\<not> need_scan q1"
    using that I(4) u by (auto simp: q1_def queue_ok_def)
  have w: "wr (dbuf ?q) (append_start ?q) ?r = Inr (dbuf q1)" using qk by (simp add: wr_def f1)
  show ?thesis
  proof (cases "append_start ?q = kBufferSize - 1")
    case False
    have "queue_ok tid q1" using s1 qk False f1 by (auto simp: queue_ok_def)
    moreover have "QueueRoutine nr tid r d = Inr (set_queue tid q1 d)" using w False by (simp add: QueueRoutine_def Let_def q1_def)
    ultimately show ?thesis using disp_inv_set [OF inv] held_update [OF I(3), of q1] u by (auto simp: disp_effect_def)
  next
    case True
    let ?q2 = "q1\<lparr>flusher_start := 0, append_start := 0\<rparr>"
    let ?d1 = "set_queue tid ?q2 d"
    have n1: "dqueues ?d1 ! tid = ?q2" using I(3) by simp
    have u2: "unflushed (?q2\<lparr>need_scan := b\<rparr>) = []" "unflushed ?q2 = []" for b by (simp_all add: unflushed_def slice_def)
    obtain d' where f: "FlushOnCore nr tid (flusher_start q1) (append_start q1) ?d1 = Inr d'" "flushes nr (unflushed q1) ?d1 d'"
      using FlushOnCore_ok [OF I(1,2) i, of ?d1 "flusher_start q1" "append_start q1"] qk f1 s1 n1 True by (auto simp: unflushed_def)
    define d2 where "d2 = set_queue tid ((dqueues d' ! tid)\<lparr>need_scan := False\<rparr>) d'"
    have run: "QueueRoutine nr tid r d = Inr d2" using w True f(1) by (simp add: QueueRoutine_def PushRelease_def Let_def q1_def d2_def)
    have dq: "dqueues d2 = (dqueues d)[tid := ?q2\<lparr>need_scan := False\<rparr>]" using f(2) I(3) by (simp add: flushes_def d2_def)
    have "queue_ok tid (?q2\<lparr>need_scan := False\<rparr>)" using qk f1 u2(1) [of False] by (simp add: queue_ok_def kBufferSize_def)
    then have "disp_inv nr (set_queue tid (?q2\<lparr>need_scan := False\<rparr>) d)" by (intro disp_inv_set [OF inv])
    then have i2: "disp_inv nr d2" using dq by (simp add: disp_inv_def)
    have "held d2 = held (set_queue tid (?q2\<lparr>need_scan := False\<rparr>) d)" using dq by (simp add: held_def)
    then have h: "held d2 + mset (unflushed ?q) = held d" using held_update [OF I(3), of "?q2\<lparr>need_scan := False\<rparr>"] u2 by simp
    have "handed d2 = handed d + mset (unflushed q1)" using handed_flushes [OF f(2)] by (simp add: d2_def)
    then have "held d2 + handed d2 = held d + handed d + {#?r#}" by (simp add: u ac_simps flip: h)
    moreover obtain subs where "submitted d2 = submitted d @ subs" "\<forall>s\<in>set subs. placed nr s" using f(2) by (auto simp: flushes_def d2_def)
    ultimately show ?thesis using run i2 unfolding disp_effect_def by blast
  qed
qed

section \<open>Flushing all threads\<close>

lemma disp_effect_refl: "disp_inv nr d \<Longrightarrow> disp_effect nr {#} d d"
  by (simp add: disp_effect_def)

lemma disp_effect_trans: "disp_effect nr m d d1 \<Longrightarrow> disp_effect nr m' d1 d2 \<Longrightarrow> disp_effect nr (m + m') d d2"
  by (auto simp: disp_effect_def)

interpretation df: flushable "TryFlushForThread nr" nr "disp_inv nr" "\<lambda>i d. unflushed (dqueues d ! i) = []" "disp_effect nr {#}" for nr
proof
  fix d :: dispatcher and i locked assume inv: "disp_inv nr d" and i: "i \<le> nr"
  obtain d' did where t: "TryFlushForThread nr locked i d = Inr (d', locked, did)" "disp_effect nr {#} d d'"
    "locked \<longrightarrow> unflushed (dqueues d' ! i) = [] \<and> (\<forall>j. j \<noteq> i \<longrightarrow> dqueues d' ! j = dqueues d ! j)"
    using TryFlush_effect [OF inv i, of locked] by blast
  have "unflushed (dqueues d' ! j) = []" if "unflushed (dqueues d ! j) = []" for j
  proof (cases locked)
    case True
    then show ?thesis using t(3) that by (cases "j = i") simp_all
  next
    case False
    then have "d' = d" using t(1) by (simp add: TryFlushForThread_def)
    then show ?thesis using that by simp
  qed
  then show "\<exists>d' did. TryFlushForThread nr locked i d = Inr (d', locked, did) \<and> disp_inv nr d' \<and> disp_effect nr {#} d d'
      \<and> (locked \<longrightarrow> unflushed (dqueues d' ! i) = []) \<and> (\<forall>j\<le>nr. unflushed (dqueues d ! j) = [] \<longrightarrow> unflushed (dqueues d' ! j) = [])"
    using t(1,2) t(2) [unfolded disp_effect_def] t(3) by blast
next
  show "disp_effect nr {#} s s1 \<Longrightarrow> disp_effect nr {#} s1 s2 \<Longrightarrow> disp_effect nr {#} s s2" for s s1 s2
    using disp_effect_trans [of nr "{#}" s s1 "{#}" s2] by simp
qed (rule disp_effect_refl)

theorem Flush_hands_out_all:
  assumes "disp_inv nr d" "\<forall>i\<le>nr. \<exists>locks\<in>set passes. locks i"
  shows "\<exists>d' need. Flush (TryFlushForThread nr) nr passes d = Some (Inr (d', need)) \<and> disp_effect nr {#} d d' \<and> held d' = {#}"
proof -
  obtain d' need where f: "Flush (TryFlushForThread nr) nr passes d = Some (Inr (d', need))" "disp_inv nr d'" "disp_effect nr {#} d d'"
    "\<forall>i\<le>nr. unflushed (dqueues d' ! i) = []" using df.Flush_drains [OF assms] by blast
  have "length (dqueues d') = nr + 1" using f(2) by (simp add: disp_inv_def)
  then have "\<forall>q\<in>set (dqueues d'). unflushed q = []" using f(4) by (auto simp: in_set_conv_nth less_Suc_eq_le)
  moreover have "\<forall>q\<in>set qs. unflushed q = [] \<Longrightarrow> (\<Sum>q\<leftarrow>qs. mset (unflushed q)) = {#}" for qs by (induction qs) auto
  ultimately have "held d' = {#}" unfolding held_def by blast
  then show ?thesis using f(1,3) by blast
qed

end
