(* ===== verification/Slice_Table.thy ===== *)
theory Slice_Table
  imports Lower_Bound
begin

text \<open>
  The table of slice owners of \<^verbatim>\<open>src/slice.cc\<close> and \<^verbatim>\<open>src/slice.h\<close> (\<open>SliceMappingTable\<close>): which node owns which
  slice, the operations in which a node announces its changes to the others, and the search of an owner. An
  announced operation is an \<open>int\<close>, here the 32 bits of it.
\<close>

section \<open>State\<close>

datatype SliceOwnerType = PrimaryOwner | IndexOwner | DataOwner

definition type_num :: "SliceOwnerType \<Rightarrow> nat" where
  "type_num t = (case t of PrimaryOwner \<Rightarrow> 0 | IndexOwner \<Rightarrow> 1 | DataOwner \<Rightarrow> 2)"

definition kNrMaxSlices :: nat where "kNrMaxSlices = 256"
definition kMaxNrNode :: nat where "kMaxNrNode = 254"

record slice_owner =
  so_id :: int
  owned :: "bool list list"

record slice_table =
  slice_owners :: "slice_owner list"
  node_compress :: "int list"
  st_nr_nodes :: nat
  next_node :: nat
  broadcast_buffer :: "u32 list"

text \<open>The constructor sets the compressed ids only; the number of nodes and the cursor keep what the memory holds.\<close>

definition SliceMappingTable :: "nat \<Rightarrow> nat \<Rightarrow> slice_table" where
  "SliceMappingTable nr nx = \<lparr>slice_owners = replicate kMaxNrNode \<lparr>so_id = 0, owned = replicate 3 (replicate kNrMaxSlices False)\<rparr>,
     node_compress = replicate kMaxNrNode (-1), st_nr_nodes = nr, next_node = nx, broadcast_buffer = []\<rparr>"

section \<open>Operations\<close>

definition InitNode :: "int \<Rightarrow> slice_table \<Rightarrow> slice_table res" where
  "InitNode node t =
     (if node < 0 then Inl OutOfBounds
      else res_bind (rd (node_compress t) (nat node)) (\<lambda>c.
      if c \<noteq> -1 then Inl (Abort ''assert'')
      else res_bind (rd (slice_owners t) (st_nr_nodes t)) (\<lambda>ow.
      Inr (t\<lparr>st_nr_nodes := st_nr_nodes t + 1, node_compress := (node_compress t)[nat node := int (st_nr_nodes t)],
             slice_owners := (slice_owners t)[st_nr_nodes t := ow\<lparr>so_id := node\<rparr>]\<rparr>))))"

definition slice_op :: "int \<Rightarrow> bool \<Rightarrow> SliceOwnerType \<Rightarrow> nat \<Rightarrow> u32" where
  "slice_op node ow ty slice_id =
     push_bit 23 (push_bit 1 (push_bit 2 (of_int node) OR of_nat (type_num ty)) OR (if ow then 1 else 0)) OR of_nat slice_id"

definition SetEntry :: "int \<Rightarrow> nat \<Rightarrow> bool \<Rightarrow> SliceOwnerType \<Rightarrow> int \<Rightarrow> bool \<Rightarrow> slice_table \<Rightarrow> slice_table res" where
  "SetEntry self slice_id ow ty node0 broadcast t =
     (let node = (if node0 = -1 then self else node0) in
      if node < 0 then Inl OutOfBounds
      else res_bind (rd (node_compress t) (nat node)) (\<lambda>c.
      if c = -1 \<or> \<not> slice_id < kNrMaxSlices then Inl (Abort ''assert'')
      else res_bind (rd (slice_owners t) (nat c)) (\<lambda>so.
      let so' = so\<lparr>owned := (owned so)[type_num ty := (owned so ! type_num ty)[slice_id := ow]]\<rparr>;
          t1 = t\<lparr>slice_owners := (slice_owners t)[nat c := so']\<rparr>
      in if broadcast
         then if node < 64 \<and> slice_id < 2 ^ 23
              then Inr (t1\<lparr>broadcast_buffer := broadcast_buffer t1 @ [slice_op node ow ty slice_id]\<rparr>)
              else Inl (Abort ''assert'')
         else Inr t1)))"

definition op_slice :: "u32 \<Rightarrow> nat" where "op_slice op = unat (op AND 0x7FFFFF)"
definition op_owned :: "u32 \<Rightarrow> bool" where "op_owned op \<longleftrightarrow> bit op 23"
definition op_type :: "u32 \<Rightarrow> nat" where "op_type op = unat (drop_bit 24 op AND 3)"

text \<open>\<open>op >> 26\<close> on an \<open>int\<close> keeps the sign.\<close>

definition op_node :: "u32 \<Rightarrow> int" where "op_node op = sint op div 2 ^ 26"

definition ReplayUpdate :: "int \<Rightarrow> u32 \<Rightarrow> slice_table \<Rightarrow> slice_table res" where
  "ReplayUpdate self op t =
     (if op_type op = 0 then SetEntry self (op_slice op) (op_owned op) PrimaryOwner (op_node op) False t
      else if op_type op = 1 then SetEntry self (op_slice op) (op_owned op) IndexOwner (op_node op) False t
      else if op_type op = 2 then SetEntry self (op_slice op) (op_owned op) DataOwner (op_node op) False t
      else Inl OutOfBounds)"

fun UpdateSliceMappingTablesFromReceiver :: "int \<Rightarrow> u32 list \<Rightarrow> slice_table \<Rightarrow> slice_table res" where
  "UpdateSliceMappingTablesFromReceiver self [] t = Inr t"
| "UpdateSliceMappingTablesFromReceiver self (op # ops) t =
     res_bind (ReplayUpdate self op t) (UpdateSliceMappingTablesFromReceiver self ops)"

definition owns :: "slice_table \<Rightarrow> nat \<Rightarrow> SliceOwnerType \<Rightarrow> nat \<Rightarrow> bool" where
  "owns t i ty slice_id \<longleftrightarrow> owned (slice_owners t ! i) ! type_num ty ! slice_id"

definition LocateNodeInsert :: "slice_table \<Rightarrow> nat \<Rightarrow> SliceOwnerType \<Rightarrow> int list" where
  "LocateNodeInsert t slice_id ty = map (\<lambda>i. so_id (slice_owners t ! i)) (filter (\<lambda>i. owns t i ty slice_id) [0..<st_nr_nodes t])"

text \<open>The loop reads the cursor anew each time and only writes it at the end, so every turn looks at the same node.\<close>

fun lookup_loop :: "nat \<Rightarrow> slice_table \<Rightarrow> nat \<Rightarrow> SliceOwnerType \<Rightarrow> nat option" where
  "lookup_loop 0 t slice_id ty = None"
| "lookup_loop (Suc fuel) t slice_id ty =
     (let p = (next_node t + 1) mod st_nr_nodes t in
      if owns t p ty slice_id then Some p else lookup_loop fuel t slice_id ty)"

definition LocateNodeLookup :: "nat \<Rightarrow> slice_table \<Rightarrow> nat \<Rightarrow> SliceOwnerType \<Rightarrow> (int \<times> slice_table) res option" where
  "LocateNodeLookup fuel t slice_id ty =
     (if \<not> slice_id < kNrMaxSlices then Some (Inl (Abort ''assert''))
      else map_option (\<lambda>p. Inr (so_id (slice_owners t ! p), t\<lparr>next_node := p\<rparr>)) (lookup_loop fuel t slice_id ty))"

section \<open>Announced operations\<close>

lemma push_or:
  assumes "y < 2 ^ k"
  shows "push_bit k (of_nat a) OR of_nat y = (of_nat (a * 2 ^ k + y) :: u32)"
proof -
  have "push_bit k a OR y = push_bit k a + y"
  proof (rule disjunctive_add [symmetric])
    fix n
    show "\<not> bit (push_bit k a) n \<or> \<not> bit y n"
    proof (cases "n < k")
      case False
      have "y = take_bit k y" using assms by (simp add: take_bit_nat_eq_self)
      then show ?thesis using False by (metis bit_take_bit_iff)
    qed (simp add: bit_push_bit_iff)
  qed
  moreover have "push_bit k (of_nat a) OR of_nat y = (of_nat (push_bit k a OR y) :: u32)" by (simp only: of_nat_or_eq push_bit_of_nat)
  ultimately show ?thesis by (simp only: push_bit_eq_mult)
qed

definition op_value :: "nat \<Rightarrow> bool \<Rightarrow> SliceOwnerType \<Rightarrow> nat \<Rightarrow> nat" where
  "op_value node ow ty s = ((node * 4 + type_num ty) * 2 + (if ow then 1 else 0)) * 2 ^ 23 + s"

lemma type_num_less: "type_num ty < 3"
  by (cases ty) (simp_all add: type_num_def)

lemma slice_op_value:
  assumes "s < 2 ^ 23"
  shows "slice_op (int node) ow ty s = of_nat (op_value node ow ty s)"
proof -
  have 1: "push_bit 2 (of_nat node :: u32) OR of_nat (type_num ty) = of_nat (node * 4 + type_num ty)"
    using push_or [of "type_num ty" 2 node] type_num_less [of ty] by simp
  have 2: "push_bit 1 (of_nat (node * 4 + type_num ty) :: u32) OR (if ow then 1 else 0) = of_nat ((node * 4 + type_num ty) * 2 + (if ow then 1 else 0))"
    using push_or [of "if ow then 1 else 0" 1 "node * 4 + type_num ty"] by (cases ow) simp_all
  show ?thesis unfolding slice_op_def op_value_def of_int_of_nat_eq 1 2 by (rule push_or [OF assms])
qed

lemma op_value_less: "node < 64 \<Longrightarrow> s < 2 ^ 23 \<Longrightarrow> op_value node ow ty s < 2 ^ 32"
  using type_num_less [of ty] by (simp add: op_value_def)

lemma op_value_parts:
  assumes "s < 2 ^ 23"
  shows "op_value node ow ty s mod 2 ^ 23 = s" "odd (op_value node ow ty s div 2 ^ 23) = ow" "op_value node ow ty s div 2 ^ 24 mod 4 = type_num ty"
    "op_value node ow ty s div 2 ^ 26 = node"
proof -
  let ?b = "if ow then 1 else (0 :: nat)" and ?t = "type_num ty"
  have t: "?t < 4" using type_num_less [of ty] by simp
  have d: "op_value node ow ty s div 2 ^ 23 = (node * 4 + ?t) * 2 + ?b" using assms by (simp add: op_value_def)
  show "op_value node ow ty s mod 2 ^ 23 = s" unfolding op_value_def using assms by (simp only: mod_mult_self3 mod_less)
  show "odd (op_value node ow ty s div 2 ^ 23) = ow" unfolding d by simp
  have e: "op_value node ow ty s div 2 ^ 24 = node * 4 + ?t"
    using d div_mult2_eq [of "op_value node ow ty s" "2 ^ 23" 2] by simp
  then show "op_value node ow ty s div 2 ^ 24 mod 4 = ?t" using t by simp
  show "op_value node ow ty s div 2 ^ 26 = node"
    using e t div_mult2_eq [of "op_value node ow ty s" "2 ^ 24" 4] by simp
qed

text \<open>What is announced for a node below 32 is what the receiver reads; the node number of the others becomes negative.\<close>

theorem slice_op_round_trip:
  assumes "node < 64" "s < 2 ^ 23"
  shows "op_slice (slice_op (int node) ow ty s) = s" "op_owned (slice_op (int node) ow ty s) = ow" "op_type (slice_op (int node) ow ty s) = type_num ty"
    "op_node (slice_op (int node) ow ty s) = (if node < 32 then int node else int node - 64)"
proof -
  let ?v = "op_value node ow ty s"
  note v = op_value_less [OF assms, of ow ty] and op = slice_op_value [OF assms(2), of node ow ty] and p = op_value_parts [OF assms(2), of node ow ty]
  have u: "unat (of_nat ?v :: u32) = ?v" using v by (simp add: unat_of_nat)
  have m: "(of_nat ?v :: u32) AND 0x7FFFFF = take_bit 23 (of_nat ?v)" using take_bit_eq_mask [of 23 "of_nat ?v :: u32"] by (simp add: mask_eq_exp_minus_1)
  show "op_slice (slice_op (int node) ow ty s) = s"
  proof -
    have "unat (take_bit 23 (of_nat ?v :: u32)) = take_bit 23 ?v" by (simp only: unsigned_take_bit_eq u)
    then show ?thesis unfolding op op_slice_def m using p(1) by (simp only: take_bit_eq_mod)
  qed
  show "op_owned (slice_op (int node) ow ty s) = ow"
  proof -
    have "bit (unat w) 23 = bit w 23" for w :: u32 by (simp add: bit_unsigned_iff)
    from this [of "of_nat ?v"] have "bit (of_nat ?v :: u32) 23 = bit ?v 23" by (simp only: u)
    moreover have "bit ?v 23 = ow" using p(2) by (simp only: bit_iff_odd)
    ultimately show ?thesis by (simp only: op op_owned_def)
  qed
  have m3: "drop_bit 24 (of_nat ?v :: u32) AND 3 = take_bit 2 (drop_bit 24 (of_nat ?v))" using take_bit_eq_mask [of 2 "drop_bit 24 (of_nat ?v) :: u32"] by (simp add: mask_eq_exp_minus_1)
  show "op_type (slice_op (int node) ow ty s) = type_num ty"
    unfolding op op_type_def m3 unsigned_take_bit_eq unsigned_drop_bit_eq u using p(3) v by (simp add: take_bit_eq_mod drop_bit_eq_div)
  have sv: "sint (of_nat ?v :: u32) = (if ?v < 2 ^ 31 then int ?v else int ?v - 2 ^ 32)"
  proof -
    have ui: "uint (of_nat ?v :: u32) = int ?v" using u by (metis uint_nat)
    have "bit (int ?v) 31 \<longleftrightarrow> \<not> ?v < 2 ^ 31"
    proof -
      have "?v div 2 ^ 31 = (if ?v < 2 ^ 31 then 0 else 1)" using v by (auto simp: div_nat_eqI)
      then have "bit ?v 31 \<longleftrightarrow> \<not> ?v < 2 ^ 31" unfolding bit_iff_odd by simp
      then show ?thesis by (simp only: bit_of_nat_iff_bit)
    qed
    moreover have "take_bit 32 (int ?v) = int ?v" using v by (simp add: take_bit_int_eq_self)
    ultimately show ?thesis unfolding sint_uint ui by (simp add: signed_take_bit_eq_take_bit_minus)
  qed
  have "?v < 2 ^ 31 \<longleftrightarrow> node < 32" using p(4) by (simp add: div_less_iff_less_mult) linarith
  moreover have "int ?v div 2 ^ 26 = int node" using p(4) by (metis of_nat_numeral of_nat_power zdiv_int)
  moreover have "(int ?v - 2 ^ 32) div 2 ^ 26 = int ?v div 2 ^ 26 - 64" by simp
  ultimately show "op_node (slice_op (int node) ow ty s) = (if node < 32 then int node else int node - 64)"
    unfolding op op_node_def sv by simp
qed

section \<open>The table\<close>

definition so_ok :: "slice_owner \<Rightarrow> bool" where
  "so_ok so \<longleftrightarrow> length (owned so) = 3 \<and> (\<forall>l\<in>set (owned so). length l = kNrMaxSlices)"

definition table_inv :: "slice_table \<Rightarrow> bool" where
  "table_inv t \<longleftrightarrow> length (slice_owners t) = kMaxNrNode \<and> length (node_compress t) = kMaxNrNode \<and> st_nr_nodes t \<le> kMaxNrNode
     \<and> (\<forall>so\<in>set (slice_owners t). so_ok so)
     \<and> (\<forall>node<kMaxNrNode. node_compress t ! node \<noteq> -1 \<longrightarrow> 0 \<le> node_compress t ! node \<and> nat (node_compress t ! node) < st_nr_nodes t
          \<and> so_id (slice_owners t ! nat (node_compress t ! node)) = int node)
     \<and> (\<forall>i < st_nr_nodes t. 0 \<le> so_id (slice_owners t ! i) \<and> nat (so_id (slice_owners t ! i)) < kMaxNrNode
          \<and> node_compress t ! nat (so_id (slice_owners t ! i)) = int i)"

definition known :: "slice_table \<Rightarrow> nat \<Rightarrow> bool" where
  "known t node \<longleftrightarrow> node < kMaxNrNode \<and> node_compress t ! node \<noteq> -1"

definition node_owns :: "slice_table \<Rightarrow> nat \<Rightarrow> SliceOwnerType \<Rightarrow> nat \<Rightarrow> bool" where
  "node_owns t node ty s \<longleftrightarrow> known t node \<and> owns t (nat (node_compress t ! node)) ty s"

lemma SliceMappingTable_inv: "table_inv (SliceMappingTable 0 nx)"
  by (simp add: table_inv_def SliceMappingTable_def so_ok_def)

lemma table_invD:
  assumes "table_inv t"
  shows "length (slice_owners t) = kMaxNrNode" "length (node_compress t) = kMaxNrNode" "st_nr_nodes t \<le> kMaxNrNode"
    "i < kMaxNrNode \<Longrightarrow> so_ok (slice_owners t ! i)"
    "known t node \<Longrightarrow> 0 \<le> node_compress t ! node \<and> nat (node_compress t ! node) < st_nr_nodes t \<and> so_id (slice_owners t ! nat (node_compress t ! node)) = int node"
    "i < st_nr_nodes t \<Longrightarrow> 0 \<le> so_id (slice_owners t ! i) \<and> nat (so_id (slice_owners t ! i)) < kMaxNrNode \<and> node_compress t ! nat (so_id (slice_owners t ! i)) = int i"
  using assms by (auto simp: table_inv_def known_def)

lemma owned_update:
  assumes "so_ok so" "s < kNrMaxSlices"
  shows "(owned so)[type_num ty := (owned so ! type_num ty)[s := ow]] ! type_num ty' ! s' = (if ty' = ty \<and> s' = s then ow else owned so ! type_num ty' ! s')"
proof -
  have l: "length (owned so) = 3" "length (owned so ! type_num ty) = kNrMaxSlices"
    using assms(1) type_num_less [of ty] by (auto simp: so_ok_def)
  have "type_num ty' = type_num ty \<longleftrightarrow> ty' = ty" by (cases ty; cases ty') (simp_all add: type_num_def)
  then show ?thesis using l assms(2) type_num_less [of ty] by (auto simp: nth_list_update)
qed

lemma so_ok_update: "so_ok so \<Longrightarrow> length l = kNrMaxSlices \<Longrightarrow> so_ok (so\<lparr>owned := (owned so)[k := l[s := ow]]\<rparr>)"
  using set_update_subset_insert [of "owned so" k "l[s := ow]"] by (auto simp: so_ok_def)

lemma table_inv_owner:
  assumes inv: "table_inv t" and so: "so_ok so" "so_id so = so_id (slice_owners t ! c)"
  shows "table_inv (t\<lparr>slice_owners := (slice_owners t)[c := so], broadcast_buffer := bs\<rparr>)"
proof -
  have "so_id ((slice_owners t)[c := so] ! i) = so_id (slice_owners t ! i)" for i
    using so(2) by (cases "i = c"; cases "c < length (slice_owners t)") (simp_all add: list_update_beyond)
  moreover have "\<forall>x\<in>set ((slice_owners t)[c := so]). so_ok x"
    using inv so(1) by (auto simp: table_inv_def dest!: set_update_subset_insert [THEN subsetD])
  ultimately show ?thesis using inv by (simp add: table_inv_def)
qed

theorem SetEntry_spec:
  assumes inv: "table_inv t" and k: "known t node" and s: "s < kNrMaxSlices" and b: "b \<longrightarrow> node < 64"
  shows "\<exists>t'. SetEntry self s ow ty (int node) b t = Inr t' \<and> table_inv t' \<and> known t' = known t \<and> st_nr_nodes t' = st_nr_nodes t
    \<and> (\<forall>n ty' s'. node_owns t' n ty' s' \<longleftrightarrow> (if n = node \<and> ty' = ty \<and> s' = s then ow else node_owns t n ty' s'))
    \<and> broadcast_buffer t' = broadcast_buffer t @ (if b then [slice_op (int node) ow ty s] else [])"
proof -
  let ?c = "nat (node_compress t ! node)"
  let ?so = "slice_owners t ! ?c"
  let ?so' = "?so\<lparr>owned := (owned ?so)[type_num ty := (owned ?so ! type_num ty)[s := ow]]\<rparr>"
  have n: "node < kMaxNrNode" "node_compress t ! node \<noteq> -1" using k by (simp_all add: known_def)
  have c: "0 \<le> node_compress t ! node" "?c < st_nr_nodes t" "so_id ?so = int node" using table_invD(5) [OF inv k] by simp_all
  have c': "?c < kMaxNrNode" using c(2) table_invD(3) [OF inv] by simp
  have ok: "so_ok ?so" by (rule table_invD(4) [OF inv c'])
  define t' where "t' = t\<lparr>slice_owners := (slice_owners t)[?c := ?so'],
    broadcast_buffer := broadcast_buffer t @ (if b then [slice_op (int node) ow ty s] else [])\<rparr>"
  have s23: "s < 2 ^ 23" using s by (simp add: kNrMaxSlices_def)
  have run: "SetEntry self s ow ty (int node) b t = Inr t'"
    using n c' s b s23 table_invD(1,2) [OF inv] by (cases b) (simp_all add: SetEntry_def Let_def t'_def)
  have kn: "known t' = known t" by (simp add: known_def t'_def fun_eq_iff)
  have so: "slice_owners t' ! i = (if i = ?c then ?so' else slice_owners t ! i)" if "i < kMaxNrNode" for i
    using that table_invD(1) [OF inv] by (simp add: t'_def nth_list_update)
  have "length (owned ?so ! type_num ty) = kNrMaxSlices" using ok type_num_less [of ty] by (simp add: so_ok_def)
  then have ok': "so_ok ?so'" by (rule so_ok_update [OF ok])
  have "table_inv t'" unfolding t'_def by (rule table_inv_owner [OF inv ok']) simp
  moreover have "node_owns t' m ty' s' \<longleftrightarrow> (if m = node \<and> ty' = ty \<and> s' = s then ow else node_owns t m ty' s')" for m ty' s'
  proof (cases "known t m")
    case True
    have m: "0 \<le> node_compress t ! m" "nat (node_compress t ! m) < kMaxNrNode" "so_id (slice_owners t ! nat (node_compress t ! m)) = int m"
      using table_invD(5) [OF inv True] table_invD(3) [OF inv] by auto
    have "nat (node_compress t ! m) = ?c \<longleftrightarrow> m = node" using m(3) c(3) by (metis of_nat_eq_iff)
    moreover have "node_owns t' m ty' s' \<longleftrightarrow> owned (slice_owners t' ! nat (node_compress t ! m)) ! type_num ty' ! s'"
      using True kn by (simp add: node_owns_def owns_def t'_def)
    moreover have "node_owns t m ty' s' \<longleftrightarrow> owned (slice_owners t ! nat (node_compress t ! m)) ! type_num ty' ! s'"
      using True by (simp add: node_owns_def owns_def)
    ultimately show ?thesis using so [OF m(2)] owned_update [OF ok s, of ty ow ty' s']
      by (cases "m = node"; cases "ty' = ty \<and> s' = s") auto
  next
    case False
    then have "m \<noteq> node" "\<not> node_owns t' m ty' s'" "\<not> node_owns t m ty' s'" using k kn by (auto simp: node_owns_def)
    then show ?thesis by simp
  qed
  moreover have "st_nr_nodes t' = st_nr_nodes t" "broadcast_buffer t' = broadcast_buffer t @ (if b then [slice_op (int node) ow ty s] else [])"
    by (simp_all add: t'_def)
  ultimately show ?thesis using run kn by blast
qed

lemma InitNode_spec:
  assumes inv: "table_inv t" and n: "node < kMaxNrNode" "\<not> known t node" "st_nr_nodes t < kMaxNrNode"
  shows "\<exists>t'. InitNode (int node) t = Inr t' \<and> table_inv t' \<and> st_nr_nodes t' = st_nr_nodes t + 1 \<and> (\<forall>m. known t' m \<longleftrightarrow> known t m \<or> m = node)
    \<and> broadcast_buffer t' = broadcast_buffer t"
proof -
  let ?k = "st_nr_nodes t"
  have c: "node_compress t ! node = -1" using n(1,2) by (simp add: known_def)
  note L = table_invD(1,2) [OF inv]
  define t' where "t' = t\<lparr>st_nr_nodes := ?k + 1, node_compress := (node_compress t)[node := int ?k],
    slice_owners := (slice_owners t)[?k := (slice_owners t ! ?k)\<lparr>so_id := int node\<rparr>]\<rparr>"
  have run: "InitNode (int node) t = Inr t'" using L n c by (simp add: InitNode_def t'_def)
  have nc: "node_compress t' ! m = (if m = node then int ?k else node_compress t ! m)" if "m < kMaxNrNode" for m
    using that L n(1) by (simp add: t'_def nth_list_update)
  have so: "so_id (slice_owners t' ! i) = (if i = ?k then int node else so_id (slice_owners t ! i))" if "i < kMaxNrNode" for i
    using that L n(3) by (simp add: t'_def nth_list_update)
  have kn: "known t' m \<longleftrightarrow> known t m \<or> m = node" for m using nc [of m] n(1) by (cases "m = node") (auto simp: known_def)
  have "\<forall>x\<in>set (slice_owners t'). so_ok x"
  proof
    fix x assume "x \<in> set (slice_owners t')"
    then have "x = (slice_owners t ! ?k)\<lparr>so_id := int node\<rparr> \<or> x \<in> set (slice_owners t)"
      using set_update_subset_insert [of "slice_owners t" ?k] by (auto simp: t'_def)
    then show "so_ok x" using inv table_invD(4) [OF inv n(3)] by (auto simp: table_inv_def so_ok_def)
  qed
  moreover have "0 \<le> node_compress t' ! m \<and> nat (node_compress t' ! m) < ?k + 1 \<and> so_id (slice_owners t' ! nat (node_compress t' ! m)) = int m"
    if m: "m < kMaxNrNode" "node_compress t' ! m \<noteq> -1" for m
  proof (cases "m = node")
    case True
    then show ?thesis using nc [OF m(1)] so [OF n(3)] by simp
  next
    case False
    then have o: "node_compress t' ! m = node_compress t ! m" "known t m" using nc [OF m(1)] m by (auto simp: known_def)
    note T = table_invD(5) [OF inv o(2)]
    then have "nat (node_compress t ! m) < kMaxNrNode" "nat (node_compress t ! m) \<noteq> ?k" using n(3) by auto
    then show ?thesis using T so [of "nat (node_compress t ! m)"] o(1) by simp
  qed
  moreover have "0 \<le> so_id (slice_owners t' ! i) \<and> nat (so_id (slice_owners t' ! i)) < kMaxNrNode \<and> node_compress t' ! nat (so_id (slice_owners t' ! i)) = int i"
    if i: "i < ?k + 1" for i
  proof (cases "i = ?k")
    case True
    then show ?thesis using so [OF n(3)] nc [OF n(1)] n(1) by simp
  next
    case False
    then have T: "i < ?k" "so_id (slice_owners t' ! i) = so_id (slice_owners t ! i)" using i so [of i] n(3) by auto
    note I = table_invD(6) [OF inv T(1)]
    then have "nat (so_id (slice_owners t ! i)) \<noteq> node" using c by auto
    then show ?thesis using I T(2) nc [of "nat (so_id (slice_owners t ! i))"] by simp
  qed
  ultimately have "table_inv t'" using L n(3) unfolding table_inv_def by (simp add: t'_def)
  then show ?thesis using run kn by (auto simp: t'_def)
qed

section \<open>Replaying on another node\<close>

text \<open>A node that replays what another one announced has the same owners afterwards.\<close>

definition same_owners :: "slice_table \<Rightarrow> slice_table \<Rightarrow> bool" where
  "same_owners t u \<longleftrightarrow> known t = known u \<and> (\<forall>n ty s. node_owns t n ty s = node_owns u n ty s)"

lemma ReplayUpdate_op:
  assumes "node < 32" "s < kNrMaxSlices"
  shows "ReplayUpdate self (slice_op (int node) ow ty s) t = SetEntry self s ow ty (int node) False t"
proof -
  have "node < 64" "s < 2 ^ 23" using assms by (simp_all add: kNrMaxSlices_def)
  note R = slice_op_round_trip [OF this, of ow ty]
  show ?thesis unfolding ReplayUpdate_def R using assms(1) by (cases ty) (simp_all add: type_num_def)
qed

type_synonym entry_change = "nat \<times> bool \<times> SliceOwnerType \<times> nat"

fun change_all :: "int \<Rightarrow> entry_change list \<Rightarrow> slice_table \<Rightarrow> slice_table res" where
  "change_all self [] t = Inr t"
| "change_all self ((s, ow, ty, node) # cs) t = res_bind (SetEntry self s ow ty (int node) True t) (change_all self cs)"

theorem replay_same_owners:
  assumes "table_inv t" "table_inv u" "same_owners t u" "\<forall>(s, ow, ty, node) \<in> set cs. s < kNrMaxSlices \<and> node < 32 \<and> known t node"
  shows "\<exists>t' u' ops. change_all self cs t = Inr t' \<and> broadcast_buffer t' = broadcast_buffer t @ ops
    \<and> UpdateSliceMappingTablesFromReceiver other ops u = Inr u' \<and> table_inv t' \<and> table_inv u' \<and> same_owners t' u'"
  using assms
proof (induction cs arbitrary: t u)
  case (Cons c cs)
  obtain s ow ty node where c: "c = (s, ow, ty, node)" by (cases c) auto
  have C: "s < kNrMaxSlices" "node < 32" "known t node" "known u node" using Cons.prems(3,4) c by (auto simp: same_owners_def)
  obtain t1 where t1: "SetEntry self s ow ty (int node) True t = Inr t1" "table_inv t1" "known t1 = known t"
    "\<forall>n ty' s'. node_owns t1 n ty' s' \<longleftrightarrow> (if n = node \<and> ty' = ty \<and> s' = s then ow else node_owns t n ty' s')"
    "broadcast_buffer t1 = broadcast_buffer t @ [slice_op (int node) ow ty s]"
    using SetEntry_spec [OF Cons.prems(1) C(3,1), of True self ow ty] C(2) by auto
  obtain u1 where u1: "SetEntry other s ow ty (int node) False u = Inr u1" "table_inv u1" "known u1 = known u"
    "\<forall>n ty' s'. node_owns u1 n ty' s' \<longleftrightarrow> (if n = node \<and> ty' = ty \<and> s' = s then ow else node_owns u n ty' s')"
    using SetEntry_spec [OF Cons.prems(2) C(4,1), of False other ow ty] by auto
  have same: "same_owners t1 u1" using Cons.prems(3) t1(3,4) u1(3,4) by (simp add: same_owners_def)
  have "\<forall>(s, ow, ty, node) \<in> set cs. s < kNrMaxSlices \<and> node < 32 \<and> known t1 node" using Cons.prems(4) t1(3) by simp
  from Cons.IH [OF t1(2) u1(2) same this]
  obtain t' u' ops where r: "change_all self cs t1 = Inr t'" "broadcast_buffer t' = broadcast_buffer t1 @ ops"
    "UpdateSliceMappingTablesFromReceiver other ops u1 = Inr u'" "table_inv t'" "table_inv u'" "same_owners t' u'" by blast
  have "UpdateSliceMappingTablesFromReceiver other (slice_op (int node) ow ty s # ops) u = Inr u'"
    using r(3) u1(1) ReplayUpdate_op [OF C(2,1), of other ow ty u] by simp
  moreover have "change_all self (c # cs) t = Inr t'" using c t1(1) r(1) by simp
  moreover have "broadcast_buffer t' = broadcast_buffer t @ (slice_op (int node) ow ty s # ops)" using r(2) t1(5) by simp
  ultimately show ?case using r(4-6) by blast
qed auto

text \<open>The receiver of a change of node 32 or above reads a negative node number.\<close>

lemma replay_large_node:
  assumes "32 \<le> node" "node < 64" "s < kNrMaxSlices"
  shows "op_node (slice_op (int node) ow ty s) < 0"
proof -
  have "s < 2 ^ 23" using assms(3) by (simp add: kNrMaxSlices_def)
  from slice_op_round_trip(4) [OF assms(2) this] show ?thesis using assms(1,2) by simp
qed

section \<open>Finding an owner\<close>

theorem LocateNodeInsert_spec:
  assumes "table_inv t"
  shows "distinct (LocateNodeInsert t s ty) \<and> set (LocateNodeInsert t s ty) = {int node | node. node_owns t node ty s}"
proof -
  have inj: "inj_on (\<lambda>i. so_id (slice_owners t ! i)) {..<st_nr_nodes t}"
  proof (rule inj_onI)
    fix i j assume "i \<in> {..<st_nr_nodes t}" "j \<in> {..<st_nr_nodes t}" "so_id (slice_owners t ! i) = so_id (slice_owners t ! j)"
    then show "i = j" using table_invD(6) [OF assms, of i] table_invD(6) [OF assms, of j] by (metis lessThan_iff of_nat_eq_iff)
  qed
  have "distinct (LocateNodeInsert t s ty)"
    unfolding LocateNodeInsert_def distinct_map by (auto intro: inj_on_subset [OF inj])
  moreover have "x \<in> set (LocateNodeInsert t s ty) \<longleftrightarrow> (\<exists>node. x = int node \<and> node_owns t node ty s)" for x
  proof
    assume "x \<in> set (LocateNodeInsert t s ty)"
    then obtain i where i: "i < st_nr_nodes t" "owns t i ty s" "x = so_id (slice_owners t ! i)" by (auto simp: LocateNodeInsert_def)
    have "node_owns t (nat x) ty s" using table_invD(6) [OF assms i(1)] i(2,3) by (simp add: node_owns_def known_def)
    moreover have "x = int (nat x)" using table_invD(6) [OF assms i(1)] i(3) by simp
    ultimately show "\<exists>node. x = int node \<and> node_owns t node ty s" by blast
  next
    assume "\<exists>node. x = int node \<and> node_owns t node ty s"
    then obtain node where node: "x = int node" "known t node" "owns t (nat (node_compress t ! node)) ty s" by (auto simp: node_owns_def)
    let ?i = "nat (node_compress t ! node)"
    have "?i < st_nr_nodes t" "so_id (slice_owners t ! ?i) = x" using table_invD(5) [OF assms node(2)] node(1) by simp_all
    then have "?i \<in> set (filter (\<lambda>i. owns t i ty s) [0..<st_nr_nodes t])" "x = so_id (slice_owners t ! ?i)" using node(3) by simp_all
    then show "x \<in> set (LocateNodeInsert t s ty)" unfolding LocateNodeInsert_def set_map by blast
  qed
  ultimately show ?thesis by blast
qed

text \<open>The lookup looks at one node only: it returns that node if it owns the slice, and otherwise never, whatever nodes own it.\<close>

theorem LocateNodeLookup_stuck:
  assumes "s < kNrMaxSlices"
  shows "(\<exists>fuel r. LocateNodeLookup fuel t s ty = Some r) \<longleftrightarrow> owns t ((next_node t + 1) mod st_nr_nodes t) ty s"
proof -
  have "lookup_loop fuel t s ty = None" if "\<not> owns t ((next_node t + 1) mod st_nr_nodes t) ty s" for fuel
    using that by (induction fuel) simp_all
  moreover have "LocateNodeLookup 1 t s ty \<noteq> None" if "owns t ((next_node t + 1) mod st_nr_nodes t) ty s"
    using that assms by (simp add: LocateNodeLookup_def)
  ultimately show ?thesis using assms by (fastforce simp: LocateNodeLookup_def)
qed

end
