(* ===== verification/Net_Properties.thy ===== *)
theory Net_Properties
  imports Local_Dispatch Slice_Table
begin

text \<open>
  Properties of how work and ownership reach their places: the dispatch of pieces to the cores of a node,
  and the table of slice owners that the nodes keep in step.
\<close>

section \<open>Local dispatch\<close>

text \<open>
  C39. No piece is lost between a transaction and a core: queueing a piece adds exactly that piece to
  those that are held or handed to a core, and a flush, in which every thread's buffer is
  unlocked in some pass, returns and leaves nothing behind; every piece goes to the core of its
  affinity if that core exists.
\<close>

theorem dispatch_loses_nothing:
  assumes "disp_inv nr d" "tid \<le> nr" "\<forall>i\<le>nr. \<exists>locks\<in>set passes. locks i"
  shows "\<exists>d1 d2 need subs. QueueRoutine nr tid r d = Inr d1 \<and> Flush (TryFlushForThread nr) nr passes d1 = Some (Inr (d2, need)) \<and> disp_inv nr d2
    \<and> held d2 = {#} \<and> handed d2 = held d + handed d + {#with_affinity tid r#}
    \<and> submitted d2 = submitted d @ subs \<and> (\<forall>s\<in>set subs. placed nr s)"
proof -
  obtain d1 where d1: "QueueRoutine nr tid r d = Inr d1" "disp_effect nr {#with_affinity tid r#} d d1"
    using QueueRoutine_effect [OF assms(1,2)] by blast
  then have "disp_inv nr d1" by (simp add: disp_effect_def)
  then obtain d2 need where d2: "Flush (TryFlushForThread nr) nr passes d1 = Some (Inr (d2, need))" "disp_effect nr {#} d1 d2" "held d2 = {#}"
    using Flush_hands_out_all [OF _ assms(3)] by blast
  have "disp_effect nr {#with_affinity tid r#} d d2" using disp_effect_trans [OF d1(2) d2(2)] by simp
  then show ?thesis using d1(1) d2(1,3) by (auto simp: disp_effect_def)
qed

theorem dispatch_loses_nothing_witness:
  "\<exists>d1 d2 need. QueueRoutine 8 3 \<lparr>dp_piece = no_piece, dp_affinity = 5\<rparr> (LocalDispatcherImpl 8) = Inr d1
    \<and> Flush (TryFlushForThread 8) 8 [\<lambda>i. i \<noteq> 3, \<lambda>i. True] d1 = Some (Inr (d2, need)) \<and> handed d2 = {#\<lparr>dp_piece = no_piece, dp_affinity = 5\<rparr>#}"
proof -
  have i: "disp_inv 8 (LocalDispatcherImpl 8)" "held (LocalDispatcherImpl 8) = {#}" "handed (LocalDispatcherImpl 8) = {#}"
    using LocalDispatcher_init [of 8] by (simp_all add: handed_def)
  have p: "\<forall>i\<le>8. \<exists>locks\<in>set [\<lambda>i. i \<noteq> 3, \<lambda>i. True]. locks (i :: nat)" by simp
  have w: "with_affinity 3 \<lparr>dp_piece = no_piece, dp_affinity = 5\<rparr> = \<lparr>dp_piece = no_piece, dp_affinity = 5\<rparr>" by (simp add: with_affinity_def)
  show ?thesis using dispatch_loses_nothing [OF i(1) _ p, where tid = 3 and r = "\<lparr>dp_piece = no_piece, dp_affinity = 5\<rparr>"] i w by auto
qed

section \<open>Slice owners\<close>

text \<open>
  C40. A node that replays the operations that another node announced has the same owners of every slice,
  for nodes with a number below 32; both tables stay well formed.
\<close>

theorem slice_replay:
  assumes "table_inv t" "table_inv u" "same_owners t u" "\<forall>(s, ow, ty, node) \<in> set cs. s < kNrMaxSlices \<and> node < 32 \<and> known t node"
  shows "\<exists>t' u' ops. change_all self cs t = Inr t' \<and> broadcast_buffer t' = broadcast_buffer t @ ops
    \<and> UpdateSliceMappingTablesFromReceiver other ops u = Inr u' \<and> table_inv t' \<and> table_inv u' \<and> same_owners t' u'"
  using replay_same_owners [OF assms] .

theorem slice_replay_witness:
  "\<exists>t0 t' u' ops. InitNode 2 (SliceMappingTable 0 0) = Inr t0 \<and> change_all 1 [(7, True, IndexOwner, 2), (9, True, DataOwner, 2)] t0 = Inr t'
    \<and> broadcast_buffer t' = ops \<and> UpdateSliceMappingTablesFromReceiver 2 ops t0 = Inr u' \<and> same_owners t' u'"
proof -
  have "\<not> known (SliceMappingTable 0 0) 2" by (simp add: known_def SliceMappingTable_def kMaxNrNode_def)
  then obtain t0 where t0: "InitNode (int 2) (SliceMappingTable 0 0) = Inr t0" "table_inv t0" "known t0 2" "broadcast_buffer t0 = []"
    using InitNode_spec [OF SliceMappingTable_inv, of 2 0] by (auto simp: kMaxNrNode_def SliceMappingTable_def)
  have s: "same_owners t0 t0" by (simp add: same_owners_def)
  have "\<forall>(s, ow, ty, node) \<in> set [(7, True, IndexOwner, 2), (9, True, DataOwner, 2)]. s < kNrMaxSlices \<and> node < 32 \<and> known t0 node"
    using t0(3) by (simp add: kNrMaxSlices_def)
  from slice_replay [OF t0(2,2) s this, of 1 2] t0(1,4) show ?thesis by auto
qed

end
