(* ===== verification/Spec2Isabelle.thy ===== *)
theory Spec2Isabelle
  imports Row_Properties Sync_Properties Memory_Properties Sched_Properties Net_Properties
begin

text \<open>
  A verification development of felis, a deterministic multi-version database. A run is a sequence of
  epochs. In an epoch every transaction first announces the versions it will write (insert and
  initialize phase) and then executes in pieces that the cores of all nodes run in the
  order of the transactions' serial ids (execute phase). A reader of a version that is not
  written yet waits for it. Between epochs old versions are collected and the memory of the epoch is reused.

  \<^bold>\<open>How the code is modelled.\<close> Structures are records with the fields of the source, operations are functions
  from states to states. A failed \<open>abort_if\<close> and an access outside an array are the values \<open>Inl (Abort msg)\<close> and
  \<open>Inl OutOfBounds\<close> of the result type \<open>res\<close> (theory \<open>Felis_Prelude\<close>). Machine integers are words where a shift, a mask or an
  overflow matters, and \<open>nat\<close> or \<open>int\<close> with the bounds as hypotheses or explicit remainders where they do not. Code that
  several threads run at the same time without a lock is a step relation whose steps are the atomic
  operations (\<open>Locks\<close>, \<open>Vhandle_Sync\<close>, \<open>Commit_Buffer\<close>, the allocation barrier of \<open>Epoch_Client\<close>); code under a lock, and code that
  one core runs on its own data, is one step.

  \<^bold>\<open>Parts, theories and sources\<close> (files under \<^verbatim>\<open>src/\<close>).

  \<^item> Shared: \<open>Felis_Prelude\<close> (types, results, list lemmas), \<open>Cpp_Library\<close> and \<open>Cpp_Heap\<close> (bit builtins, \<open>std::lower_bound\<close>, \<open>memmove\<close>,
    \<open>push_heap\<close> and \<open>pop_heap\<close>), \<open>Bytes\<close> (byte buffers), \<open>Lower_Bound\<close> (\<^verbatim>\<open>util/lowerbound.h\<close>, \<^verbatim>\<open>util/arch.h\<close>), \<open>Linklist\<close> (\<^verbatim>\<open>util/linklist.h\<close>: nodes in a
    heap, abstracted to a ring).
  \<^item> Rows (\<^verbatim>\<open>vhandle.cc\<close>, \<^verbatim>\<open>vhandle.h\<close>): \<open>Vhandle_State\<close> has the record \<open>vhandle\<close> of \<open>SortedArrayVHandle\<close> and its invariant, \<open>Vhandle\<close> the operations
    (\<open>AppendNewVersion\<close>, \<open>ReadWithVersion\<close>, \<open>WriteWithVersion\<close> and what they call), \<open>Vhandle_Append\<close> the sortedness and growth of the array,
    \<open>Mv_Store\<close> the interface \<open>mv_exec\<close> of a multi-version row with its client lemmas, \<open>Vhandle_Store\<close> the proof that the array
    implements it, \<open>Vhandle_LinkList\<close> the linked-list row, which implements it too, and the row of deterministic locking.
  \<^item> Garbage collection (\<^verbatim>\<open>gc.cc\<close>, \<^verbatim>\<open>gc.h\<close>): \<open>Garbage_Collector\<close> (blocks, slabs, the run over an epoch's blocks, the collection of a
    row) and \<open>Garbage_Slab\<close> (the set of registrations that a slab implements).
  \<^item> Contended rows: \<open>Contention\<close>, \<open>Binpack\<close> and \<open>Contention_Reset\<close> (\<^verbatim>\<open>contention_manager.cc\<close>: version buffers, buffer positions, the knapsack,
    the end of an epoch), \<open>Locality\<close> (\<^verbatim>\<open>locality_manager.cc\<close>), \<open>Autotune\<close> (\<^verbatim>\<open>threshold_autotune.h\<close>).
  \<^item> Synchronisation: \<open>Locks\<close> (\<^verbatim>\<open>util/locks.cc\<close>), \<open>Vhandle_Sync\<close> (\<^verbatim>\<open>vhandle_sync.cc\<close>).
  \<^item> Memory (\<^verbatim>\<open>mem.cc\<close>, \<^verbatim>\<open>mem.h\<close>): \<open>Mem_Pool\<close> (\<open>WeakPool\<close>, \<open>BasicPool\<close>, \<open>Brk\<close>, and the interface \<open>chunk_pool\<close>), \<open>Mem_Slab\<close> and \<open>Mem_SlabPool\<close>
    (slabs), \<open>Mem_Region\<close> (\<open>ParallelAllocator\<close> over any \<open>chunk_pool\<close>, size classes, regions); \<open>Epoch_Mem\<close> (the allocators and objects of an
    epoch in \<^verbatim>\<open>epoch.cc\<close>, with the interface \<open>block_alloc\<close>); \<open>Commit_Buffer\<close> (\<^verbatim>\<open>commit_buffer.cc\<close>).
  \<^item> Execution: \<open>Prio_Queue\<close> (the priority queue of \<^verbatim>\<open>routine_sched.cc\<close>, with the interface \<open>prio_fifo\<close>), \<open>Routine_Sched\<close> (the dispatch service
    of a core), \<open>Piece\<close> (\<^verbatim>\<open>piece.cc\<close>: collections and packets), \<open>Exec_Routine\<close> (the loop of a core), \<open>Flushable\<close> and \<open>Local_Dispatch\<close>
    (\<^verbatim>\<open>node_config.h\<close>, \<^verbatim>\<open>node_config.cc\<close>: the buffers between transactions and cores, with the interface \<open>flushable\<close>).
  \<^item> Epochs and nodes: \<open>Epoch_Client\<close> (serial ids, transactions of a thread, completion counter, allocation barrier), \<open>Epoch_Phases\<close>
    (callbacks and phases), \<open>Buffer_Plan\<close> (\<^verbatim>\<open>node_config.cc\<close>: counting the pieces of a phase), \<open>Slice_Table\<close> (\<^verbatim>\<open>slice.cc\<close>: owners of slices).

  \<^bold>\<open>What is shown.\<close> The properties, numbered C1 to C40, are in five theories.

  \<^item> \<open>Row_Properties\<close>: the writes of an epoch commute and readers see the greatest version before them, for the array and the
    list; announcing a version, starting an epoch and collecting garbage keep what readers see; the binary search
    is \<open>upper_bound\<close>; registering and removing garbage, and inserting into and removing from a list, are inverse.
  \<^item> \<open>Sync_Properties\<close>: buffered announcements have the effect of direct ones; buffer positions are unique; the knapsack is
    optimal and every row gets a core that exists; loads are balanced; the MCS lock excludes and does not get
    stuck; no wake-up of a waiting reader is lost; the bounds of the threshold.
  \<^item> \<open>Memory_Properties\<close>: no allocator gives memory out twice, also when cores free each other's chunks; size classes are least;
    epoch objects are valid exactly in their epoch; the commit buffer's insertion returns.
  \<^item> \<open>Sched_Properties\<close>: a core runs everything it is given, sorted by key and stable; looking at the queue conserves pieces and
    respects priorities; preemption always has room; packets round-trip and reading stays inside them; pieces are
    counted exactly; completions reach zero exactly once; serial ids are ordered; experiments end.
  \<^item> \<open>Net_Properties\<close>: dispatching loses no piece and obeys affinities; replaying announced changes gives equal slice tables.

  Defects that the modelling showed are lemmas next to the definitions: \<open>slab_Add_after_straggler\<close>, \<open>Add_overflow_loses\<close>,
  \<open>mini_not_stored\<close>, \<open>scale_cores_negative\<close>, \<open>Collect_dynamic_child\<close>, \<open>WaitForData_core_limit\<close>, \<open>linklist_gc_loses_value\<close>, \<open>GetNextThreshold_unbounded\<close>,
  \<open>LocateNodeLookup_stuck\<close>, \<open>replay_large_node\<close>. The theorems about the same code carry the hypotheses that exclude them.

  \<^bold>\<open>Bounds and fuel.\<close> Loops that follow data are structural. The others take fuel and return \<open>None\<close> without enough
  of it: \<open>AddRef\<close> needs the number of entries plus four, \<open>Run\<close> the number of pieces plus two, \<open>Flush\<close> passes that unlock every buffer
  once; the theorems prove the result for that fuel. \<open>DecodeNode\<close> has the length of the packet as fuel, which bounds its
  recursion since a node takes at least 72 bytes. The search of versions is exact below 8192 versions, the depth of its
  unrolled loop. \<open>RunGC\<close> has fuel for the turns over the rows of a block, and one turn for each block.

  \<^bold>\<open>Parameters.\<close> The hash function XXH32, addresses that the operating system returns, the outcome of \<open>TryLock\<close> and of random
  draws, measured times and the callback of a piece are arguments of the definitions that use them. Coroutines and sockets are
  the gopp submodule.

  \<^bold>\<open>Not modelled.\<close> The TCP transport, row shipping and entities (sockets and the submodule's channels); the indices
  (Masstree is a submodule); transaction templates (\<^verbatim>\<open>txn.cc\<close>, \<^verbatim>\<open>txn_cc.h\<close>), whose calls to rows and pieces are modelled; the partial-order
  scheduler \<open>PWVScheduler\<close> and its graph; the coroutine scheduler, which switches machine stacks; values and schemas
  (\<^verbatim>\<open>varstr.h\<close>, \<^verbatim>\<open>sqltypes.h\<close>), which macros generate; checkpoints, console, options, probes, logging and start-up; the benchmarks.
\<close>

end
